(* ===== verification/KT_Prelude.thy ===== *)
theory KT_Prelude
  imports Main "HOL-Library.Word"
begin

text \<open>
  Shared vocabulary of the development: byte strings and machine integers as the Go
  code has them, big-endian encoders, small lemmas on lists and words, and the
  collections the component theories add to.

  A Go \<open>[]byte\<close> or \<open>[32]byte\<close> is a list of \<open>8 word\<close>; \<open>uint64\<close>, \<open>uint32\<close> and
  \<open>int64\<close> values whose width matters are words, and an \<open>int\<close> used only as an index
  or a length is a \<open>nat\<close>.  A call that returns \<open>(T, error)\<close> is a value of \<open>'e + 'a\<close>:
  \<open>Inl\<close> is the error, \<open>Inr\<close> the result.
\<close>

unbundle bit_operations_syntax

type_synonym byte = "8 word"
type_synonym bytes = "byte list"
type_synonym u16 = "16 word"
type_synonym u32 = "32 word"
type_synonym u64 = "64 word"

named_theorems err_simps \<open>equations of the error-returning operations\<close>
named_theorems len_simps \<open>lengths of encodings\<close>

subsection \<open>Results\<close>

definition is_ok :: "'e + 'a \<Rightarrow> bool" where
  "is_ok r \<longleftrightarrow> (case r of Inl _ \<Rightarrow> False | Inr _ \<Rightarrow> True)"

lemma is_ok_simps [simp]: "is_ok (Inr x)" "\<not> is_ok (Inl e)"
  by (simp_all add: is_ok_def)

lemma is_okE: "is_ok r \<Longrightarrow> (\<And>x. r = Inr x \<Longrightarrow> P) \<Longrightarrow> P"
  by (cases r) (auto simp: is_ok_def)

lemma not_is_okE: "\<not> is_ok r \<Longrightarrow> (\<And>e. r = Inl e \<Longrightarrow> P) \<Longrightarrow> P"
  by (cases r) (auto simp: is_ok_def)

subsection \<open>Slices\<close>

text \<open>The Go slice expression \<open>b[i:j]\<close>, for \<open>i \<le> j \<le> len(b)\<close>.\<close>

definition go_slice :: "nat \<Rightarrow> nat \<Rightarrow> 'a list \<Rightarrow> 'a list" where
  "go_slice i j xs = take (j - i) (drop i xs)"

lemma length_go_slice [simp]: "length (go_slice i j xs) = min (j - i) (length xs - i)"
  by (simp add: go_slice_def min.commute)

lemma go_slice_append3: "length pre = i \<Longrightarrow> length mid = j - i \<Longrightarrow> i \<le> j \<Longrightarrow>
  go_slice i j (pre @ mid @ post) = mid"
  by (simp add: go_slice_def)

lemma nth_drop_hd: "i < length b \<Longrightarrow> drop i b = b ! i # drop (Suc i) b"
  by (simp add: Cons_nth_drop_Suc)

subsection \<open>Big-endian integers\<close>

text \<open>\<open>binary.BigEndian.PutUint16/32/64\<close> and the matching readers.\<close>

definition be_bytes :: "nat \<Rightarrow> 'a::len word \<Rightarrow> bytes" where
  "be_bytes n w = map (\<lambda>i. ucast (drop_bit (8 * (n - Suc i)) w)) [0..<n]"

definition be16 :: "u16 \<Rightarrow> bytes" where "be16 = be_bytes 2"
definition be32 :: "u32 \<Rightarrow> bytes" where "be32 = be_bytes 4"
definition be64 :: "u64 \<Rightarrow> bytes" where "be64 = be_bytes 8"

definition be_nat :: "bytes \<Rightarrow> nat" where
  "be_nat bs = foldl (\<lambda>a b. a * 256 + unat b) 0 bs"

definition be_word :: "bytes \<Rightarrow> 'a::len word" where
  "be_word bs = of_nat (be_nat bs)"

lemma length_be_bytes [simp, len_simps]: "length (be_bytes n w) = n"
  by (simp add: be_bytes_def)

lemma length_be16 [simp, len_simps]: "length (be16 w) = 2"
  by (simp add: be16_def)

lemma length_be32 [simp, len_simps]: "length (be32 w) = 4"
  by (simp add: be32_def)

lemma length_be64 [simp, len_simps]: "length (be64 w) = 8"
  by (simp add: be64_def)

lemma be_nat_snoc: "be_nat (bs @ [b]) = be_nat bs * 256 + unat b"
  by (simp add: be_nat_def)

lemma be_bytes_Suc: "be_bytes (Suc n) w = be_bytes n (drop_bit 8 w) @ [ucast w]"
proof -
  have "8 * (n - x) = 8 * (n - Suc x) + 8" if "x < n" for x using that by simp
  then show ?thesis by (simp add: be_bytes_def drop_bit_drop_bit)
qed

lemma be_nat_be_bytes: "be_nat (be_bytes n w) = unat w mod 256 ^ n"
proof (induction n arbitrary: w)
  case 0
  then show ?case by (simp add: be_bytes_def be_nat_def)
next
  case (Suc n)
  have u: "unat (ucast w :: byte) = unat w mod 256"
    by (simp add: unsigned_ucast_eq take_bit_eq_mod)
  have d: "unat (drop_bit 8 w) = unat w div 256"
    by (simp only: unat_drop_bit_eq) (simp add: drop_bit_eq_div)
  show ?case
    unfolding be_bytes_Suc be_nat_snoc Suc u d
    by (simp add: mod_mult2_eq algebra_simps)
qed

lemma be_word_be64 [simp]: "be_word (be64 w) = w"
proof -
  have "unat w < 256 ^ 8" using unsigned_less[of w, where 'a = nat] by simp
  then show ?thesis by (simp add: be_word_def be64_def be_nat_be_bytes)
qed

lemma be_word_be32 [simp]: "be_word (be32 w) = w"
proof -
  have "unat w < 256 ^ 4" using unsigned_less[of w, where 'a = nat] by simp
  then show ?thesis by (simp add: be_word_def be32_def be_nat_be_bytes)
qed

lemma be_word_be16 [simp]: "be_word (be16 w) = w"
proof -
  have "unat w < 256 ^ 2" using unsigned_less[of w, where 'a = nat] by simp
  then show ?thesis by (simp add: be_word_def be16_def be_nat_be_bytes)
qed

lemma be64_inj [simp]: "be64 a = be64 b \<longleftrightarrow> a = b"
  by (metis be_word_be64)

lemma be32_inj [simp]: "be32 a = be32 b \<longleftrightarrow> a = b"
  by (metis be_word_be32)

subsection \<open>Words read as natural numbers\<close>

lemma unat_drop_bit: "unat (drop_bit n w) = unat w div 2 ^ n"
  by (simp only: unat_drop_bit_eq) (simp add: drop_bit_eq_div)

lemma unat_le_iff: "x \<le> y \<longleftrightarrow> unat x \<le> unat y"
  by (simp add: word_le_nat_alt)

lemma unat_less_iff: "x < y \<longleftrightarrow> unat x < unat y"
  by (simp add: word_less_nat_alt)

lemma uint_eq_sint: "0 \<le> sint w \<Longrightarrow> uint w = sint w"
  for w :: u64
  using sint_lt[of w] by (simp add: uint_sint take_bit_int_eq_self)

subsection \<open>\<open>math/bits\<close>\<close>

fun bit_len :: "nat \<Rightarrow> nat" where
  "bit_len n = (if n = 0 then 0 else Suc (bit_len (n div 2)))"

declare bit_len.simps [simp del]

definition Len64 :: "u64 \<Rightarrow> nat" where
  "Len64 w = bit_len (unat w)"

definition TrailingZeros64 :: "u64 \<Rightarrow> nat" where
  "TrailingZeros64 w = length (takeWhile (\<lambda>i. \<not> bit w i) [0..<64])"

definition OnesCount64 :: "u64 \<Rightarrow> nat" where
  "OnesCount64 w = length (filter (bit w) [0..<64])"

lemma bit_len_unique: "2 ^ k \<le> n \<Longrightarrow> n < 2 ^ Suc k \<Longrightarrow> bit_len n = Suc k"
proof (induction k arbitrary: n)
  case 0
  then have "n = 1" by simp
  then show ?case by (simp add: bit_len.simps)
next
  case (Suc k)
  have "2 ^ k \<le> n div 2" "n div 2 < 2 ^ Suc k" using Suc.prems by auto
  then have "bit_len (n div 2) = Suc k" by (rule Suc.IH)
  moreover have "n \<noteq> 0" using Suc.prems(1) by (cases n) auto
  ultimately show ?case by (simp add: bit_len.simps[of n])
qed

lemma bit_len_0 [simp]: "bit_len 0 = 0"
  by (subst bit_len.simps) simp

lemma bit_len_1 [simp]: "bit_len (Suc 0) = Suc 0"
  by (subst bit_len.simps) simp

lemma bit_len_bounds: "0 < n \<Longrightarrow> 2 ^ (bit_len n - 1) \<le> n \<and> n < 2 ^ bit_len n"
proof (induction n rule: bit_len.induct)
  case (1 n)
  show ?case
  proof (cases "n div 2 = 0")
    case True
    then have "n = 1" using "1.prems" by simp
    then show ?thesis by (simp add: bit_len.simps)
  next
    case False
    then have h: "2 ^ (bit_len (n div 2) - 1) \<le> n div 2 \<and> n div 2 < 2 ^ bit_len (n div 2)"
      using "1.IH" "1.prems" by simp
    moreover obtain c where "bit_len (n div 2) = Suc c"
      using False by (cases "bit_len (n div 2)") (auto simp: bit_len.simps)
    ultimately have "2 ^ Suc c \<le> n" "n < 2 ^ Suc (Suc c)" by auto
    with \<open>bit_len (n div 2) = Suc c\<close> "1.prems" show ?thesis by (simp add: bit_len.simps[of n])
  qed
qed

lemma length_takeWhile_upt:
  assumes "j \<le> n" "\<And>i. i < j \<Longrightarrow> P i" "j < n \<Longrightarrow> \<not> P j"
  shows "length (takeWhile P [0..<n]) = j"
proof -
  have "[0..<n] = [0..<j] @ [j..<n]"
    using assms(1) by (metis le_add_diff_inverse upt_add_eq_append zero_le)
  moreover have "takeWhile P ([0..<j] @ [j..<n]) = [0..<j] @ takeWhile P [j..<n]"
    by (rule takeWhile_append2) (use assms(2) in auto)
  moreover have "takeWhile P [j..<n] = []"
    using assms(3) by (cases "j < n") (auto simp: upt_conv_Cons)
  ultimately show ?thesis by simp
qed

subsection \<open>Collisions\<close>

text \<open>
  The theorems about hashes name the preimages the code hashes and conclude that the
  claim holds or that two of these preimages collide.
\<close>

definition collides :: "('a \<Rightarrow> 'b) \<Rightarrow> 'a set \<Rightarrow> bool" where
  "collides f S \<longleftrightarrow> \<not> inj_on f S"

lemma collides_iff: "collides f S \<longleftrightarrow> (\<exists>x\<in>S. \<exists>y\<in>S. x \<noteq> y \<and> f x = f y)"
  by (auto simp: collides_def inj_on_def)

lemma collides_mono: "collides f S \<Longrightarrow> S \<subseteq> T \<Longrightarrow> collides f T"
  unfolding collides_iff by blast

lemma or_collidesI: "(inj_on f S \<Longrightarrow> P) \<Longrightarrow> P \<or> collides f S"
  by (auto simp: collides_def)

subsection \<open>A concrete hash for worked instances\<close>

text \<open>
  SHA-256 is a parameter of the development.  Worked instances of the theorems use this
  small function with 32-byte results, and check on the finitely many preimages at hand
  that it does not collide.
\<close>

definition toy_sha :: "bytes \<Rightarrow> bytes" where
  "toy_sha x = replicate 31 0 @ [foldl (\<lambda>a b. 31 * a + b) 7 x]"

definition h32 :: "byte \<Rightarrow> bytes" where
  "h32 b = replicate 31 1 @ [b]"

lemma length_toy_sha [simp]: "length (toy_sha x) = 32"
  by (simp add: toy_sha_def)

lemma length_h32 [simp]: "length (h32 b) = 32"
  by (simp add: h32_def)

lemma inj_on_setI: "distinct (map f (remdups xs)) \<Longrightarrow> inj_on f (set xs)"
  by (simp add: distinct_map)

end
