(* ===== verification/Merkle_Tree.thy ===== *)
theory Merkle_Tree
  imports KT_Prelude
begin

text \<open>
  The left-balanced Merkle tree both log implementations compute, as a mathematical
  object: a reference hash \<open>mth\<close> over a list of leaves, split at the largest power of two
  below the length, and the frontier of its maximal full subtrees.  Appending a block to
  a frontier is binary addition with hashing as the carry, and folding a frontier gives
  \<open>mth\<close>.  The machine-integer code of the component theories refines these definitions.
\<close>

subsection \<open>The height of a left-balanced tree\<close>

fun clog :: "nat \<Rightarrow> nat" where
  "clog n = (if n \<le> 1 then 0 else Suc (clog (Suc n div 2)))"

declare clog.simps [simp del]

lemma clog_le_1 [simp]: "n \<le> 1 \<Longrightarrow> clog n = 0"
  by (simp add: clog.simps)

lemma clog_0 [simp]: "clog 0 = 0" and clog_1 [simp]: "clog (Suc 0) = 0"
  by simp_all

lemma clog_upper: "n \<le> 2 ^ clog n"
proof (induction n rule: clog.induct)
  case (1 n)
  then show ?case by (cases "n \<le> 1") (auto simp: clog.simps[of n])
qed

lemma clog_lower: "1 < n \<Longrightarrow> 2 ^ (clog n - 1) < n"
proof (induction n rule: clog.induct)
  case (1 n)
  show ?case
  proof (cases "n \<le> 2")
    case True
    with "1.prems" have "n = 2" by simp
    then show ?thesis by (simp add: clog.simps)
  next
    case False
    then have h: "1 < Suc n div 2" by simp
    then have "2 ^ (clog (Suc n div 2) - 1) < Suc n div 2"
      using "1.IH" "1.prems" by simp
    moreover have "clog (Suc n div 2) > 0" using h by (simp add: clog.simps)
    then obtain c where "clog (Suc n div 2) = Suc c" using gr0_conv_Suc by blast
    ultimately show ?thesis using "1.prems" by (simp add: clog.simps[of n])
  qed
qed

lemma clog_pos: "1 < n \<Longrightarrow> 0 < clog n"
  by (simp add: clog.simps)

lemma clog_unique:
  assumes "n \<le> 2 ^ j" "j = 0 \<or> 2 ^ (j - 1) < n"
  shows "clog n = j"
proof (rule linorder_cases[of "clog n" j])
  assume c: "clog n < j"
  then have "(2::nat) ^ clog n \<le> 2 ^ (j - 1)" by (intro power_increasing) auto
  then show ?thesis using c assms clog_upper[of n] by linarith
next
  assume c: "j < clog n"
  then have n: "1 < n" by (cases "n \<le> 1") auto
  have "(2::nat) ^ j \<le> 2 ^ (clog n - 1)" using c by (intro power_increasing) auto
  then show ?thesis using assms clog_lower[OF n] by linarith
qed

lemma clog_pow2 [simp]: "clog (2 ^ j) = j"
  by (rule clog_unique) (cases j; simp)+

lemma clog_le: "n \<le> 2 ^ j \<Longrightarrow> clog n \<le> j"
proof (rule ccontr)
  assume n: "n \<le> 2 ^ j" and c: "\<not> clog n \<le> j"
  then have "1 < n" by (cases "n \<le> 1") auto
  moreover have "(2::nat) ^ j \<le> 2 ^ (clog n - 1)" using c by (intro power_increasing) auto
  ultimately show False using n clog_lower[of n] by linarith
qed

subsection \<open>The reference hash\<close>

function mth :: "('a \<Rightarrow> 'h) \<Rightarrow> ('h \<Rightarrow> 'h \<Rightarrow> 'h) \<Rightarrow> 'a list \<Rightarrow> 'h" where
  "mth lf nd ls =
     (if length ls \<le> 1 then lf (hd ls)
      else let k = 2 ^ (clog (length ls) - 1)
           in nd (mth lf nd (take k ls)) (mth lf nd (drop k ls)))"
  by pat_completeness auto
termination
proof (relation "measure (\<lambda>(lf, nd, ls). length ls)")
  fix ls :: "'a list" and k assume "\<not> length ls \<le> 1" "k = (2::nat) ^ (clog (length ls) - 1)"
  then have "k < length ls" "0 < k" using clog_lower[of "length ls"] by auto
  then show "((lf, nd, take k ls), lf, nd, ls) \<in> measure (\<lambda>(lf, nd, ls). length ls)"
    "((lf, nd, drop k ls), lf, nd, ls) \<in> measure (\<lambda>(lf, nd, ls). length ls)" for lf nd
    by auto
qed auto

declare mth.simps [simp del]

lemma mth_single [simp]: "mth lf nd [x] = lf x"
  by (simp add: mth.simps)

text \<open>A full block of \<open>2^l\<close> leaves followed by at most as many more splits there.\<close>

lemma mth_join:
  assumes "length x = 2 ^ l" "0 < length b" "length b \<le> 2 ^ l"
  shows "mth lf nd (x @ b) = nd (mth lf nd x) (mth lf nd b)"
proof -
  have "clog (length (x @ b)) = Suc l"
    by (rule clog_unique) (use assms in auto)
  moreover have "1 < length (x @ b)" 
    using assms(2) assms(1) one_le_power[of "2::nat" l] by (simp only: length_append) linarith
  ultimately show ?thesis
    by (subst mth.simps) (simp add: Let_def assms(1) flip: assms(1))
qed

subsection \<open>Frontiers\<close>

text \<open>
  A frontier is kept smallest block first.  Each entry is a level and its leaves.
\<close>

type_synonym 'a frontier = "(nat \<times> 'a list) list"

fun fr_add :: "nat \<Rightarrow> 'a list \<Rightarrow> 'a frontier \<Rightarrow> 'a frontier" where
  "fr_add l b [] = [(l, b)]"
| "fr_add l b ((k, x) # fs) = (if k = l then fr_add (Suc l) (x @ b) fs else (l, b) # (k, x) # fs)"

definition fr_leaves :: "'a frontier \<Rightarrow> 'a list" where
  "fr_leaves fs = concat (rev (map snd fs))"

fun fr_wf :: "nat \<Rightarrow> 'a frontier \<Rightarrow> bool" where
  "fr_wf l [] \<longleftrightarrow> True"
| "fr_wf l ((k, x) # fs) \<longleftrightarrow> l \<le> k \<and> length x = 2 ^ k \<and> fr_wf (Suc k) fs"

fun fr_fold :: "('a list \<Rightarrow> 'h) \<Rightarrow> ('h \<Rightarrow> 'h \<Rightarrow> 'h) \<Rightarrow> 'h \<Rightarrow> 'a frontier \<Rightarrow> 'h" where
  "fr_fold h nd acc [] = acc"
| "fr_fold h nd acc ((k, x) # fs) = fr_fold h nd (nd (h x) acc) fs"

definition fr_size :: "'a frontier \<Rightarrow> nat" where
  "fr_size fs = sum_list (map (\<lambda>f. 2 ^ fst f) fs)"

lemma fr_leaves_simps [simp]:
  "fr_leaves [] = []" "fr_leaves ((k, x) # fs) = fr_leaves fs @ x"
  by (simp_all add: fr_leaves_def)

lemma fr_wf_mono: "fr_wf l fs \<Longrightarrow> k \<le> l \<Longrightarrow> fr_wf k fs"
  by (cases fs) auto

lemma fr_leaves_add: "fr_leaves (fr_add l b fs) = fr_leaves fs @ b"
  by (induction l b fs rule: fr_add.induct) auto

lemma fr_wf_add: "length b = 2 ^ l \<Longrightarrow> fr_wf l fs \<Longrightarrow> fr_wf l (fr_add l b fs)"
proof (induction l b fs rule: fr_add.induct)
  case (2 l b k x fs)
  then show ?case
    by (auto intro: fr_wf_mono[of "Suc l"] elim: fr_wf_mono)
qed auto

lemma length_fr_leaves: "fr_wf l fs \<Longrightarrow> length (fr_leaves fs) = fr_size fs"
  by (induction l fs rule: fr_wf.induct) (auto simp: fr_size_def)

text \<open>Folding the blocks, smallest first, gives the hash of all the leaves.\<close>

lemma fr_fold_mth:
  "0 < length b \<Longrightarrow> length b \<le> 2 ^ l \<Longrightarrow> fr_wf l fs \<Longrightarrow>
   fr_fold (mth lf nd) nd (mth lf nd b) fs = mth lf nd (fr_leaves fs @ b)"
proof (induction fs arbitrary: b l)
  case (Cons f fs)
  obtain k x where f: "f = (k, x)" by (cases f)
  have w: "l \<le> k" "length x = 2 ^ k" "fr_wf (Suc k) fs" using Cons.prems(3) f by auto
  have "(2::nat) ^ l \<le> 2 ^ k" using w(1) by simp
  then have b: "length b \<le> 2 ^ k" using Cons.prems(2) by linarith
  have "fr_fold (mth lf nd) nd (mth lf nd (x @ b)) fs = mth lf nd (fr_leaves fs @ (x @ b))"
    by (rule Cons.IH[OF _ _ w(3)]) (use w b Cons.prems(1) in auto)
  then show ?case by (simp add: f mth_join[OF w(2) Cons.prems(1) b])
qed simp

text \<open>
  A frontier is determined by the number of its leaves: its levels are the set bits of
  that number.
\<close>

lemma fr_size_simps [simp]: "fr_size [] = 0" "fr_size ((k, x) # fs) = 2 ^ k + fr_size fs"
  by (simp_all add: fr_size_def)

lemma fr_size_dvd: "fr_wf l fs \<Longrightarrow> 2 ^ l dvd fr_size fs"
proof (induction fs arbitrary: l)
  case (Cons f fs)
  obtain k x where f: "f = (k, x)" by (cases f)
  have "2 ^ l dvd (2::nat) ^ k" using Cons.prems f by (auto intro: le_imp_power_dvd)
  moreover have "(2::nat) ^ l dvd 2 ^ Suc k" using Cons.prems f by (auto intro: le_imp_power_dvd simp del: power_Suc)
  ultimately show ?case using Cons.IH[of "Suc k"] Cons.prems f by (auto intro: dvd_trans)
qed simp

end
