(* ===== verification/Log_Tree.thy ===== *)
theory Log_Tree
  imports Merkle_Tree
begin

text \<open>
  Signal's log tree, \<open>internal/source/signal/logtree.go\<close>: RFC 9420 node numbering on
  \<open>uint64\<close>, the decomposition of a tree into full subtrees, the node list of a
  consistency proof, the root calculator, and the consistency check built from them.
  SHA-256 is the parameter \<open>sha\<close>; a loop that the source runs until a bound is met is a
  recursive function with its termination proof.
\<close>

type_synonym hash = bytes

record node =
  interior :: bool
  val :: hash

definition marshal :: "node \<Rightarrow> bytes" where
  "marshal n = (if interior n then 1 else 0) # val n"

definition treeHash :: "(bytes \<Rightarrow> hash) \<Rightarrow> node \<Rightarrow> node \<Rightarrow> node" where
  "treeHash sha left right =
     \<lparr>interior = True, val = sha (marshal left @ marshal right)\<rparr>"

datatype logtree_error =
    LeafHasNoChildren u64
  | RootHasNoParent u64
  | EmptyChain
  | MalformedChain
  | BadSizes u64 u64
  | WrongProofLength nat nat
  | PathMismatch nat
  | OldRootMismatch u64
  | DoesNotExtend u64 u64

subsection \<open>Node arithmetic\<close>

definition log2 :: "u64 \<Rightarrow> nat" where
  "log2 n = (if n = 0 then 0 else Len64 n - 1)"

definition level :: "u64 \<Rightarrow> nat" where
  "level x = TrailingZeros64 (NOT x)"

definition leftStep :: "u64 \<Rightarrow> logtree_error + u64" where
  "leftStep x = (let k = level x in
     if k = 0 then Inl (LeafHasNoChildren x) else Inr (x XOR push_bit (k - 1) 1))"

definition rightStep :: "u64 \<Rightarrow> logtree_error + u64" where
  "rightStep x = (let k = level x in
     if k = 0 then Inl (LeafHasNoChildren x) else Inr (x XOR push_bit (k - 1) 3))"

definition parentStep :: "u64 \<Rightarrow> u64" where
  "parentStep x = (let k = level x; b = drop_bit (k + 1) x AND 1
     in (x OR push_bit k 1) XOR push_bit (k + 1) b)"

definition nodeWidth :: "u64 \<Rightarrow> u64" where
  "nodeWidth n = (if n = 0 then 0 else 2 * (n - 1) + 1)"

definition treeRoot :: "u64 \<Rightarrow> u64" where
  "treeRoot n = push_bit (log2 (nodeWidth n)) 1 - 1"

definition leftChild :: "u64 \<Rightarrow> logtree_error + u64" where
  "leftChild x = leftStep x"

text \<open>A left step clears a set bit, so it goes down: the loops over it end.\<close>

lemma level_alt: "level x = length (takeWhile (bit x) [0..<64])"
proof -
  have "takeWhile (\<lambda>i. \<not> bit (NOT x) i) [0..<64] = takeWhile (bit x) [0..<64]"
    by (rule takeWhile_cong) (auto simp: bit_simps)
  then show ?thesis by (simp add: level_def TrailingZeros64_def)
qed

lemma level_le: "level x \<le> 64"
  using length_takeWhile_le[of "bit x" "[0..<64]"] by (simp add: level_alt)

lemma level_bits: "i < level x \<Longrightarrow> bit x i"
  using nth_mem[of i "takeWhile (bit x) [0..<64]"] takeWhile_nth[of i "bit x" "[0..<64]"]
    set_takeWhileD level_le[of x]
  by (fastforce simp: level_alt)

lemma unat_flip_down: "bit x i \<Longrightarrow> unat (x XOR push_bit i 1) < unat x" for x :: u64
proof -
  assume b: "bit x i"
  let ?y = "x XOR push_bit i 1"
  have "?y AND push_bit i 1 = 0"
    by (rule bit_word_eqI) (use b in \<open>auto simp: bit_simps dest: bit_imp_le_length\<close>)
  moreover have "?y OR push_bit i 1 = x"
    by (rule bit_word_eqI) (use b in \<open>auto simp: bit_simps dest: bit_imp_le_length\<close>)
  ultimately have "?y + push_bit i 1 = x" by (metis disjunctive_add_eq_or)
  moreover have "bit (unat x) i" using b by (simp add: bit_simps bit_imp_le_length)
  have "?y = x AND NOT (push_bit i 1)"
    by (rule bit_word_eqI) (use b in \<open>auto simp: bit_simps dest: bit_imp_le_length\<close>)
  then have "?y \<le> x" by (simp add: word_and_le2)
  moreover have "?y \<noteq> x" 
  proof
    assume "?y = x"
    then have "bit ?y i = bit x i" by simp
    then show False using b by (auto simp: bit_simps dest: bit_imp_le_length)
  qed
  ultimately show ?thesis by (simp add: unat_less_iff[symmetric])
qed

lemma leftStep_less: "leftStep x = Inr y \<Longrightarrow> unat y < unat x"
  using unat_flip_down[OF level_bits[of "level x - 1" x]]
  by (auto simp: leftStep_def Let_def split: if_splits)

text \<open>\<open>for r >= w { r, err = leftStep(r) }\<close>\<close>

function slide_left :: "u64 \<Rightarrow> u64 \<Rightarrow> logtree_error + u64" where
  "slide_left r w =
     (if r \<ge> w then (case leftStep r of Inl e \<Rightarrow> Inl e | Inr r' \<Rightarrow> slide_left r' w)
      else Inr r)"
  by pat_completeness auto
termination
  by (relation "measure (\<lambda>(r, w). unat r)") (auto dest: leftStep_less)

declare slide_left.simps [simp del]

definition rightChild :: "u64 \<Rightarrow> u64 \<Rightarrow> logtree_error + u64" where
  "rightChild x n =
     (case rightStep x of Inl e \<Rightarrow> Inl e | Inr r \<Rightarrow> slide_left r (nodeWidth n))"

definition isFullSubtree :: "u64 \<Rightarrow> u64 \<Rightarrow> bool" where
  "isFullSubtree x n \<longleftrightarrow> x + push_bit (level x) 1 - 1 \<le> 2 * (n - 1)"

lemma level_le_clear: "\<not> bit x i \<Longrightarrow> level x \<le> i"
  using level_bits[of i x] by linarith

lemma level_leftStep: "leftStep x = Inr y \<Longrightarrow> level y < level x"
proof -
  assume "leftStep x = Inr y"
  then have k: "level x \<noteq> 0" and y: "y = x XOR push_bit (level x - 1) 1"
    by (auto simp: leftStep_def Let_def split: if_splits)
  then have "bit x (level x - 1)" by (intro level_bits) simp
  then have "\<not> bit y (level x - 1)"
    by (auto simp: y bit_simps dest: bit_imp_le_length)
  from level_le_clear[OF this] k show ?thesis by simp
qed

lemma bit_3: "bit (3 :: u64) k \<longleftrightarrow> k = 0 \<or> k = 1"
proof -
  have "(3 :: u64) = mask 2" by (simp add: mask_eq_exp_minus_1)
  then show ?thesis by (simp only: bit_mask_iff) auto
qed

lemma level_rightStep: "rightStep x = Inr y \<Longrightarrow> level y < level x"
proof -
  assume "rightStep x = Inr y"
  then have k: "level x \<noteq> 0" and y: "y = x XOR push_bit (level x - 1) 3"
    by (auto simp: rightStep_def Let_def split: if_splits)
  then have "bit x (level x - 1)" by (intro level_bits) simp
  then have "\<not> bit y (level x - 1)"
    by (auto simp: y bit_simps bit_3 dest: bit_imp_le_length)
  from level_le_clear[OF this] k show ?thesis by simp
qed

lemma level_slide_left: "slide_left r w = Inr y \<Longrightarrow> level y \<le> level r"
proof (induction r w rule: slide_left.induct)
  case (1 r w)
  show ?case
  proof (cases "r \<ge> w")
    case True
    with "1.prems" obtain r' where r': "leftStep r = Inr r'" "slide_left r' w = Inr y"
      by (subst (asm) slide_left.simps) (auto split: sum.splits)
    then show ?thesis using "1.IH"[OF True r'] level_leftStep[OF r'(1)] by simp
  qed (use "1.prems" in \<open>subst (asm) slide_left.simps, simp\<close>)
qed

lemma level_rightChild: "rightChild x n = Inr y \<Longrightarrow> level y < level x"
  by (auto simp: rightChild_def split: sum.splits dest!: level_rightStep level_slide_left)

text \<open>\<open>fullSubtrees\<close>: the walk down the right edge.\<close>

function fullSubtrees :: "u64 \<Rightarrow> u64 \<Rightarrow> u64 list \<Rightarrow> logtree_error + u64 list" where
  "fullSubtrees x n out =
     (if isFullSubtree x n then Inr (out @ [x])
      else case leftChild x of
             Inl e \<Rightarrow> Inl e
           | Inr l \<Rightarrow> (case rightChild x n of
                         Inl e \<Rightarrow> Inl e
                       | Inr r \<Rightarrow> fullSubtrees r n (out @ [l])))"
  by pat_completeness auto
termination
  by (relation "measure (\<lambda>(x, n, out). level x)") (auto dest: level_rightChild)

declare fullSubtrees.simps [simp del]

text \<open>\<open>k\<close> of \<open>subProof\<close>: the largest power of two below \<open>n\<close>.\<close>

definition subProof_k :: "u64 \<Rightarrow> u64" where
  "subProof_k n = (let k = push_bit (log2 n) 1 in if k = n then k div 2 else k)"

lemma log2_bounds: "n \<noteq> 0 \<Longrightarrow> 2 ^ log2 n \<le> unat n \<and> unat n < 2 ^ Suc (log2 n)"
proof -
  assume "n \<noteq> 0"
  then have n: "0 < unat n" by (simp add: unat_gt_0)
  then obtain c where "bit_len (unat n) = Suc c"
    by (cases "bit_len (unat n)") (auto simp: bit_len.simps)
  with bit_len_bounds[OF n] \<open>n \<noteq> 0\<close> show ?thesis by (simp add: log2_def Len64_def)
qed

lemma log2_less: "log2 n < 64"
proof (cases "n = 0")
  case False
  have "unat n < 2 ^ 64" using unsigned_less[of n, where 'a = nat] by simp
  with log2_bounds[OF False] have "(2::nat) ^ log2 n < 2 ^ 64" by linarith
  then show ?thesis by (simp only: power_strict_increasing_iff one_less_numeral_iff semiring_norm)
qed (simp add: log2_def)

lemma unat_pow2: "k < 64 \<Longrightarrow> unat (push_bit k 1 :: u64) = 2 ^ k"
proof -
  assume k: "k < 64"
  then have "(2::nat) ^ k < 2 ^ 64" by (intro power_strict_increasing) auto
  moreover have "(push_bit k 1 :: u64) = of_nat (2 ^ k)" by (simp add: push_bit_eq_mult)
  ultimately show ?thesis by (simp only: unat_of_nat) (simp add: take_bit_nat_eq_self)
qed

lemma subProof_k_unat:
  "n \<noteq> 0 \<Longrightarrow> unat (subProof_k n) < unat n \<and> (1 < unat n \<longrightarrow> 0 < unat (subProof_k n))"
proof -
  assume n: "n \<noteq> 0"
  let ?k = "push_bit (log2 n) 1 :: u64"
  have u: "unat ?k = 2 ^ log2 n" by (rule unat_pow2[OF log2_less])
  show ?thesis
  proof (cases "?k = n")
    case True
    then have "subProof_k n = n div 2" by (simp add: subProof_k_def Let_def)
    moreover have "unat (n div 2) = unat n div 2" by (simp add: unat_div_distrib)
    moreover have "0 < unat n" using n by (simp add: unat_gt_0)
    ultimately show ?thesis by auto
  next
    case False
    then have "unat ?k \<noteq> unat n" by (simp add: word_unat_eq_iff)
    then show ?thesis using False u log2_bounds[OF n]
      by (simp add: subProof_k_def Let_def)
  qed
qed

lemma treeRoot_small: "unat n \<le> 1 \<Longrightarrow> treeRoot n = 0"
proof -
  assume "unat n \<le> 1"
  then have "unat n = 0 \<or> unat n = 1" by linarith
  then have "n = 0 \<or> n = 1" by (simp add: word_unat_eq_iff)
  then show ?thesis
    by (auto simp: treeRoot_def nodeWidth_def log2_def Len64_def)
qed

lemma leftChild_leaf: "leftChild 0 = Inl (LeafHasNoChildren 0)"
  using level_le_clear[of 0 0] by (simp add: leftChild_def leftStep_def Let_def)

text \<open>\<open>subProof\<close>; the nodes it appends to \<open>out\<close> are its result.\<close>

function subProof :: "u64 \<Rightarrow> u64 \<Rightarrow> bool \<Rightarrow> logtree_error + u64 list" where
  "subProof m n b =
     (if m = n then Inr (if b then [] else [treeRoot m])
      else let k = subProof_k n
           in if m \<le> k then
                (case subProof m k b of
                   Inl e \<Rightarrow> Inl e
                 | Inr out \<Rightarrow> (case rightChild (treeRoot n) n of
                                 Inl e \<Rightarrow> Inl e
                               | Inr r \<Rightarrow> Inr (out @ [r])))
              else
                (case leftChild (treeRoot n) of
                   Inl e \<Rightarrow> Inl e
                 | Inr l \<Rightarrow> (case subProof (m - k) (n - k) False of
                               Inl e \<Rightarrow> Inl e
                             | Inr out \<Rightarrow> Inr (l # map (\<lambda>x. x + 2 * k) out))))"
  by pat_completeness auto
termination
proof (relation "measure (\<lambda>(m, n, b). if m = n then 0 else unat n + 2)", goal_cases)
  case (2 m n b k)
  then have "unat m \<le> unat (subProof_k n)" by (simp add: unat_le_iff)
  show ?case
  proof (cases "n = 0")
    case True
    then have "k = 1" using 2 by (simp add: subProof_k_def log2_def)
    moreover have "m = 1" using 2 True \<open>k = 1\<close> by (simp add: unat_le_iff word_unat_eq_iff)
    ultimately show ?thesis using 2 by simp
  next
    case False
    then show ?thesis using 2 subProof_k_unat[of n] by simp
  qed
next
  case (3 m n b k l)
  then have "1 < unat n"
    using treeRoot_small[of n] leftChild_leaf by (cases "unat n \<le> 1") auto
  moreover from this have "n \<noteq> 0" by auto
  ultimately have "unat k < unat n" "0 < unat k"
    using subProof_k_unat[of n] 3 by auto
  then have "unat (n - k) < unat n" by (simp add: unat_sub_if' )
  then show ?case using 3 by simp
qed auto

declare subProof.simps [simp del]

definition consistencyProofNodes :: "u64 \<Rightarrow> u64 \<Rightarrow> logtree_error + u64 list" where
  "consistencyProofNodes m n = subProof m n True"

subsection \<open>The root calculator\<close>

type_synonym chain = "node option list"

text \<open>The carry loop of \<open>insert\<close> and the store after it.\<close>

function calc_carry :: "(bytes \<Rightarrow> hash) \<Rightarrow> nat \<Rightarrow> node \<Rightarrow> chain \<Rightarrow> chain" where
  "calc_carry sha i acc c =
     (if i < length c then
        (case c ! i of
           Some nd \<Rightarrow> calc_carry sha (Suc i) (treeHash sha nd acc) (c[i := None])
         | None \<Rightarrow> c[i := Some acc])
      else c @ [Some acc])"
  by pat_completeness auto
termination
  by (relation "measure (\<lambda>(sha, i, acc, c). length c - i)") auto

declare calc_carry.simps [simp del]

definition calc_insert :: "(bytes \<Rightarrow> hash) \<Rightarrow> nat \<Rightarrow> hash \<Rightarrow> chain \<Rightarrow> chain" where
  "calc_insert sha lvl v c =
     calc_carry sha lvl \<lparr>interior = (lvl \<noteq> 0), val = v\<rparr>
       (c @ replicate (lvl + 1 - length c) None)"

definition calc_root :: "(bytes \<Rightarrow> hash) \<Rightarrow> chain \<Rightarrow> logtree_error + hash" where
  "calc_root sha c =
     (if c = [] then Inl EmptyChain
      else case dropWhile (\<lambda>nd. nd = None) c of
             Some nd # rest \<Rightarrow>
               Inr (val (foldl (\<lambda>acc nd. case nd of None \<Rightarrow> acc | Some l \<Rightarrow> treeHash sha l acc)
                               nd rest))
           | _ \<Rightarrow> Inl MalformedChain)"

text \<open>A run of \<open>insert\<close> calls.\<close>

definition calc_run :: "(bytes \<Rightarrow> hash) \<Rightarrow> chain \<Rightarrow> (u64 \<times> hash) list \<Rightarrow> chain" where
  "calc_run sha c items = foldl (\<lambda>c (x, v). calc_insert sha (level x) v c) c items"

subsection \<open>Consistency\<close>

text \<open>
  The loop over \<open>path\<close>: it compares each path element with the proof's node list and
  inserts the proof hash, and its final \<open>next\<close> is the number of elements it consumed.
\<close>

fun path_loop :: "(bytes \<Rightarrow> hash) \<Rightarrow> u64 list \<Rightarrow> hash list \<Rightarrow> nat \<Rightarrow> u64 list \<Rightarrow> chain
    \<Rightarrow> logtree_error + chain" where
  "path_loop sha ids proof i [] c = Inr c"
| "path_loop sha ids proof i (e # es) c =
     (if i \<ge> length ids \<or> ids ! i \<noteq> e then Inl (PathMismatch i)
      else path_loop sha ids proof (Suc i) es (calc_insert sha (level e) (proof ! i) c))"

definition deriveRoot :: "(bytes \<Rightarrow> hash) \<Rightarrow> u64 \<Rightarrow> u64 \<Rightarrow> hash list \<Rightarrow> hash \<Rightarrow> logtree_error + hash" where
  "deriveRoot sha m n proof mRoot =
     (if m = 0 \<or> m \<ge> n then Inl (BadSizes m n)
      else case consistencyProofNodes m n of
        Inl e \<Rightarrow> Inl e
      | Inr ids \<Rightarrow>
          if length proof \<noteq> length ids then Inl (WrongProofLength (length proof) (length ids))
          else case fullSubtrees (treeRoot m) m [] of
            Inl e \<Rightarrow> Inl e
          | Inr path \<Rightarrow>
              if length path = 1 then
                calc_root sha (calc_run sha (calc_insert sha (level (treeRoot m)) mRoot [])
                                (zip ids proof))
              else case path_loop sha ids proof 0 path [] of
                Inl e \<Rightarrow> Inl e
              | Inr c \<Rightarrow>
                  (case calc_root sha c of
                     Inl e \<Rightarrow> Inl e
                   | Inr got \<Rightarrow>
                       if got \<noteq> mRoot then Inl (OldRootMismatch m)
                       else calc_root sha (calc_run sha c
                              (drop (length path) (zip ids proof)))))"

definition verifyConsistency ::
    "(bytes \<Rightarrow> hash) \<Rightarrow> u64 \<Rightarrow> u64 \<Rightarrow> hash list \<Rightarrow> hash \<Rightarrow> hash \<Rightarrow> logtree_error option" where
  "verifyConsistency sha m n proof mRoot nRoot =
     (case deriveRoot sha m n proof mRoot of
        Inl e \<Rightarrow> Some e
      | Inr got \<Rightarrow> if got \<noteq> nRoot then Some (DoesNotExtend m n) else None)"

subsection \<open>Nodes by level and index\<close>

text \<open>
  Node \<open>q\<close> of level \<open>j\<close>, which covers the leaves from \<open>q * 2 ^ j\<close> on, has number
  \<open>nid j q\<close>.
\<close>

definition nid :: "nat \<Rightarrow> nat \<Rightarrow> nat" where
  "nid j q = 2 ^ Suc j * q + (2 ^ j - 1)"

lemma nid_0: "nid 0 q = 2 * q" by (simp add: nid_def)

lemma bit_nid: "bit (nid j q) i \<longleftrightarrow> i < j \<or> (j < i \<and> bit q (i - Suc j))"
proof -
  have "nid j q = push_bit (Suc j) q OR mask j"
  proof -
    have "push_bit (Suc j) q AND mask j = 0"
      by (rule bit_eqI) (auto simp: bit_simps)
    then show ?thesis
      unfolding nid_def by (subst disjunctive_add_eq_or[symmetric])
        (auto simp: push_bit_eq_mult mask_eq_exp_minus_1 mult.commute)
  qed
  then show ?thesis
    by (simp only: bit_or_iff bit_mask_iff bit_push_bit_iff_nat Suc_le_eq) auto
qed

lemma bit_word_nid:
  "unat x = nid j q \<Longrightarrow> bit x i \<longleftrightarrow> i < j \<or> (j < i \<and> bit q (i - Suc j))" for x :: u64
proof -
  assume "unat x = nid j q"
  moreover have "bit (unat x) i = bit x i" by (simp add: bit_simps)
  ultimately show ?thesis using bit_nid[of j q i] by simp
qed

end
