(* ===== verification/Log_Nodes.thy ===== *)
theory Log_Nodes
  imports Log_Tree
begin

text \<open>
  The node arithmetic of \<open>Log_Tree\<close> read on natural numbers.  A block is a first leaf
  \<open>s\<close> and a level \<open>j\<close> with \<open>2 ^ j\<close> dividing \<open>s\<close>; its node number is \<open>nid_at s j\<close>.  Every
  word operation is shown to be the expected operation on blocks for trees of at most
  \<open>2 ^ 63\<close> leaves, the largest for which node numbers fit 64 bits.  The two node lists of
  a consistency proof are then described by recursive functions on blocks.
\<close>

definition nid_at :: "nat \<Rightarrow> nat \<Rightarrow> nat" where
  "nid_at s j = 2 * s + (2 ^ j - 1)"

lemma nid_at_nid: "nid_at (q * 2 ^ j) j = nid j q"
  by (simp add: nid_at_def nid_def mult_ac)

lemma nid_at_eq: "2 ^ j dvd s \<Longrightarrow> nid_at s j = nid j (s div 2 ^ j)"
  using nid_at_nid[of "s div 2 ^ j" j] by simp

lemma bit_div_pow: "bit (unat x) i = bit x i" for x :: u64
  by (simp add: bit_simps)

lemma level_at: "unat x = nid_at s j \<Longrightarrow> 2 ^ j dvd s \<Longrightarrow> level x = j"
proof -
  assume x: "unat x = nid_at s j" and d: "2 ^ j dvd s"
  then have b: "bit x i \<longleftrightarrow> i < j \<or> (j < i \<and> bit (s div 2 ^ j) (i - Suc j))" for i
    by (simp add: bit_word_nid nid_at_eq)
  have "(2::nat) ^ j < 2 ^ 64 + 1"
    using x unsigned_less[of x, where 'a = nat] by (simp add: nid_at_def)
  then have "(2::nat) ^ j < 2 ^ 65" by simp
  then have "j < 65" by (simp only: power_strict_increasing_iff one_less_numeral_iff semiring_norm)
  then show ?thesis unfolding level_alt
    by (intro length_takeWhile_upt) (auto simp: b)
qed

lemma nat_bit_eqI: "(\<And>i. bit a i \<longleftrightarrow> bit b i) \<Longrightarrow> a = b" for a b :: nat
  by (rule bit_eqI) auto

lemma bit_push_1: "i < 64 \<Longrightarrow> bit (push_bit i 1 :: u64) k \<longleftrightarrow> k = i"
  by (auto simp: bit_push_bit_iff bit_1_iff simp del: push_bit_of_1 dest: bit_imp_le_length)

lemma bit_push_3:
  assumes "Suc i < 64" shows "bit (push_bit i 3 :: u64) k \<longleftrightarrow> k = i \<or> k = Suc i"
proof -
  have "bit (push_bit i 3 :: u64) k \<longleftrightarrow> i \<le> k \<and> k < 64 \<and> (k - i = 0 \<or> k - i = 1)"
    unfolding bit_push_bit_iff bit_3 by auto
  then show ?thesis using assms by auto
qed

lemma leftStep_at:
  assumes x: "unat x = nid_at s j" and d: "2 ^ j dvd s" and j: "0 < j"
  shows "\<exists>y. leftStep x = Inr y \<and> unat y = nid_at s (j - 1)"
proof -
  obtain i where i: "j = Suc i" using j gr0_conv_Suc by blast
  define q where "q = s div 2 ^ j"
  have s: "s = q * 2 ^ j" using d by (simp add: q_def)
  have b: "bit x k \<longleftrightarrow> k < j \<or> (j < k \<and> bit q (k - Suc j))" for k
    using x by (simp add: bit_word_nid s nid_at_nid)
  have c: "bit (2 * q) k \<longleftrightarrow> 0 < k \<and> bit q (k - 1)" for k
    by (cases k) (auto simp: bit_Suc bit_0)
  let ?y = "x XOR push_bit i 1"
  have i64: "i < 64" using b[of i] i by (auto dest: bit_imp_le_length)
  have "unat ?y = nid i (2 * q)"
  proof (rule nat_bit_eqI)
    fix k
    show "bit (unat ?y) k \<longleftrightarrow> bit (nid i (2 * q)) k"
      unfolding bit_div_pow bit_nid c
      by (auto simp: bit_xor_iff bit_push_1[OF i64] b i Suc_diff_Suc simp del: push_bit_of_1
          dest: bit_imp_le_length)
  qed
  moreover have "nid_at s i = nid i (2 * q)"
    using nid_at_nid[of "2 * q" i] by (simp add: s i mult_ac)
  ultimately show ?thesis
    using level_at[OF x d] by (simp add: leftStep_def Let_def i)
qed

lemma rightStep_at:
  assumes x: "unat x = nid_at s j" and d: "2 ^ j dvd s" and j: "0 < j" "j < 64"
  shows "\<exists>y. rightStep x = Inr y \<and> unat y = nid_at (s + 2 ^ (j - 1)) (j - 1)"
proof -
  obtain i where i: "j = Suc i" using j gr0_conv_Suc by blast
  define q where "q = s div 2 ^ j"
  have s: "s = q * 2 ^ j" using d by (simp add: q_def)
  have b: "bit x k \<longleftrightarrow> k < j \<or> (j < k \<and> bit q (k - Suc j))" for k
    using x by (simp add: bit_word_nid s nid_at_nid)
  have c: "bit (2 * q + 1) k \<longleftrightarrow> k = 0 \<or> 0 < k \<and> bit q (k - 1)" for k
    by (cases k) (auto simp: bit_Suc bit_0)
  let ?y = "x XOR push_bit i 3"
  have "unat ?y = nid i (2 * q + 1)"
  proof (rule nat_bit_eqI)
    fix k
    show "bit (unat ?y) k \<longleftrightarrow> bit (nid i (2 * q + 1)) k"
      unfolding bit_div_pow bit_nid c using j i
      by (auto simp: bit_xor_iff bit_push_3 b)
  qed
  moreover have "nid_at (s + 2 ^ i) i = nid i (2 * q + 1)"
    using nid_at_nid[of "2 * q + 1" i] by (simp add: s i algebra_simps)
  ultimately show ?thesis
    using level_at[OF x d] by (simp add: rightStep_def Let_def i)
qed

subsection \<open>Trees of at most \<open>2 ^ 63\<close> leaves\<close>

lemma nodeWidth_at:
  "0 < unat n \<Longrightarrow> unat n \<le> 2 ^ 63 \<Longrightarrow> unat (nodeWidth n) = 2 * unat n - 1"
proof -
  assume n: "0 < unat n" "unat n \<le> 2 ^ 63"
  then have "n \<noteq> 0" by auto
  moreover have m: "unat (n - 1) = unat n - 1"
    using n by (subst unat_minus_one) auto
  have "unat (2 * (n - 1)) = 2 * (unat n - 1)"
    using n by (subst unat_mult_lem[THEN iffD1]) (auto simp: m)
  moreover from this have "unat (2 * (n - 1) + 1) = 2 * (unat n - 1) + 1"
    using n by (subst unat_add_lem[THEN iffD1]) auto
  ultimately show ?thesis using n by (simp add: nodeWidth_def)
qed

lemma log2_unique: "2 ^ k \<le> unat w \<Longrightarrow> unat w < 2 ^ Suc k \<Longrightarrow> log2 w = k"
  using bit_len_unique[of k "unat w"] by (auto simp: log2_def Len64_def)

lemma clog_le_63: "n \<le> 2 ^ 63 \<Longrightarrow> clog n \<le> 63"
  by (rule clog_le)

lemma clog_bounds: "0 < n \<Longrightarrow> n \<le> 2 ^ clog n \<and> 2 ^ clog n < 2 * n"
proof -
  assume "0 < n"
  show ?thesis
  proof (cases "n = 1")
    case False
    with \<open>0 < n\<close> have "1 < n" by simp
    from clog_lower[OF this] clog_pos[OF this] obtain c where "clog n = Suc c" "2 ^ c < n"
      by (cases "clog n") auto
    then show ?thesis using clog_upper[of n] by simp
  qed simp
qed

lemma unat_pow2_minus: "k < 64 \<Longrightarrow> unat (push_bit k 1 - 1 :: u64) = 2 ^ k - 1"
proof -
  assume k: "k < 64"
  have u: "unat (push_bit k 1 :: u64) = 2 ^ k" by (rule unat_pow2[OF k])
  then have "(push_bit k 1 :: u64) \<noteq> 0"
    by (metis unat_0 power_eq_0_iff zero_neq_numeral)
  then show ?thesis by (metis u unat_minus_one)
qed

lemma treeRoot_at:
  assumes "0 < unat n" "unat n \<le> 2 ^ 63"
  shows "unat (treeRoot n) = nid_at 0 (clog (unat n))"
proof -
  have "log2 (nodeWidth n) = clog (unat n)"
    by (rule log2_unique) (use clog_bounds[of "unat n"] assms in \<open>auto simp: nodeWidth_at\<close>)
  then show ?thesis
    using clog_le_63[OF assms(2)] by (simp add: treeRoot_def unat_pow2_minus nid_at_def del: push_bit_of_1)
qed

lemma subProof_k_at:
  assumes "1 < unat n"
  shows "unat (subProof_k n) = 2 ^ (clog (unat n) - 1)"
proof -
  have n: "n \<noteq> 0" using assms by auto
  have b: "2 ^ log2 n \<le> unat n \<and> unat n < 2 ^ Suc (log2 n)" by (rule log2_bounds[OF n])
  have k: "unat (push_bit (log2 n) 1 :: u64) = 2 ^ log2 n" by (rule unat_pow2[OF log2_less])
  show ?thesis
  proof (cases "push_bit (log2 n) 1 = n")
    case True
    then have u: "unat n = 2 ^ log2 n" using k by simp
    then have c: "clog (unat n) = log2 n" by simp
    have "log2 n \<noteq> 0" using u assms by (metis power_0 less_irrefl)
    then have "unat n div 2 = 2 ^ (log2 n - 1)" using u by (cases "log2 n") auto
    then show ?thesis using True c by (simp add: subProof_k_def Let_def unat_div_distrib)
  next
    case False
    then have "2 ^ log2 n < unat n" using b k by (metis le_neq_implies_less word_unat_eq_iff)
    then have "clog (unat n) = Suc (log2 n)" by (intro clog_unique) (use b in auto)
    then show ?thesis using False k by (simp add: subProof_k_def Let_def)
  qed
qed

lemma slide_left_at:
  "unat r = nid_at s j \<Longrightarrow> 2 ^ j dvd s \<Longrightarrow> s < n \<Longrightarrow> unat w = 2 * n - 1 \<Longrightarrow>
   \<exists>y. slide_left r w = Inr y \<and> unat y = nid_at s (min j (clog (n - s)))"
proof (induction j arbitrary: r)
  case 0
  then have "\<not> r \<ge> w" by (simp add: unat_le_iff nid_at_def)
  then show ?case using 0 by (subst slide_left.simps) simp
next
  case (Suc i)
  have ge: "r \<ge> w \<longleftrightarrow> n - s \<le> 2 ^ i"
    using Suc.prems by (auto simp: unat_le_iff nid_at_def)
  show ?case
  proof (cases "r \<ge> w")
    case True
    obtain y where y: "leftStep r = Inr y" "unat y = nid_at s i"
      using leftStep_at[OF Suc.prems(1,2)] by auto
    have "2 ^ i dvd s" using Suc.prems(2) by (auto intro: dvd_trans[of _ "2 ^ Suc i"])
    then obtain z where z: "slide_left y w = Inr z" "unat z = nid_at s (min i (clog (n - s)))"
      using Suc.IH[OF y(2)] Suc.prems by auto
    moreover have "clog (n - s) \<le> i" using True ge by (simp add: clog_le)
    ultimately show ?thesis using True y(1) by (subst slide_left.simps) simp
  next
    case False
    then have "2 ^ i < n - s" using ge by simp
    then have "\<not> clog (n - s) \<le> i"
      using clog_upper[of "n - s"] power_increasing[of "clog (n - s)" i "2::nat"] by linarith
    then show ?thesis using False Suc.prems(1) by (subst slide_left.simps) (simp add: min_def)
  qed
qed

lemma rightChild_at:
  assumes "unat x = nid_at s (Suc i)" "2 ^ Suc i dvd s" "Suc i < 64"
    and "s + 2 ^ i < unat n" "unat n \<le> 2 ^ 63"
  shows "\<exists>y. rightChild x n = Inr y \<and>
    unat y = nid_at (s + 2 ^ i) (min i (clog (unat n - (s + 2 ^ i))))"
proof -
  obtain r where r: "rightStep x = Inr r" "unat r = nid_at (s + 2 ^ i) i"
    using rightStep_at[OF assms(1,2)] assms(3) by auto
  have "2 ^ i dvd s + 2 ^ i" using assms(2) by (auto intro: dvd_trans[of _ "2 ^ Suc i"])
  from slide_left_at[OF r(2) this assms(4) nodeWidth_at] assms r(1) show ?thesis
    by (simp add: rightChild_def)
qed

lemma pow_dvd_add_le:
  assumes "(2::nat) ^ j dvd s" "s < 2 ^ K" "j \<le> K" shows "s + 2 ^ j \<le> 2 ^ K"
proof -
  obtain q where q: "s = 2 ^ j * q" using assms(1) by auto
  have K: "(2::nat) ^ K = 2 ^ j * 2 ^ (K - j)" using assms(3) by (simp flip: power_add)
  then have "q < 2 ^ (K - j)" using assms(2) q by auto
  then have "2 ^ j * Suc q \<le> 2 ^ j * (2::nat) ^ (K - j)" by (intro mult_left_mono) auto
  then show ?thesis using K q by simp
qed

lemma isFullSubtree_at:
  assumes x: "unat x = nid_at s j" "2 ^ j dvd s" and j: "j < 64"
    and n: "s < unat n" "unat n \<le> 2 ^ 63"
  shows "isFullSubtree x n \<longleftrightarrow> s + 2 ^ j \<le> unat n"
proof -
  have le: "s + 2 ^ j \<le> 2 ^ 63" by (rule pow_dvd_add_le) (use assms in auto)
  have p: "(0::nat) < 2 ^ j" by simp
  have u: "unat (push_bit j 1 :: u64) = 2 ^ j" by (rule unat_pow2[OF j])
  have a: "unat (x + push_bit j 1) = nid_at s j + 2 ^ j"
  proof -
    have "nid_at s j + 2 ^ j < 2 ^ 64" using le p by (simp add: nid_at_def)
    then have "unat x + unat (push_bit j 1 :: u64) < 2 ^ 64" by (simp only: x u)
    then show ?thesis using x u by (simp only: unat_word_ariths(1)) simp
  qed
  then have "x + push_bit j 1 \<noteq> 0" using p by (metis add_is_0 less_irrefl unat_0)
  then have a1: "unat (x + push_bit j 1 - 1) = nid_at s j + 2 ^ j - 1"
    using a by (metis unat_minus_one)
  have m: "unat (n - 1) = unat n - 1" using n by (subst unat_minus_one) auto
  have w: "unat (2 * (n - 1)) = 2 * (unat n - 1)"
    using n by (subst unat_mult_lem[THEN iffD1]) (auto simp: m)
  show ?thesis
    unfolding isFullSubtree_def level_at[OF x] unat_le_iff a1 w
    using n p by (auto simp: nid_at_def)
qed

subsection \<open>The node lists on blocks\<close>

type_synonym block = "nat \<times> nat"

text \<open>The decomposition of the leaves \<open>s\<close> up to \<open>m\<close> into full blocks, largest first.\<close>

function full_blocks :: "nat \<Rightarrow> nat \<Rightarrow> block list" where
  "full_blocks s m =
     (let j = clog (m - s)
      in if m \<le> s then []
         else if m - s = 2 ^ j then [(s, j)]
         else (s, j - 1) # full_blocks (s + 2 ^ (j - 1)) m)"
  by pat_completeness auto
termination by (relation "measure (\<lambda>(s, m). m - s)") (auto intro!: diff_less_mono2)

declare full_blocks.simps [simp del]

text \<open>The blocks of a consistency proof from \<open>m\<close> to \<open>n\<close> leaves.\<close>

function sub_blocks :: "nat \<Rightarrow> nat \<Rightarrow> bool \<Rightarrow> block list" where
  "sub_blocks m n b =
     (if m = 0 \<or> n \<le> m then (if b then [] else [(0, clog m)])
      else let K = clog n - 1; k = 2 ^ K
           in if m \<le> k then sub_blocks m k b @ [(k, clog (n - k))]
              else (0, K) # map (\<lambda>(s, j). (s + k, j)) (sub_blocks (m - k) (n - k) False))"
  by pat_completeness auto
termination
  by (relation "measure (\<lambda>(m, n, b). n)") (auto simp: clog_lower[simplified])

declare sub_blocks.simps [simp del]

definition is_pow2 :: "nat \<Rightarrow> bool" where
  "is_pow2 m \<longleftrightarrow> m = 2 ^ clog m"

lemma is_pow2_pow [simp]: "is_pow2 (2 ^ j)"
  by (simp add: is_pow2_def)

text \<open>
  A list of blocks tiles the leaves from \<open>a\<close> to \<open>n\<close>: each starts where the one before
  ended, and all are full but for the last, which may be cut off by the tree's end.
\<close>

fun tiles :: "nat \<Rightarrow> nat \<Rightarrow> block list \<Rightarrow> bool" where
  "tiles n a [] \<longleftrightarrow> a = n"
| "tiles n a ((s, j) # bs) \<longleftrightarrow>
     s = a \<and> 2 ^ j dvd a \<and> a < n \<and> j = clog (min (2 ^ j) (n - a)) \<and> tiles n (min n (a + 2 ^ j)) bs"

lemma full_blocks_Nil [simp]: "m \<le> s \<Longrightarrow> full_blocks s m = []"
  by (simp add: full_blocks.simps)

lemma full_blocks_pow2: "full_blocks s (s + 2 ^ j) = [(s, j)]"
  by (subst full_blocks.simps) simp

lemma full_blocks_step:
  assumes "0 < K" "2 ^ (K - 1) < m - s" "m - s < 2 ^ K"
  shows "full_blocks s m = (s, K - 1) # full_blocks (s + 2 ^ (K - 1)) m"
proof -
  have "clog (m - s) = K" by (rule clog_unique) (use assms in auto)
  then show ?thesis using assms by (subst full_blocks.simps) simp
qed

lemma full_blocks_shift: "full_blocks (s + k) (m + k) = map (\<lambda>(s, j). (s + k, j)) (full_blocks s m)"
proof (induction s m rule: full_blocks.induct)
  case (1 s m)
  define j where "j = clog (m - s)"
  show ?case
  proof (cases "m \<le> s")
    case False
    show ?thesis
    proof (cases "m - s = 2 ^ j")
      case True
      with False show ?thesis
        by (subst (1 2) full_blocks.simps) (simp add: j_def[symmetric])
    next
      case n: False
      have "full_blocks (s + 2 ^ (j - 1) + k) (m + k) =
          map (\<lambda>(s, j). (s + k, j)) (full_blocks (s + 2 ^ (j - 1)) m)"
        by (rule "1.IH"[OF j_def False n])
      moreover have e: "s + k + 2 ^ (j - 1) = s + 2 ^ (j - 1) + k" by simp
      moreover have "full_blocks (s + k) (m + k) = (s + k, j - 1) # full_blocks (s + 2 ^ (j - 1) + k) (m + k)"
        unfolding e[symmetric] using False n by (subst full_blocks.simps) (simp add: j_def Let_def)
      moreover have "full_blocks s m = (s, j - 1) # full_blocks (s + 2 ^ (j - 1)) m"
        using False n by (subst full_blocks.simps) (simp add: j_def Let_def)
      ultimately show ?thesis by simp
    qed
  qed simp
qed

lemma full_blocks_tiles:
  "s \<le> m \<Longrightarrow> m \<le> n \<Longrightarrow> 2 ^ clog (m - s) dvd s \<Longrightarrow> tiles n m bs \<Longrightarrow>
   tiles n s (full_blocks s m @ bs)"
proof (induction s m rule: full_blocks.induct)
  case (1 s m)
  define j where "j = clog (m - s)"
  show ?case
  proof (cases "m \<le> s")
    case True
    then show ?thesis using "1.prems" by simp
  next
    case lt: False
    show ?thesis
    proof (cases "m - s = 2 ^ j")
      case True
      then have "m = s + 2 ^ j" using lt by simp
      moreover have sn: "s < n" using lt "1.prems"(2) by simp
      moreover from calculation have "min (2 ^ j) (n - s) = 2 ^ j" "min n (s + 2 ^ j) = m"
        using "1.prems"(2) by auto
      ultimately have "tiles n s ((s, j) # bs)" using "1.prems" sn
        by (simp only: tiles.simps) (simp add: \<open>m = s + 2 ^ j\<close>)
      then show ?thesis by (simp only: \<open>m = s + 2 ^ j\<close> full_blocks_pow2 append.simps)
    next
      case False
      have ds: "2 ^ j dvd s" using "1.prems"(3) by (simp add: j_def)
      have "1 < m - s" using False lt by (cases "m - s = 1") (auto simp: j_def)
      then obtain i where i: "j = Suc i" "2 ^ i < m - s"
        using clog_lower[of "m - s"] clog_pos[of "m - s"] gr0_conv_Suc by (auto simp: j_def)
      have up: "m - s \<le> 2 ^ j" using clog_upper[of "m - s"] by (simp add: j_def)
      have c: "clog (m - (s + 2 ^ i)) \<le> i" by (rule clog_le) (use up i in simp)
      have di: "2 ^ i dvd s + 2 ^ i" using ds i by (auto intro: dvd_trans[of _ "2 ^ Suc i"])
      then have d: "2 ^ clog (m - (s + 2 ^ (j - 1))) dvd s + 2 ^ (j - 1)"
        using c i by (auto intro: dvd_trans[OF le_imp_power_dvd])
      have "tiles n (s + 2 ^ (j - 1)) (full_blocks (s + 2 ^ (j - 1)) m @ bs)"
        by (rule "1.IH"[OF j_def lt False]) (use i "1.prems" d in auto)
      moreover have "full_blocks s m = (s, i) # full_blocks (s + 2 ^ i) m"
        using lt False i by (subst full_blocks.simps) (simp add: j_def[symmetric] Let_def)
      moreover have "2 ^ i dvd s" using ds i by (auto intro: dvd_trans[of _ "2 ^ Suc i"])
      moreover have "min (2 ^ i) (n - s) = 2 ^ i" "min n (s + 2 ^ i) = s + 2 ^ i" "s < n"
        using i(2) "1.prems"(2) lt by auto
      ultimately show ?thesis by (simp add: i(1))
    qed
  qed
qed

lemma tiles_le: "tiles n a bs \<Longrightarrow> a \<le> n"
  by (induction bs arbitrary: a) (auto split: prod.splits)

text \<open>Blocks inside an aligned left part stay blocks of the larger tree.\<close>

lemma tiles_append:
  "tiles (2 ^ K) a bs \<Longrightarrow> 2 ^ K \<le> n \<Longrightarrow> tiles n (2 ^ K) cs \<Longrightarrow> tiles n a (bs @ cs)"
proof (induction bs arbitrary: a)
  case (Cons b bs)
  obtain s j where b: "b = (s, j)" by (cases b)
  have t: "s = a" "2 ^ j dvd a" "a < 2 ^ K" "j = clog (min (2 ^ j) (2 ^ K - a))"
    "tiles (2 ^ K) (min (2 ^ K) (a + 2 ^ j)) bs" using Cons.prems(1) b by auto
  have "j \<le> K" by (subst t(4)) (rule clog_le, simp)
  then have le: "a + 2 ^ j \<le> 2 ^ K" by (rule pow_dvd_add_le[OF t(2,3)])
  then have m: "min (2 ^ j) (n - a) = 2 ^ j" "min n (a + 2 ^ j) = a + 2 ^ j"
    "min (2 ^ K) (a + 2 ^ j) = a + 2 ^ j"
    using Cons.prems(2) by auto
  have "tiles n (a + 2 ^ j) (bs @ cs)"
    using Cons.IH[OF _ Cons.prems(2,3)] t(5) m(3) by simp
  then show ?case using t(1,2,3) m Cons.prems(2) by (simp add: b)
qed simp

lemma tiles_shift:
  "tiles r a bs \<Longrightarrow> r \<le> 2 ^ K \<Longrightarrow>
   tiles (r + 2 ^ K) (a + 2 ^ K) (map (\<lambda>(s, j). (s + 2 ^ K, j)) bs)"
proof (induction bs arbitrary: a)
  case (Cons b bs)
  obtain s j where b: "b = (s, j)" by (cases b)
  have t: "s = a" "2 ^ j dvd a" "a < r" "j = clog (min (2 ^ j) (r - a))"
    "tiles r (min r (a + 2 ^ j)) bs" using Cons.prems(1) b by auto
  have "j \<le> K" by (subst t(4)) (rule clog_le, use Cons.prems(2) in simp)
  then have "(2::nat) ^ j dvd 2 ^ K" by (rule le_imp_power_dvd)
  then have "2 ^ j dvd a + 2 ^ K" using t(2) by simp
  moreover have "min (r + 2 ^ K) (a + 2 ^ K + 2 ^ j) = min r (a + 2 ^ j) + 2 ^ K" by simp
  ultimately show ?case using Cons.IH[OF t(5) Cons.prems(2)] t by (simp add: b)
qed simp

lemma tiles_root: "0 < n \<Longrightarrow> tiles n 0 [(0, clog n)]"
  using clog_upper[of n] by (auto simp: min_def)

lemma tiles_last:
  assumes "2 ^ K < n" "n \<le> 2 ^ Suc K"
  shows "tiles n (2 ^ K) [(2 ^ K, clog (n - 2 ^ K))]"
proof -
  have "clog (n - 2 ^ K) \<le> K" by (rule clog_le) (use assms in simp)
  then have "2 ^ clog (n - 2 ^ K) dvd (2::nat) ^ K" by (rule le_imp_power_dvd)
  then show ?thesis using assms clog_upper[of "n - 2 ^ K"] by (auto simp: min_def)
qed

lemma sub_blocks_stop [simp]: "n \<le> m \<Longrightarrow> sub_blocks m n b = (if b then [] else [(0, clog m)])"
  by (simp add: sub_blocks.simps)

lemma sub_blocks_step:
  assumes "0 < m" "m < n" "K = clog n - 1"
  shows "sub_blocks m n b =
    (if m \<le> 2 ^ K then sub_blocks m (2 ^ K) b @ [(2 ^ K, clog (n - 2 ^ K))]
     else (0, K) # map (\<lambda>(s, j). (s + 2 ^ K, j)) (sub_blocks (m - 2 ^ K) (n - 2 ^ K) False))"
  using assms by (subst sub_blocks.simps) (simp add: Let_def)

lemma clog_split:
  assumes "1 < n" "K = clog n - 1" shows "2 ^ K < n" "n \<le> 2 ^ Suc K"
proof -
  obtain c where "clog n = Suc c" using clog_pos[OF assms(1)] gr0_conv_Suc by blast
  then show "2 ^ K < n" "n \<le> 2 ^ Suc K"
    using clog_lower[OF assms(1)] clog_upper[of n] assms(2) by simp_all
qed

text \<open>
  From a size that is a power of two the proof describes only the extension; from any
  other size it starts with the full blocks of the old tree.
\<close>

lemma sub_blocks_pow2:
  "2 ^ j \<le> n \<Longrightarrow> tiles n (2 ^ j) (sub_blocks (2 ^ j) n True)"
proof (induction n rule: less_induct)
  case (less n)
  show ?case
  proof (cases "n = 2 ^ j")
    case False
    then have n: "2 ^ j < n" using less.prems by simp
    define K where "K = clog n - 1"
    have "(1::nat) \<le> 2 ^ j" by simp
    then have "1 < n" using n by linarith
    note k = clog_split[OF this K_def]
    have "(2::nat) ^ j < 2 ^ Suc K" using n k by linarith
    then have "j \<le> K" by (simp only: power_strict_increasing_iff one_less_numeral_iff semiring_norm less_Suc_eq_le)
    then have jk: "(2::nat) ^ j \<le> 2 ^ K" by simp
    have "tiles (2 ^ K) (2 ^ j) (sub_blocks (2 ^ j) (2 ^ K) True)" by (rule less.IH[OF k(1) jk])
    then have "tiles n (2 ^ j) (sub_blocks (2 ^ j) (2 ^ K) True @ [(2 ^ K, clog (n - 2 ^ K))])"
      by (rule tiles_append) (use k tiles_last in auto)
    then show ?thesis using sub_blocks_step[OF _ n K_def] jk by simp
  qed simp
qed

lemma full_blocks_split:
  assumes "2 ^ K < m" "m < 2 ^ Suc K"
  shows "full_blocks 0 m = (0, K) # map (\<lambda>(s, j). (s + 2 ^ K, j)) (full_blocks 0 (m - 2 ^ K))"
  using full_blocks_step[of "Suc K" m 0] full_blocks_shift[of 0 "2 ^ K" "m - 2 ^ K"] assms
  by simp

lemma sub_blocks_other:
  "0 < m \<Longrightarrow> (if b then m < n \<and> \<not> is_pow2 m else m < n \<or> (m = n \<and> is_pow2 m)) \<Longrightarrow>
   \<exists>B. sub_blocks m n b = full_blocks 0 m @ B \<and> tiles n m B"
proof (induction m n b rule: sub_blocks.induct)
  case (1 m n b)
  show ?case
  proof (cases "m < n")
    case False
    then have "\<not> b" "m = n" "is_pow2 m" using "1.prems" by (auto split: if_splits)
    moreover from this have "full_blocks 0 m = [(0, clog m)]"
      using full_blocks_pow2[of 0 "clog m"] by (simp add: is_pow2_def)
    ultimately show ?thesis by simp
  next
    case mn: True
    define K where "K = clog n - 1"
    have "1 < n" using mn "1.prems"(1) by simp
    note k = clog_split[OF this K_def]
    note step = sub_blocks_step[OF "1.prems"(1) mn K_def, of b]
    have guard: "\<not> (m = 0 \<or> n \<le> m)" using mn "1.prems" by simp
    show ?thesis
    proof (cases "m \<le> 2 ^ K")
      case True
      have "m = 2 ^ K \<longrightarrow> is_pow2 m" by simp
      then have "if b then m < 2 ^ K \<and> \<not> is_pow2 m else m < 2 ^ K \<or> (m = 2 ^ K \<and> is_pow2 m)"
        using True "1.prems"(2) by (cases "m = 2 ^ K") (auto split: if_splits)
      from "1.IH"(1)[OF guard K_def refl True "1.prems"(1) this]
      obtain B where B: "sub_blocks m (2 ^ K) b = full_blocks 0 m @ B" "tiles (2 ^ K) m B" by auto
      have "tiles n m (B @ [(2 ^ K, clog (n - 2 ^ K))])"
        by (rule tiles_append[OF B(2)]) (use k tiles_last in auto)
      then show ?thesis using step True B by auto
    next
      case False
      have lt: "m - 2 ^ K < n - 2 ^ K" "0 < m - 2 ^ K" using False mn by auto
      from "1.IH"(2)[OF guard K_def refl False] lt
      obtain B where B: "sub_blocks (m - 2 ^ K) (n - 2 ^ K) False = full_blocks 0 (m - 2 ^ K) @ B"
        "tiles (n - 2 ^ K) (m - 2 ^ K) B" by auto
      have t: "tiles (n - 2 ^ K + 2 ^ K) (m - 2 ^ K + 2 ^ K) (map (\<lambda>(s, j). (s + 2 ^ K, j)) B)"
        by (rule tiles_shift[OF B(2)]) (use k in simp)
      have e: "n - 2 ^ K + 2 ^ K = n" "m - 2 ^ K + 2 ^ K = m" using k False by auto
      have f: "full_blocks 0 m = (0, K) # map (\<lambda>(s, j). (s + 2 ^ K, j)) (full_blocks 0 (m - 2 ^ K))"
        by (rule full_blocks_split) (use False mn k in auto)
      have "sub_blocks m n b = full_blocks 0 m @ map (\<lambda>(s, j). (s + 2 ^ K, j)) B"
        using step False B(1) f by simp
      then show ?thesis using t unfolding e by blast
    qed
  qed
qed

subsection \<open>The source's lists are these blocks\<close>

definition blk_id :: "block \<Rightarrow> nat" where
  "blk_id = (\<lambda>(s, j). nid_at s j)"

lemma fullSubtrees_at:
  "unat x = nid_at s (clog (unat m - s)) \<Longrightarrow> 2 ^ clog (unat m - s) dvd s \<Longrightarrow>
   s < unat m \<Longrightarrow> unat m \<le> 2 ^ 63 \<Longrightarrow>
   \<exists>xs. fullSubtrees x m out = Inr (out @ xs) \<and> map unat xs = map blk_id (full_blocks s (unat m))"
proof (induction "clog (unat m - s)" arbitrary: x s out rule: less_induct)
  case less
  define j where "j = clog (unat m - s)"
  have x: "unat x = nid_at s j" "2 ^ j dvd s" using less.prems by (simp_all add: j_def)
  have up: "unat m - s \<le> 2 ^ j" using clog_upper by (simp add: j_def)
  have "unat m - s \<le> 2 ^ 63" using less.prems(4) by simp
  then have j64: "j < 64" using clog_le_63[of "unat m - s"] by (simp add: j_def)
  have full: "isFullSubtree x m \<longleftrightarrow> s + 2 ^ j \<le> unat m"
    by (rule isFullSubtree_at[OF x j64 less.prems(3,4)])
  show ?case
  proof (cases "unat m - s = 2 ^ j")
    case True
    then have "full_blocks s (unat m) = [(s, j)]"
      using full_blocks_pow2[of s j] less.prems(3) by (metis le_add_diff_inverse less_imp_le)
    moreover have "isFullSubtree x m" using True full less.prems(3) by simp
    ultimately show ?thesis using x
      by (subst fullSubtrees.simps) (simp add: blk_id_def)
  next
    case False
    have "1 < unat m - s" using False less.prems(3) by (cases "unat m - s = 1") (auto simp: j_def)
    then obtain i where i: "j = Suc i" "2 ^ i < unat m - s"
      using clog_lower[of "unat m - s"] clog_pos[of "unat m - s"] gr0_conv_Suc
      by (auto simp: j_def)
    have sm: "s + 2 ^ i < unat m" using i(2) by simp
    have nf: "\<not> isFullSubtree x m" using full False up less.prems(3) by auto
    obtain l where l: "leftChild x = Inr l" "unat l = nid_at s i"
      using leftStep_at[OF x] i by (auto simp: leftChild_def)
    have c: "clog (unat m - (s + 2 ^ i)) \<le> i" by (rule clog_le) (use up i in simp)
    obtain r where r: "rightChild x m = Inr r"
      "unat r = nid_at (s + 2 ^ i) (clog (unat m - (s + 2 ^ i)))"
    proof -
      have "min i (clog (unat m - (s + 2 ^ i))) = clog (unat m - (s + 2 ^ i))"
        using c by simp
      then show thesis
        using rightChild_at[of x s i m] x i(1) j64 less.prems(4) that sm by auto
    qed
    have "2 ^ i dvd s + 2 ^ i" using x(2) i by (auto intro: dvd_trans[of _ "2 ^ Suc i"])
    then have d: "2 ^ clog (unat m - (s + 2 ^ i)) dvd s + 2 ^ i"
      using c by (auto intro: dvd_trans[OF le_imp_power_dvd])
    have "clog (unat m - (s + 2 ^ i)) < clog (unat m - s)" using c i by (simp add: j_def)
    from less.hyps[OF this r(2) d sm less.prems(4), of "out @ [l]"]
    obtain xs where xs: "fullSubtrees r m (out @ [l]) = Inr ((out @ [l]) @ xs)"
      "map unat xs = map blk_id (full_blocks (s + 2 ^ i) (unat m))" by auto
    have "full_blocks s (unat m) = (s, i) # full_blocks (s + 2 ^ i) (unat m)"
      using False i less.prems(3) by (subst full_blocks.simps) (simp add: j_def[symmetric] Let_def)
    then have "map unat (l # xs) = map blk_id (full_blocks s (unat m))"
      using xs(2) l(2) by (simp add: blk_id_def)
    moreover have "fullSubtrees x m out = Inr (out @ l # xs)"
      using nf l r xs(1) by (subst fullSubtrees.simps) simp
    ultimately show ?thesis by blast
  qed
qed

lemma fullSubtrees_root:
  assumes "0 < unat m" "unat m \<le> 2 ^ 63"
  shows "\<exists>xs. fullSubtrees (treeRoot m) m [] = Inr xs \<and>
    map unat xs = map blk_id (full_blocks 0 (unat m))"
  using fullSubtrees_at[of "treeRoot m" 0 m "[]"] treeRoot_at[OF assms] assms by simp

lemma unat_add_small: "unat x + unat y < 2 ^ 64 \<Longrightarrow> unat (x + y) = unat x + unat y" for x y :: u64
  by (simp only: unat_word_ariths(1)) simp

lemma blk_id_shift: "blk_id (s + k, j) = blk_id (s, j) + 2 * k"
proof -
  obtain t where "(2::nat) ^ j = Suc t" by (cases "(2::nat) ^ j") auto
  then show ?thesis by (simp add: blk_id_def nid_at_def)
qed

lemma tiles_blk_id: "tiles n a bs \<Longrightarrow> b \<in> set bs \<Longrightarrow> blk_id b < 2 * n"
proof (induction bs arbitrary: a)
  case (Cons c bs)
  obtain s j where c: "c = (s, j)" by (cases c)
  have t: "s = a" "a < n" "j = clog (min (2 ^ j) (n - a))" "tiles n (min n (a + 2 ^ j)) bs"
    using Cons.prems(1) c by auto
  have "j \<le> clog (n - a)" by (subst t(3)) (metis clog_le clog_upper min.cobounded2 order_trans)
  then have "(2::nat) ^ j \<le> 2 ^ clog (n - a)" by simp
  then have "2 ^ j < 2 * (n - a)" using clog_bounds[of "n - a"] t(2) by linarith
  then have "blk_id c < 2 * n" using t by (simp add: c blk_id_def nid_at_def)
  then show ?case using Cons.IH[OF t(4)] Cons.prems(2) by auto
qed simp

lemma sub_blocks_id_less:
  "0 < m \<Longrightarrow> m < n \<or> (m = n \<and> is_pow2 m) \<Longrightarrow> b \<in> set (sub_blocks m n False) \<Longrightarrow> blk_id b < 2 * n"
proof -
  assume m: "0 < m" "m < n \<or> (m = n \<and> is_pow2 m)" "b \<in> set (sub_blocks m n False)"
  obtain B where "sub_blocks m n False = full_blocks 0 m @ B" "tiles n m B"
    using sub_blocks_other[of m False n] m by auto
  then have "tiles n 0 (sub_blocks m n False)"
    using full_blocks_tiles[of 0 m n B] m by auto
  from tiles_blk_id[OF this m(3)] show ?thesis .
qed

lemma subProof_at:
  "0 < unat m \<Longrightarrow> unat m < unat n \<or> (m = n \<and> is_pow2 (unat m)) \<Longrightarrow> unat n \<le> 2 ^ 63 \<Longrightarrow>
   \<exists>xs. subProof m n b = Inr xs \<and> map unat xs = map blk_id (sub_blocks (unat m) (unat n) b)"
proof (induction m n b rule: subProof.induct)
  case (1 m n b)
  show ?case
  proof (cases "m = n")
    case True
    then show ?thesis using "1.prems" treeRoot_at[of m]
      by (subst subProof.simps) (auto simp: blk_id_def)
  next
    case False
    then have mn: "unat m < unat n" using "1.prems"(2) by simp
    define k where "k = subProof_k n"
    define K where "K = clog (unat n) - 1"
    have n1: "1 < unat n" using mn "1.prems"(1) by linarith
    have k: "unat k = 2 ^ K" using subProof_k_at[OF n1] by (simp add: k_def K_def)
    note cs = clog_split[OF n1 K_def]
    have cn: "clog (unat n) = Suc K" using clog_pos[OF n1] by (simp add: K_def)
    have root: "unat (treeRoot n) = nid_at 0 (Suc K)"
      using treeRoot_at[OF _ "1.prems"(3)] n1 cn by simp
    have K63: "Suc K < 64" using clog_le_63[OF "1.prems"(3)] cn by simp
    note step = sub_blocks_step[OF "1.prems"(1) mn K_def, of b]
    show ?thesis
    proof (cases "m \<le> k")
      case True
      then have mk: "unat m \<le> 2 ^ K" using k by (simp add: unat_le_iff)
      have "unat m < unat k \<or> (m = k \<and> is_pow2 (unat m))"
        using mk k by (cases "unat m = 2 ^ K") (auto simp: word_unat_eq_iff)
      then obtain xs where xs: "subProof m k b = Inr xs"
        "map unat xs = map blk_id (sub_blocks (unat m) (2 ^ K) b)"
        using "1.IH"(1)[OF False k_def True "1.prems"(1)] k cs(1) "1.prems"(3) by auto
      have "clog (unat n - 2 ^ K) \<le> K" by (rule clog_le) (use cs in simp)
      then obtain r where r: "rightChild (treeRoot n) n = Inr r"
        "unat r = nid_at (2 ^ K) (clog (unat n - 2 ^ K))"
        using rightChild_at[of "treeRoot n" 0 K n] root K63 cs(1) "1.prems"(3) by (auto simp: min_def)
      have "map unat (xs @ [r]) = map blk_id (sub_blocks (unat m) (unat n) b)"
        using xs(2) r(2) step mk by (simp add: blk_id_def)
      moreover have "subProof m n b = Inr (xs @ [r])"
        using False True xs(1) r(1) by (subst subProof.simps) (simp add: Let_def k_def)
      ultimately show ?thesis by blast
    next
      case nle: False
      then have mk: "2 ^ K < unat m" using k by (simp add: unat_le_iff)
      obtain l where l: "leftChild (treeRoot n) = Inr l" "unat l = nid_at 0 K"
        using leftStep_at[OF root] by (auto simp: leftChild_def)
      have d: "unat (m - k) = unat m - 2 ^ K" "unat (n - k) = unat n - 2 ^ K"
        using mk mn k by (simp_all add: unat_sub_if')
      have p: "0 < unat (m - k)" "unat (m - k) < unat (n - k)" "unat (n - k) \<le> 2 ^ 63"
        using d mk mn "1.prems"(3) by auto
      obtain xs where xs: "subProof (m - k) (n - k) False = Inr xs"
        "map unat xs = map blk_id (sub_blocks (unat m - 2 ^ K) (unat n - 2 ^ K) False)"
        using "1.IH"(2)[OF False k_def nle l(1) p(1) disjI1[OF p(2)] p(3)] d by auto
      have k2: "unat (2 * k) = 2 * 2 ^ K"
        using k cs(1) "1.prems"(3) by (subst unat_mult_lem[THEN iffD1]) auto
      have "unat (x + 2 * k) = unat x + 2 * 2 ^ K" if "x \<in> set xs" for x
      proof -
        have "unat x \<in> set (map unat xs)" using that by simp
        then obtain b where "b \<in> set (sub_blocks (unat m - 2 ^ K) (unat n - 2 ^ K) False)"
          "unat x = blk_id b" unfolding xs(2) by auto
        then have "unat x < 2 * (unat n - 2 ^ K)"
          using sub_blocks_id_less[of "unat m - 2 ^ K" "unat n - 2 ^ K" b] p d by auto
        then have "unat x + unat (2 * k) < 2 * 2 ^ 63" using k2 cs(1) "1.prems"(3) by linarith
        then have "unat x + unat (2 * k) < 2 ^ 64" by simp
        from unat_add_small[OF this] show ?thesis by (simp add: k2)
      qed
      then have "map unat (map (\<lambda>x. x + 2 * k) xs) = map (\<lambda>x. x + 2 * 2 ^ K) (map unat xs)"
        by simp
      also have "\<dots> = map blk_id (map (\<lambda>(s, j). (s + 2 ^ K, j))
          (sub_blocks (unat m - 2 ^ K) (unat n - 2 ^ K) False))"
        unfolding xs(2) by (auto simp: blk_id_shift)
      finally have "map unat (l # map (\<lambda>x. x + 2 * k) xs) = map blk_id (sub_blocks (unat m) (unat n) b)"
        using l(2) step mk by (simp add: blk_id_def)
      moreover have "subProof m n b = Inr (l # map (\<lambda>x. x + 2 * k) xs)"
        using False nle l(1) xs(1) by (subst subProof.simps) (simp add: Let_def k_def)
      ultimately show ?thesis by blast
    qed
  qed
qed

end
