(* ===== verification/Log_Consistency.thy ===== *)
theory Log_Consistency
  imports Log_Nodes
begin

text \<open>
  The consistency check of the log tree against its meaning: the root calculator folds
  contiguous blocks to the reference root, an honest proof is accepted and yields the
  root of the longer log, and an accepted proof shows that the old log is a prefix of the
  new one, unless SHA-256 collides on a preimage the two trees or the check hash.
\<close>

definition leaf_node :: "hash \<Rightarrow> node" where
  "leaf_node h = \<lparr>interior = False, val = h\<rparr>"

definition mtree :: "(bytes \<Rightarrow> hash) \<Rightarrow> hash list \<Rightarrow> node" where
  "mtree sha = mth leaf_node (treeHash sha)"

text \<open>The root of the log of these leaf hashes.\<close>

definition log_root :: "(bytes \<Rightarrow> hash) \<Rightarrow> hash list \<Rightarrow> hash" where
  "log_root sha ls = val (mtree sha ls)"

lemma interior_treeHash [simp]: "interior (treeHash sha l r)"
  by (simp add: treeHash_def)

lemma interior_mtree: "ls \<noteq> [] \<Longrightarrow> interior (mtree sha ls) \<longleftrightarrow> 1 < length ls"
  by (cases "length ls = 1")
     (auto simp: mtree_def mth.simps[of _ _ ls] Let_def leaf_node_def length_Suc_conv)

subsection \<open>The calculator and frontiers\<close>

text \<open>The carry loop on the part of the chain from level \<open>i\<close> on.\<close>

fun carry_from :: "(bytes \<Rightarrow> hash) \<Rightarrow> node \<Rightarrow> chain \<Rightarrow> chain" where
  "carry_from sha acc [] = [Some acc]"
| "carry_from sha acc (None # c) = Some acc # c"
| "carry_from sha acc (Some nd # c) = None # carry_from sha (treeHash sha nd acc) c"

lemma calc_carry_split: "calc_carry sha (length lo) acc (lo @ hi) = lo @ carry_from sha acc hi"
proof (induction hi arbitrary: lo acc)
  case Nil
  show ?case by (subst calc_carry.simps) simp
next
  case (Cons nd hi)
  show ?case
  proof (cases nd)
    case None
    then show ?thesis by (subst calc_carry.simps) (simp add: list_update_append)
  next
    case (Some x)
    have "(lo @ nd # hi)[length lo := None] = (lo @ [None]) @ hi" by (simp add: list_update_append)
    then show ?thesis using Some Cons.IH[of "lo @ [None]" "treeHash sha x acc"]
      by (subst calc_carry.simps) simp
  qed
qed

fun chain_rep :: "(bytes \<Rightarrow> hash) \<Rightarrow> nat \<Rightarrow> chain \<Rightarrow> hash frontier \<Rightarrow> bool" where
  "chain_rep sha l [] fs \<longleftrightarrow> fs = []"
| "chain_rep sha l (None # c) fs \<longleftrightarrow> chain_rep sha (Suc l) c fs"
| "chain_rep sha l (Some nd # c) fs \<longleftrightarrow>
     (case fs of [] \<Rightarrow> False
      | (k, x) # gs \<Rightarrow> k = l \<and> nd = mtree sha x \<and> chain_rep sha (Suc l) c gs)"

lemma chain_rep_levels: "chain_rep sha l c fs \<Longrightarrow> f \<in> set fs \<Longrightarrow> l \<le> fst f"
proof (induction c arbitrary: l fs)
  case (Cons nd c)
  then show ?case
    by (cases nd) (fastforce split: list.splits dest: Suc_leD)+
qed simp

text \<open>A frontier whose smallest block may be cut off.\<close>

definition fr_wfp :: "'a frontier \<Rightarrow> bool" where
  "fr_wfp fs \<longleftrightarrow> (case fs of [] \<Rightarrow> True
     | (k, x) # gs \<Rightarrow> x \<noteq> [] \<and> length x \<le> 2 ^ k \<and> fr_wf (Suc k) gs)"

lemma fr_wf_wfp: "fr_wf l fs \<Longrightarrow> fr_wfp fs"
  by (cases fs) (auto simp: fr_wfp_def)

lemma fr_wfp_add:
  "b \<noteq> [] \<Longrightarrow> length b \<le> 2 ^ l \<Longrightarrow> fr_wf l fs \<Longrightarrow> fr_wfp (fr_add l b fs)"
proof (induction l b fs rule: fr_add.induct)
  case (2 l b k x fs)
  then show ?case by (cases "k = l") (auto simp: fr_wfp_def)
qed (auto simp: fr_wfp_def)

lemma chain_rep_carry:
  "chain_rep sha l c fs \<Longrightarrow> b \<noteq> [] \<Longrightarrow> length b \<le> 2 ^ l \<Longrightarrow> fr_wf l fs \<Longrightarrow>
   chain_rep sha l (carry_from sha (mtree sha b) c) (fr_add l b fs)"
proof (induction c arbitrary: l b fs)
  case (Cons nd c)
  show ?case
  proof (cases nd)
    case None
    have "fr_add l b fs = (l, b) # fs"
    proof (cases fs)
      case (Cons f gs)
      then have "Suc l \<le> fst f"
        using chain_rep_levels[of sha "Suc l" c fs f] \<open>chain_rep sha l (nd # c) fs\<close> None by simp
      then show ?thesis using Cons by (cases f) simp
    qed simp
    then show ?thesis using Cons.prems(1) None by simp
  next
    case (Some v)
    obtain x gs where fs: "fs = (l, x) # gs" and v: "v = mtree sha x"
      and c: "chain_rep sha (Suc l) c gs"
      using Cons.prems(1) Some by (auto split: list.splits)
    have w: "length x = 2 ^ l" "fr_wf (Suc l) gs" using Cons.prems(4) fs by auto
    have "treeHash sha v (mtree sha b) = mtree sha (x @ b)"
      unfolding v mtree_def
      using mth_join[OF w(1) _ Cons.prems(3), of leaf_node "treeHash sha"] Cons.prems(2) by simp
    moreover have "chain_rep sha (Suc l) (carry_from sha (mtree sha (x @ b)) c) (fr_add (Suc l) (x @ b) gs)"
      by (rule Cons.IH[OF c]) (use Cons.prems w in auto)
    ultimately show ?thesis using Some fs by simp
  qed
qed simp

lemma chain_rep_pad: "chain_rep sha l c fs \<Longrightarrow> chain_rep sha l (c @ replicate n None) fs"
proof (induction sha l c fs rule: chain_rep.induct)
  case (1 sha l fs)
  then show ?case by (induction n arbitrary: l) auto
qed (auto split: list.splits)

lemma chain_rep_split:
  "chain_rep sha l (lo @ hi) fs \<Longrightarrow> fr_wf (l + length lo) fs \<Longrightarrow>
   lo = replicate (length lo) None \<and> chain_rep sha (l + length lo) hi fs"
proof (induction lo arbitrary: l)
  case (Cons nd lo)
  show ?case
  proof (cases nd)
    case None
    then show ?thesis using Cons.IH[of "Suc l"] Cons.prems by simp
  next
    case (Some v)
    then show ?thesis using Cons.prems by (auto split: list.splits)
  qed
qed simp

lemma chain_rep_none: "chain_rep sha (l + n) hi fs \<Longrightarrow> chain_rep sha l (replicate n None @ hi) fs"
  by (induction n arbitrary: l) auto

lemma chain_rep_insert:
  assumes c: "chain_rep sha 0 c fs" "fr_wf lvl fs"
    and b: "b \<noteq> []" "length b \<le> 2 ^ lvl" "lvl \<noteq> 0 \<longleftrightarrow> 1 < length b"
  shows "chain_rep sha 0 (calc_insert sha lvl (val (mtree sha b)) c) (fr_add lvl b fs)"
proof -
  define d where "d = c @ replicate (lvl + 1 - length c) None"
  define lo where "lo = take lvl d"
  define hi where "hi = drop lvl d"
  have len: "length lo = lvl" by (simp add: lo_def d_def)
  have d: "d = lo @ hi" by (simp add: lo_def hi_def)
  have "chain_rep sha 0 d fs" unfolding d_def by (rule chain_rep_pad[OF c(1)])
  then have sp: "lo = replicate lvl None" "chain_rep sha lvl hi fs"
    using chain_rep_split[of sha 0 lo hi fs] d len c(2) by auto
  have nd: "\<lparr>interior = (lvl \<noteq> 0), val = val (mtree sha b)\<rparr> = mtree sha b"
    by (rule node.equality) (use b interior_mtree[of b sha] in auto)
  have "calc_insert sha lvl (val (mtree sha b)) c = lo @ carry_from sha (mtree sha b) hi"
    unfolding calc_insert_def nd d_def[symmetric] d using calc_carry_split[of sha lo] len by simp
  moreover have "chain_rep sha lvl (carry_from sha (mtree sha b) hi) (fr_add lvl b fs)"
    by (rule chain_rep_carry[OF sp(2) b(1,2) c(2)])
  ultimately show ?thesis using chain_rep_none[of sha 0 lvl] sp(1) by simp
qed

lemma chain_rep_foldl:
  "chain_rep sha l c fs \<Longrightarrow>
   foldl (\<lambda>acc nd. case nd of None \<Rightarrow> acc | Some x \<Rightarrow> treeHash sha x acc) acc c =
   fr_fold (mtree sha) (treeHash sha) acc fs"
  by (induction sha l c fs arbitrary: acc rule: chain_rep.induct) (auto split: list.splits)

lemma chain_rep_first:
  "chain_rep sha l c fs \<Longrightarrow> fs \<noteq> [] \<Longrightarrow>
   \<exists>k x gs rest. fs = (k, x) # gs \<and> dropWhile (\<lambda>nd. nd = None) c = Some (mtree sha x) # rest \<and>
     chain_rep sha (Suc k) rest gs"
  by (induction sha l c fs rule: chain_rep.induct) (auto split: list.splits)

lemma chain_rep_root:
  assumes "chain_rep sha l c fs" "fr_wfp fs" "fs \<noteq> []"
  shows "calc_root sha c = Inr (log_root sha (fr_leaves fs))"
proof -
  obtain k x gs rest where r: "fs = (k, x) # gs"
    "dropWhile (\<lambda>nd. nd = None) c = Some (mtree sha x) # rest" "chain_rep sha (Suc k) rest gs"
    using chain_rep_first[OF assms(1,3)] by auto
  have w: "x \<noteq> []" "length x \<le> 2 ^ k" "fr_wf (Suc k) gs" using assms(2) r(1) by (auto simp: fr_wfp_def)
  have "fr_fold (mtree sha) (treeHash sha) (mtree sha x) gs = mtree sha (fr_leaves gs @ x)"
    unfolding mtree_def by (rule fr_fold_mth[OF _ w(2) fr_wf_mono[OF w(3)]]) (use w(1) in auto)
  moreover have "c \<noteq> []" using r(2) by auto
  ultimately show ?thesis
    using r(2) chain_rep_foldl[OF r(3)] by (simp add: calc_root_def log_root_def r(1))
qed

subsection \<open>Honest proofs\<close>

text \<open>The value the log over \<open>ls\<close> has at node \<open>x\<close>: the root of the leaves below it.\<close>

definition block_value :: "(bytes \<Rightarrow> hash) \<Rightarrow> hash list \<Rightarrow> block \<Rightarrow> hash" where
  "block_value sha ls = (\<lambda>(s, j). log_root sha (take (2 ^ j) (drop s ls)))"

definition node_value :: "(bytes \<Rightarrow> hash) \<Rightarrow> hash list \<Rightarrow> u64 \<Rightarrow> hash" where
  "node_value sha ls x = (let j = level x in block_value sha ls ((unat x + 1 - 2 ^ j) div 2, j))"

lemma node_value_at:
  "unat x = nid_at s j \<Longrightarrow> 2 ^ j dvd s \<Longrightarrow> node_value sha ls x = block_value sha ls (s, j)"
  using level_at[of x s j] by (simp add: node_value_def nid_at_def)

text \<open>Running the calculator over blocks.\<close>

definition block_run :: "(bytes \<Rightarrow> hash) \<Rightarrow> hash list \<Rightarrow> chain \<Rightarrow> block list \<Rightarrow> chain" where
  "block_run sha ls c bs = foldl (\<lambda>c (s, j). calc_insert sha j (block_value sha ls (s, j)) c) c bs"

lemma fr_wf_dvd: "fr_wf 0 fs \<Longrightarrow> 2 ^ j dvd fr_size fs \<Longrightarrow> fr_wf j fs"
proof (cases fs)
  case (Cons f gs)
  assume w: "fr_wf 0 fs" and d: "2 ^ j dvd fr_size fs"
  obtain k x where f: "f = (k, x)" by (cases f)
  have g: "2 ^ Suc k dvd fr_size gs" using w Cons f by (intro fr_size_dvd) auto
  have "j \<le> k"
  proof (rule ccontr)
    assume "\<not> j \<le> k"
    then have "2 ^ Suc k dvd (2::nat) ^ j" by (intro le_imp_power_dvd) simp
    then have "2 ^ Suc k dvd 2 ^ k + fr_size gs" using d Cons f dvd_trans by fastforce
    then have "2 ^ Suc k dvd (2::nat) ^ k" using g by (metis dvd_add_left_iff)
    then show False by (auto dest: dvd_imp_le)
  qed
  then show ?thesis using w Cons f by simp
qed simp

definition run_inv :: "(bytes \<Rightarrow> hash) \<Rightarrow> hash list \<Rightarrow> nat \<Rightarrow> chain \<Rightarrow> bool" where
  "run_inv sha ls a c \<longleftrightarrow>
     (\<exists>fs. chain_rep sha 0 c fs \<and> (if a < length ls then fr_wf 0 fs else fr_wfp fs) \<and>
       fr_leaves fs = take a ls)"

lemma run_inv_empty: "run_inv sha ls 0 []"
  unfolding run_inv_def by (rule exI[of _ "[]"]) (simp add: fr_wfp_def)

lemma run_inv_root: "run_inv sha ls (length ls) c \<Longrightarrow> ls \<noteq> [] \<Longrightarrow> calc_root sha c = Inr (log_root sha ls)"
  unfolding run_inv_def using chain_rep_root by (metis fr_leaves_simps(1) less_irrefl order_refl take_all)

lemma run_inv_root_prefix:
  "run_inv sha ls a c \<Longrightarrow> 0 < a \<Longrightarrow> a < length ls \<Longrightarrow> calc_root sha c = Inr (log_root sha (take a ls))"
  unfolding run_inv_def using chain_rep_root fr_wf_wfp
  by (metis fr_leaves_simps(1) list.size(3) length_take min.absorb4 less_irrefl)

lemma run_inv_step:
  assumes i: "run_inv sha ls a c" and a: "a < length ls" "2 ^ j dvd a"
    and j: "j = clog (min (2 ^ j) (length ls - a))"
  shows "run_inv sha ls (min (length ls) (a + 2 ^ j)) (calc_insert sha j (block_value sha ls (a, j)) c)"
proof -
  obtain fs where fs: "chain_rep sha 0 c fs" "fr_wf 0 fs" "fr_leaves fs = take a ls"
    using i a(1) by (auto simp: run_inv_def)
  define b where "b = take (2 ^ j) (drop a ls)"
  have "fr_size fs = a" using length_fr_leaves[OF fs(2)] fs(3) a(1) by simp
  then have wj: "fr_wf j fs" using fr_wf_dvd[OF fs(2)] a(2) by simp
  have lb: "length b = min (2 ^ j) (length ls - a)" by (simp add: b_def)
  have "0 < length b" unfolding lb using a(1) by (simp add: min_less_iff_conj)
  then have ne: "b \<noteq> []" by simp
  have "j \<noteq> 0 \<longleftrightarrow> 1 < length b"
  proof
    assume "j \<noteq> 0"
    then show "1 < length b" using j lb by (metis clog_le_1 not_le_imp_less)
  next
    assume "1 < length b"
    then show "j \<noteq> 0" using lb by (cases j) auto
  qed
  from chain_rep_insert[OF fs(1) wj ne _ this]
  have r: "chain_rep sha 0 (calc_insert sha j (block_value sha ls (a, j)) c) (fr_add j b fs)"
    by (simp add: block_value_def log_root_def lb b_def[symmetric])
  have lv: "fr_leaves (fr_add j b fs) = take (min (length ls) (a + 2 ^ j)) ls"
    unfolding fr_leaves_add fs(3) b_def by (simp add: take_add min_def)
  show ?thesis
  proof (cases "a + 2 ^ j < length ls")
    case True
    then have "fr_wf j (fr_add j b fs)" using wj lb by (intro fr_wf_add) auto
    then show ?thesis unfolding run_inv_def using r lv True fr_wf_mono
      by (intro exI[of _ "fr_add j b fs"]) auto
  next
    case False
    then show ?thesis unfolding run_inv_def using r lv fr_wfp_add[OF ne _ wj] lb
      by (intro exI[of _ "fr_add j b fs"]) auto
  qed
qed

lemma run_inv_tiles:
  "tiles (length ls) a bs \<Longrightarrow> run_inv sha ls a c \<Longrightarrow> run_inv sha ls (length ls) (block_run sha ls c bs)"
proof (induction bs arbitrary: a c)
  case Nil
  then show ?case by (simp add: block_run_def)
next
  case (Cons b bs)
  obtain s j where b: "b = (s, j)" by (cases b)
  then have t: "s = a" "2 ^ j dvd a" "a < length ls" "j = clog (min (2 ^ j) (length ls - a))"
    "tiles (length ls) (min (length ls) (a + 2 ^ j)) bs" using Cons.prems(1) by auto
  from Cons.IH[OF t(5) run_inv_step[OF Cons.prems(2) t(3,2,4)]] show ?case
    by (simp add: block_run_def b t(1))
qed

subsection \<open>Completeness\<close>

lemma full_blocks_single: "0 < m \<Longrightarrow> length (full_blocks 0 m) = 1 \<longleftrightarrow> is_pow2 m"
proof -
  assume m: "0 < m"
  show ?thesis
  proof (cases "is_pow2 m")
    case True
    then show ?thesis using full_blocks_pow2[of 0 "clog m"] by (simp add: is_pow2_def)
  next
    case False
    then have "m \<noteq> 2 ^ clog m" by (simp add: is_pow2_def)
    moreover have "m \<noteq> 1" using False is_pow2_pow[of 0] by auto
    then have "1 < m" using m by simp
    then have "2 ^ (clog m - 1) < m" by (rule clog_lower)
    then have "full_blocks (2 ^ (clog m - 1)) m \<noteq> []"
      by (subst full_blocks.simps) (simp add: Let_def)
    ultimately show ?thesis using False m
      by (subst full_blocks.simps) (simp add: Let_def)
  qed
qed

lemma tiles_aligned: "tiles n a bs \<Longrightarrow> (s, j) \<in> set bs \<Longrightarrow> 2 ^ j dvd s"
  by (induction bs arbitrary: a) auto

lemma tiles_start: "tiles n a bs \<Longrightarrow> tiles n b bs \<Longrightarrow> a = b"
  by (cases bs) auto

lemma run_inv_prefix:
  "tiles (length ls) a (xs @ ys) \<Longrightarrow> run_inv sha ls a c \<Longrightarrow>
   \<exists>b. tiles (length ls) b ys \<and> run_inv sha ls b (block_run sha ls c xs)"
proof (induction xs arbitrary: a c)
  case Nil
  then show ?case by (auto simp: block_run_def)
next
  case (Cons b xs)
  obtain s j where b: "b = (s, j)" by (cases b)
  then have t: "s = a" "2 ^ j dvd a" "a < length ls" "j = clog (min (2 ^ j) (length ls - a))"
    "tiles (length ls) (min (length ls) (a + 2 ^ j)) (xs @ ys)" using Cons.prems(1) by auto
  from Cons.IH[OF t(5) run_inv_step[OF Cons.prems(2) t(3,2,4)]] show ?case
    by (simp add: block_run_def b t(1))
qed

lemma calc_run_blocks:
  "map unat xs = map blk_id bs \<Longrightarrow> (\<And>s j. (s, j) \<in> set bs \<Longrightarrow> 2 ^ j dvd s) \<Longrightarrow>
   calc_run sha c (zip xs (map (node_value sha ls) xs)) = block_run sha ls c bs"
proof (induction xs arbitrary: bs c)
  case Nil
  then show ?case by (simp add: calc_run_def block_run_def)
next
  case (Cons x xs)
  obtain s j bs' where bs: "bs = (s, j) # bs'" using Cons.prems(1) by (cases bs) auto
  have "unat x = nid_at s j" "2 ^ j dvd s" using Cons.prems bs by (auto simp: blk_id_def)
  then have "level x = j" "node_value sha ls x = block_value sha ls (s, j)"
    using level_at node_value_at by auto
  moreover have "calc_run sha d (zip xs (map (node_value sha ls) xs)) = block_run sha ls d bs'" for d
    by (rule Cons.IH) (use Cons.prems bs in auto)
  ultimately show ?case by (simp add: calc_run_def block_run_def bs)
qed

lemma path_loop_ok:
  "ids = pre @ es @ post \<Longrightarrow> length proof = length ids \<Longrightarrow>
   path_loop sha ids proof (length pre) es c =
   Inr (calc_run sha c (zip es (drop (length pre) proof)))"
proof (induction es arbitrary: pre c)
  case Nil
  then show ?case by (simp add: calc_run_def)
next
  case (Cons e es)
  have "length pre < length proof" using Cons.prems by simp
  then have "drop (length pre) proof = proof ! length pre # drop (Suc (length pre)) proof"
    by (simp add: Cons_nth_drop_Suc)
  moreover have "path_loop sha ids proof (length (pre @ [e])) es d =
      Inr (calc_run sha d (zip es (drop (length (pre @ [e])) proof)))" for d
    by (rule Cons.IH) (use Cons.prems in auto)
  ultimately show ?case using Cons.prems(1) by (simp add: calc_run_def)
qed

text \<open>The two node lists of a check, with the blocks they stand for.\<close>

lemma proof_nodes:
  assumes m: "0 < unat m" "unat m < unat n" "unat n \<le> 2 ^ 63"
  obtains ids path where
    "consistencyProofNodes m n = Inr ids" "fullSubtrees (treeRoot m) m [] = Inr path"
    "map unat ids = map blk_id (sub_blocks (unat m) (unat n) True)"
    "map unat path = map blk_id (full_blocks 0 (unat m))"
    "length path = 1 \<longleftrightarrow> is_pow2 (unat m)"
    "\<not> is_pow2 (unat m) \<Longrightarrow> \<exists>B. sub_blocks (unat m) (unat n) True = full_blocks 0 (unat m) @ B \<and>
       tiles (unat n) (unat m) B \<and> ids = path @ drop (length path) ids"
    "is_pow2 (unat m) \<Longrightarrow> tiles (unat n) (unat m) (sub_blocks (unat m) (unat n) True)"
    "level (treeRoot m) = clog (unat m)"
proof -
  obtain ids where ids: "consistencyProofNodes m n = Inr ids"
    "map unat ids = map blk_id (sub_blocks (unat m) (unat n) True)"
    using subProof_at[of m n True] m by (auto simp: consistencyProofNodes_def)
  have m63: "unat m \<le> 2 ^ 63" using m by simp
  obtain path where path: "fullSubtrees (treeRoot m) m [] = Inr path"
    "map unat path = map blk_id (full_blocks 0 (unat m))"
    using fullSubtrees_root[OF m(1) m63] by auto
  have lp: "length path = length (full_blocks 0 (unat m))" using path(2) by (metis length_map)
  show thesis
  proof (rule that[OF ids(1) path(1) ids(2) path(2)])
    show "length path = 1 \<longleftrightarrow> is_pow2 (unat m)" using lp full_blocks_single[OF m(1)] by simp
    show "level (treeRoot m) = clog (unat m)" using level_at[OF treeRoot_at[OF m(1) m63]] by simp
    show "tiles (unat n) (unat m) (sub_blocks (unat m) (unat n) True)" if "is_pow2 (unat m)"
    proof -
      have e: "unat m = 2 ^ clog (unat m)" using that by (simp add: is_pow2_def)
      have "2 ^ clog (unat m) \<le> unat n" using e m(2) by linarith
      from sub_blocks_pow2[OF this] show ?thesis unfolding e[symmetric] .
    qed
    assume np: "\<not> is_pow2 (unat m)"
    obtain B where B: "sub_blocks (unat m) (unat n) True = full_blocks 0 (unat m) @ B"
      "tiles (unat n) (unat m) B"
      using sub_blocks_other[of "unat m" True "unat n"] m np by auto
    have "map unat (take (length path) ids) = map unat path"
      using ids(2) path(2) B(1) lp by (simp flip: take_map)
    then have "take (length path) ids = path"
      by (rule map_injective) (simp add: inj_def word_unat_eq_iff)
    then have "ids = path @ drop (length path) ids" by (metis append_take_drop_id)
    then show "\<exists>B. sub_blocks (unat m) (unat n) True = full_blocks 0 (unat m) @ B \<and>
       tiles (unat n) (unat m) B \<and> ids = path @ drop (length path) ids" using B by blast
  qed
qed

text \<open>The chain after the part of the check that covers the old tree.\<close>

lemma honest_run:
  assumes m: "0 < unat m" "unat m < unat n" "unat n \<le> 2 ^ 63" and l: "length new = unat n"
    and ids: "consistencyProofNodes m n = Inr ids" and path: "fullSubtrees (treeRoot m) m [] = Inr path"
  shows "is_pow2 (unat m) \<Longrightarrow>
      calc_root sha (calc_run sha (calc_insert sha (level (treeRoot m)) (log_root sha (take (unat m) new)) [])
        (zip ids (map (node_value sha new) ids))) = Inr (log_root sha new)" (is "?P \<Longrightarrow> ?A")
    and "\<not> is_pow2 (unat m) \<Longrightarrow>
      calc_root sha (calc_run sha [] (zip path (map (node_value sha new) path))) =
        Inr (log_root sha (take (unat m) new)) \<and>
      calc_root sha (calc_run sha (calc_run sha [] (zip path (map (node_value sha new) path)))
        (zip (drop (length path) ids) (map (node_value sha new) (drop (length path) ids)))) =
        Inr (log_root sha new)" (is "_ \<Longrightarrow> ?B")
proof -
  obtain ids' path' where P:
    "consistencyProofNodes m n = Inr ids'" "fullSubtrees (treeRoot m) m [] = Inr path'"
    "map unat ids' = map blk_id (sub_blocks (unat m) (unat n) True)"
    "map unat path' = map blk_id (full_blocks 0 (unat m))"
    "length path' = 1 \<longleftrightarrow> is_pow2 (unat m)"
    "\<not> is_pow2 (unat m) \<Longrightarrow> \<exists>B. sub_blocks (unat m) (unat n) True = full_blocks 0 (unat m) @ B \<and>
       tiles (unat n) (unat m) B \<and> ids' = path' @ drop (length path') ids'"
    "is_pow2 (unat m) \<Longrightarrow> tiles (unat n) (unat m) (sub_blocks (unat m) (unat n) True)"
    "level (treeRoot m) = clog (unat m)"
    by (rule proof_nodes[OF m]) blast
  have e: "ids' = ids" "path' = path" using P(1,2) ids path by auto
  note P = P[unfolded e]
  have ne: "new \<noteq> []" "0 < length new" using l m by auto
  { assume p: "is_pow2 (unat m)"
    define j where "j = clog (unat m)"
    have um: "unat m = 2 ^ j" using p by (simp add: is_pow2_def j_def)
    have jm: "j = clog (min (2 ^ j) (length new - 0))" using m l um by (simp add: min_def)
    have "run_inv sha new (min (length new) (0 + 2 ^ j)) (calc_insert sha j (block_value sha new (0, j)) [])"
      by (rule run_inv_step[OF run_inv_empty ne(2) _ jm]) simp
    then have "run_inv sha new (unat m)
        (calc_insert sha (level (treeRoot m)) (log_root sha (take (unat m) new)) [])"
      using m l P(8) by (simp add: j_def[symmetric] um[symmetric] block_value_def)
    from run_inv_tiles[OF _ this, of "sub_blocks (unat m) (unat n) True"]
    show ?A
      using P(7)[OF p] l calc_run_blocks[OF P(3) tiles_aligned[OF P(7)[OF p]]]
      by (simp add: run_inv_root ne) }
  { assume np: "\<not> is_pow2 (unat m)"
    obtain B where B: "sub_blocks (unat m) (unat n) True = full_blocks 0 (unat m) @ B"
       "tiles (unat n) (unat m) B" "ids = path @ drop (length path) ids" using P(6)[OF np] by auto
    have t: "tiles (length new) 0 (full_blocks 0 (unat m) @ B)"
      unfolding l by (rule full_blocks_tiles) (use m B in auto)
    obtain b where b: "tiles (length new) b B"
      "run_inv sha new b (block_run sha new [] (full_blocks 0 (unat m)))"
      using run_inv_prefix[OF t run_inv_empty] by auto
    have bm: "b = unat m" using tiles_start[OF b(1)] B(2) l by simp
    have c: "calc_run sha [] (zip path (map (node_value sha new) path)) =
        block_run sha new [] (full_blocks 0 (unat m))"
      by (rule calc_run_blocks[OF P(4)]) (use tiles_aligned[OF t] in auto)
    have "map unat (path @ drop (length path) ids) = map blk_id (full_blocks 0 (unat m) @ B)"
      using P(3) B(1,3) by metis
    then have "map unat (drop (length path) ids) = map blk_id B" using P(4) by simp
    from calc_run_blocks[OF this tiles_aligned[OF B(2)]]
    have d: "calc_run sha x (zip (drop (length path) ids) (map (node_value sha new) (drop (length path) ids)))
        = block_run sha new x B" for x by simp
    show ?B unfolding c d
      using run_inv_root_prefix[OF b(2)] run_inv_root[OF run_inv_tiles[OF b] ne(1)] bm m l by simp }
qed

text \<open>
C22. For every pair of sizes up to 2^63 the consistency proof has a node list, and running
  an honest proof forwards from the old root yields the root of the longer log; the walks
  over 64-bit node numbers all end without an error.
\<close>

theorem deriveRoot_complete:
  assumes "0 < unat m" "unat m < unat n" "unat n \<le> 2 ^ 63" "length new = unat n"
  shows "\<exists>ids. consistencyProofNodes m n = Inr ids \<and>
    deriveRoot sha m n (map (node_value sha new) ids) (log_root sha (take (unat m) new)) =
      Inr (log_root sha new)"
proof -
  obtain ids path where P:
    "consistencyProofNodes m n = Inr ids" "fullSubtrees (treeRoot m) m [] = Inr path"
    "length path = 1 \<longleftrightarrow> is_pow2 (unat m)"
    "\<not> is_pow2 (unat m) \<Longrightarrow> \<exists>B. sub_blocks (unat m) (unat n) True = full_blocks 0 (unat m) @ B \<and>
       tiles (unat n) (unat m) B \<and> ids = path @ drop (length path) ids"
    by (rule proof_nodes[OF assms(1-3)]) blast
  note H = honest_run[OF assms P(1,2), of sha]
  have g: "\<not> (m = 0 \<or> m \<ge> n)" using assms(1,2) by (auto simp: unat_le_iff)
  show ?thesis
  proof (cases "is_pow2 (unat m)")
    case True
    then show ?thesis using H(1) P g by (auto simp: deriveRoot_def)
  next
    case False
    then have e: "ids = path @ drop (length path) ids" using P(4) by blast
    let ?proof = "map (node_value sha new) ids"
    have z: "zip path (drop (length ([] :: u64 list)) ?proof) = zip path (map (node_value sha new) path)"
      by (subst e) (simp add: zip_append2)
    have "path_loop sha ids ?proof (length ([] :: u64 list)) path [] =
        Inr (calc_run sha [] (zip path (drop (length ([] :: u64 list)) ?proof)))"
      by (rule path_loop_ok) (use e in auto)
    then have "path_loop sha ids ?proof 0 path [] =
        Inr (calc_run sha [] (zip path (map (node_value sha new) path)))" unfolding z by simp
    moreover have "drop (length path) (zip ids ?proof) =
        zip (drop (length path) ids) (map (node_value sha new) (drop (length path) ids))"
      by (simp add: drop_zip drop_map)
    ultimately show ?thesis using H(2)[OF False] P g False by (auto simp: deriveRoot_def)
  qed
qed

subsection \<open>Soundness\<close>

text \<open>
  Preimages hashed by the reference root and by a check.  Both lists follow the
  computations they belong to.
\<close>

definition pre :: "node \<Rightarrow> node \<Rightarrow> bytes" where
  "pre l r = marshal l @ marshal r"

function mtree_pre :: "(bytes \<Rightarrow> hash) \<Rightarrow> hash list \<Rightarrow> bytes list" where
  "mtree_pre sha ls =
     (if length ls \<le> 1 then []
      else let k = 2 ^ (clog (length ls) - 1)
           in pre (mtree sha (take k ls)) (mtree sha (drop k ls)) #
              mtree_pre sha (take k ls) @ mtree_pre sha (drop k ls))"
  by pat_completeness auto
termination
proof (relation "measure (\<lambda>(sha, ls). length ls)")
  fix ls :: "hash list" and k sha assume "\<not> length ls \<le> 1" "k = (2::nat) ^ (clog (length ls) - 1)"
  then have "k < length ls" "0 < k" using clog_lower[of "length ls"] by auto
  then show "((sha, take k ls), sha, ls) \<in> measure (\<lambda>(sha, ls). length ls)"
    "((sha, drop k ls), sha, ls) \<in> measure (\<lambda>(sha, ls). length ls)"
    by auto
qed auto

declare mtree_pre.simps [simp del]

fun carry_pre :: "(bytes \<Rightarrow> hash) \<Rightarrow> node \<Rightarrow> chain \<Rightarrow> bytes list" where
  "carry_pre sha acc [] = []"
| "carry_pre sha acc (None # c) = []"
| "carry_pre sha acc (Some nd # c) = pre nd acc # carry_pre sha (treeHash sha nd acc) c"

definition insert_pre :: "(bytes \<Rightarrow> hash) \<Rightarrow> nat \<Rightarrow> hash \<Rightarrow> chain \<Rightarrow> bytes list" where
  "insert_pre sha lvl v c = carry_pre sha \<lparr>interior = (lvl \<noteq> 0), val = v\<rparr>
     (drop lvl (c @ replicate (lvl + 1 - length c) None))"

fun run_pre :: "(bytes \<Rightarrow> hash) \<Rightarrow> chain \<Rightarrow> (u64 \<times> hash) list \<Rightarrow> bytes list" where
  "run_pre sha c [] = []"
| "run_pre sha c ((x, v) # items) =
     insert_pre sha (level x) v c @ run_pre sha (calc_insert sha (level x) v c) items"

fun fold_pre :: "(bytes \<Rightarrow> hash) \<Rightarrow> node \<Rightarrow> chain \<Rightarrow> bytes list" where
  "fold_pre sha acc [] = []"
| "fold_pre sha acc (None # c) = fold_pre sha acc c"
| "fold_pre sha acc (Some nd # c) = pre nd acc # fold_pre sha (treeHash sha nd acc) c"

definition root_pre :: "(bytes \<Rightarrow> hash) \<Rightarrow> chain \<Rightarrow> bytes list" where
  "root_pre sha c = (case dropWhile (\<lambda>nd. nd = None) c of
     Some nd # rest \<Rightarrow> fold_pre sha nd rest | _ \<Rightarrow> [])"

text \<open>All preimages of \<open>deriveRoot m n proof mRoot\<close> on a proof of the right length.\<close>

definition check_pre :: "(bytes \<Rightarrow> hash) \<Rightarrow> u64 \<Rightarrow> u64 \<Rightarrow> hash list \<Rightarrow> hash \<Rightarrow> bytes list" where
  "check_pre sha m n proof mRoot =
     (case (consistencyProofNodes m n, fullSubtrees (treeRoot m) m []) of
        (Inr ids, Inr path) \<Rightarrow>
          if length path = 1 then
            let c = calc_insert sha (level (treeRoot m)) mRoot []; z = zip ids proof
            in run_pre sha c z @ root_pre sha (calc_run sha c z)
          else
            let z1 = zip path proof; z2 = drop (length path) (zip ids proof);
                c = calc_run sha [] z1
            in run_pre sha [] z1 @ root_pre sha c @ run_pre sha c z2 @ root_pre sha (calc_run sha c z2)
      | _ \<Rightarrow> [])"

lemma pre_inj:
  assumes "length (val l) = length (val l')" "pre l r = pre l' r'"
  shows "l = l' \<and> r = r'"
proof -
  have "marshal l = marshal l'" "marshal r = marshal r'"
    using assms by (auto simp: pre_def marshal_def)
  then show ?thesis
    by (auto simp: marshal_def intro!: node.equality split: if_splits)
qed

lemma treeHash_inj:
  assumes "inj_on sha S" "pre l r \<in> S" "pre l' r' \<in> S" "length (val l) = length (val l')"
    "val (treeHash sha l r) = val (treeHash sha l' r')"
  shows "l = l' \<and> r = r'"
proof -
  have "sha (pre l r) = sha (pre l' r')" using assms(5) by (simp add: treeHash_def pre_def)
  then have "pre l r = pre l' r'" by (rule inj_onD[OF assms(1) _ assms(2,3)])
  then show ?thesis by (rule pre_inj[OF assms(4)])
qed

lemma mtree_split:
  assumes "1 < length ls" "k = 2 ^ (clog (length ls) - 1)"
  shows "mtree sha ls = treeHash sha (mtree sha (take k ls)) (mtree sha (drop k ls))"
  using assms by (simp add: mtree_def mth.simps[of _ _ ls] Let_def)

lemma length_val_mtree:
  assumes "\<And>x. length (sha x) = 32" "ls \<noteq> []" "\<forall>h\<in>set ls. length h = 32"
  shows "length (val (mtree sha ls)) = 32"
proof (cases "1 < length ls")
  case True
  then show ?thesis using assms(1) by (simp add: mtree_split[OF True refl] treeHash_def)
next
  case False
  then have "length ls = 1" using assms(2) by (cases ls) auto
  then show ?thesis using assms(3) by (auto simp: length_Suc_conv mtree_def leaf_node_def)
qed

lemma log_root_inj:
  assumes "inj_on sha S" "\<And>x. length (sha x) = 32"
  shows "length xs = length ys \<Longrightarrow> xs \<noteq> [] \<Longrightarrow> \<forall>h\<in>set xs. length h = 32 \<Longrightarrow>
    \<forall>h\<in>set ys. length h = 32 \<Longrightarrow> set (mtree_pre sha xs) \<subseteq> S \<Longrightarrow> set (mtree_pre sha ys) \<subseteq> S \<Longrightarrow>
    val (mtree sha xs) = val (mtree sha ys) \<Longrightarrow> xs = ys"
proof (induction "length xs" arbitrary: xs ys rule: less_induct)
  case less
  show ?case
  proof (cases "1 < length xs")
    case False
    then have "length xs = 1" using less.prems(2) by (cases xs) auto
    then show ?thesis using less.prems(1,7)
      by (auto simp: length_Suc_conv mtree_def leaf_node_def)
  next
    case True
    define k where "k = (2::nat) ^ (clog (length xs) - 1)"
    have k: "0 < k" "k < length xs" using clog_lower[OF True] by (simp_all add: k_def)
    have ky: "k = 2 ^ (clog (length ys) - 1)" "1 < length ys" using less.prems(1) True by (simp_all add: k_def)
    have px: "mtree_pre sha xs = pre (mtree sha (take k xs)) (mtree sha (drop k xs)) #
        mtree_pre sha (take k xs) @ mtree_pre sha (drop k xs)"
      using True by (subst mtree_pre.simps) (simp add: Let_def k_def)
    have py: "mtree_pre sha ys = pre (mtree sha (take k ys)) (mtree sha (drop k ys)) #
        mtree_pre sha (take k ys) @ mtree_pre sha (drop k ys)"
      using ky by (subst mtree_pre.simps) (simp add: Let_def)
    have ne: "take k xs \<noteq> []" "drop k xs \<noteq> []" "take k ys \<noteq> []" "drop k ys \<noteq> []"
      using k less.prems(1) by auto
    have l: "\<forall>h\<in>set (take k xs). length h = 32" "\<forall>h\<in>set (drop k xs). length h = 32"
      "\<forall>h\<in>set (take k ys). length h = 32" "\<forall>h\<in>set (drop k ys). length h = 32"
      using less.prems(3,4) by (auto dest: in_set_takeD in_set_dropD)
    have "mtree sha (take k xs) = mtree sha (take k ys) \<and> mtree sha (drop k xs) = mtree sha (drop k ys)"
    proof (rule treeHash_inj[OF assms(1)])
      show "pre (mtree sha (take k xs)) (mtree sha (drop k xs)) \<in> S" using less.prems(5) px by auto
      show "pre (mtree sha (take k ys)) (mtree sha (drop k ys)) \<in> S" using less.prems(6) py by auto
      show "length (val (mtree sha (take k xs))) = length (val (mtree sha (take k ys)))"
        using length_val_mtree[OF assms(2)] ne l by simp
      show "val (treeHash sha (mtree sha (take k xs)) (mtree sha (drop k xs))) =
          val (treeHash sha (mtree sha (take k ys)) (mtree sha (drop k ys)))"
        using less.prems(7) mtree_split[OF True k_def] mtree_split[OF ky(2,1)] by simp
    qed
    moreover have "set (mtree_pre sha (take k xs)) \<subseteq> S" "set (mtree_pre sha (drop k xs)) \<subseteq> S"
      "set (mtree_pre sha (take k ys)) \<subseteq> S" "set (mtree_pre sha (drop k ys)) \<subseteq> S"
      using less.prems(5,6) px py by auto
    ultimately have "take k xs = take k ys" "drop k xs = drop k ys"
      using less.hyps[of "take k xs" "take k ys"] less.hyps[of "drop k xs" "drop k ys"]
        k less.prems(1) ne l by auto
    then show ?thesis by (metis append_take_drop_id)
  qed
qed

text \<open>Two chains of one shape, and nodes that differ at most in their hash.\<close>

definition node_sim :: "node \<Rightarrow> node \<Rightarrow> bool" where
  "node_sim a b \<longleftrightarrow> interior a = interior b \<and> length (val a) = 32 \<and> length (val b) = 32"

definition chain_sim :: "chain \<Rightarrow> chain \<Rightarrow> bool" where
  "chain_sim = list_all2 (rel_option node_sim)"

lemma chain_sim_simps [simp]:
  "chain_sim [] []"
  "chain_sim (a # c) (b # d) \<longleftrightarrow> rel_option node_sim a b \<and> chain_sim c d"
  "chain_sim [] (b # d) \<longleftrightarrow> False" "chain_sim (a # c) [] \<longleftrightarrow> False"
  by (simp_all add: chain_sim_def)

lemma node_sim_treeHash:
  "(\<And>x. length (sha x) = 32) \<Longrightarrow> node_sim (treeHash sha a b) (treeHash sha c d)"
  by (simp add: node_sim_def treeHash_def)

lemma carry_sim:
  assumes "\<And>x. length (sha x) = 32"
  shows "chain_sim c d \<Longrightarrow> node_sim a b \<Longrightarrow> chain_sim (carry_from sha a c) (carry_from sha b d)"
proof (induction c arbitrary: d a b)
  case Nil
  then show ?case by (cases d) auto
next
  case (Cons x c)
  then show ?case
    by (cases d; cases x; cases "hd d") (auto simp: node_sim_treeHash[OF assms])
qed

lemma carry_inj:
  assumes "inj_on sha S" "\<And>x. length (sha x) = 32"
  shows "chain_sim c d \<Longrightarrow> node_sim a b \<Longrightarrow> carry_from sha a c = carry_from sha b d \<Longrightarrow>
    set (carry_pre sha a c) \<subseteq> S \<Longrightarrow> set (carry_pre sha b d) \<subseteq> S \<Longrightarrow> a = b \<and> c = d"
proof (induction c arbitrary: d a b)
  case Nil
  then show ?case by (cases d) auto
next
  case (Cons x c)
  obtain y d' where d: "d = y # d'" using Cons.prems(1) by (cases d) auto
  show ?case
  proof (cases x)
    case None
    then show ?thesis using Cons.prems d by (cases y) auto
  next
    case (Some l)
    then obtain l' where y: "y = Some l'" "node_sim l l'" using Cons.prems(1) d by (cases y) auto
    have "treeHash sha l a = treeHash sha l' b \<and> c = d'"
      by (rule Cons.IH) (use Cons.prems d Some y node_sim_treeHash[OF assms(2)] in auto)
    moreover from this have "l = l' \<and> a = b"
      by (intro treeHash_inj[OF assms(1)]) (use Cons.prems d Some y in \<open>auto simp: node_sim_def\<close>)
    ultimately show ?thesis using Some d y by simp
  qed
qed

lemma chain_sim_length: "chain_sim c d \<Longrightarrow> length c = length d"
  by (simp add: chain_sim_def list_all2_lengthD)

lemma chain_sim_pad: "chain_sim c d \<Longrightarrow> chain_sim (c @ replicate n None) (d @ replicate n None)"
proof -
  have "list_all2 (rel_option node_sim) (replicate n None) (replicate n None)"
    by (simp add: list_all2_conv_all_nth)
  then show "chain_sim c d \<Longrightarrow> ?thesis" by (simp add: chain_sim_def list_all2_appendI)
qed

lemma calc_insert_carry:
  "calc_insert sha lvl v c = take lvl (c @ replicate (lvl + 1 - length c) None) @
     carry_from sha \<lparr>interior = (lvl \<noteq> 0), val = v\<rparr> (drop lvl (c @ replicate (lvl + 1 - length c) None))"
proof -
  define d where "d = c @ replicate (lvl + 1 - length c) None"
  have "length (take lvl d) = lvl" by (simp add: d_def)
  then show ?thesis
    unfolding calc_insert_def d_def[symmetric]
    using calc_carry_split[of sha "take lvl d" _ "drop lvl d"] by simp
qed

lemma insert_sim:
  assumes "\<And>x. length (sha x) = 32" "chain_sim c d" "length v = 32" "length w = 32"
  shows "chain_sim (calc_insert sha lvl v c) (calc_insert sha lvl w d)"
proof -
  let ?p = "\<lambda>c. c @ replicate (lvl + 1 - length c) None"
  have p: "chain_sim (?p c) (?p d)" using chain_sim_pad chain_sim_length assms(2) by metis
  have "chain_sim (take lvl (?p c)) (take lvl (?p d))" "chain_sim (drop lvl (?p c)) (drop lvl (?p d))"
    using p list_all2_takeI list_all2_dropI unfolding chain_sim_def by blast+
  moreover from this(2) have "chain_sim
      (carry_from sha \<lparr>interior = (lvl \<noteq> 0), val = v\<rparr> (drop lvl (?p c)))
      (carry_from sha \<lparr>interior = (lvl \<noteq> 0), val = w\<rparr> (drop lvl (?p d)))"
    by (rule carry_sim[OF assms(1)]) (use assms in \<open>auto simp: node_sim_def\<close>)
  ultimately show ?thesis unfolding calc_insert_carry chain_sim_def by (intro list_all2_appendI)
qed

lemma insert_inj:
  assumes "inj_on sha S" "\<And>x. length (sha x) = 32" "chain_sim c d" "length v = 32" "length w = 32"
    "calc_insert sha lvl v c = calc_insert sha lvl w d"
    "set (insert_pre sha lvl v c) \<subseteq> S" "set (insert_pre sha lvl w d) \<subseteq> S"
  shows "v = w \<and> c = d"
proof -
  let ?p = "\<lambda>c. c @ replicate (lvl + 1 - length c) None"
  have len: "length c = length d" using chain_sim_length[OF assms(3)] .
  have p: "chain_sim (?p c) (?p d)" using chain_sim_pad[OF assms(3)] len by simp
  have lt: "length (take lvl (?p c)) = length (take lvl (?p d))" using len by simp
  have e: "take lvl (?p c) = take lvl (?p d)"
    "carry_from sha \<lparr>interior = (lvl \<noteq> 0), val = v\<rparr> (drop lvl (?p c)) =
     carry_from sha \<lparr>interior = (lvl \<noteq> 0), val = w\<rparr> (drop lvl (?p d))"
    using iffD1[OF append_eq_append_conv[OF disjI1[OF lt]] assms(6)[unfolded calc_insert_carry]]
    by blast+
  have "chain_sim (drop lvl (?p c)) (drop lvl (?p d))"
    using p list_all2_dropI unfolding chain_sim_def by blast
  from carry_inj[OF assms(1,2) this _ e(2)] assms(4,5,7,8)
  have "v = w" "drop lvl (?p c) = drop lvl (?p d)" by (auto simp: node_sim_def insert_pre_def)
  then have "?p c = ?p d" using e(1) by (metis append_take_drop_id)
  then show ?thesis using \<open>v = w\<close> len by simp
qed

lemma run_sim:
  assumes "\<And>x. length (sha x) = 32"
  shows "length vs = length xs \<Longrightarrow> length ws = length xs \<Longrightarrow> chain_sim c d \<Longrightarrow>
    \<forall>v\<in>set vs. length v = 32 \<Longrightarrow> \<forall>v\<in>set ws. length v = 32 \<Longrightarrow>
    chain_sim (calc_run sha c (zip xs vs)) (calc_run sha d (zip xs ws))"
proof (induction xs arbitrary: vs ws c d)
  case (Cons x xs)
  obtain v vs' w ws' where "vs = v # vs'" "ws = w # ws'"
    using Cons.prems by (cases vs; cases ws) auto
  then show ?case using Cons.IH[of vs' ws'] Cons.prems insert_sim[OF assms, of c d v w]
    by (simp add: calc_run_def)
qed (simp add: calc_run_def)

lemma run_inj:
  assumes "inj_on sha S" "\<And>x. length (sha x) = 32"
  shows "length vs = length xs \<Longrightarrow> length ws = length xs \<Longrightarrow> chain_sim c d \<Longrightarrow>
    \<forall>v\<in>set vs. length v = 32 \<Longrightarrow> \<forall>v\<in>set ws. length v = 32 \<Longrightarrow>
    calc_run sha c (zip xs vs) = calc_run sha d (zip xs ws) \<Longrightarrow>
    set (run_pre sha c (zip xs vs)) \<subseteq> S \<Longrightarrow> set (run_pre sha d (zip xs ws)) \<subseteq> S \<Longrightarrow>
    vs = ws \<and> c = d"
proof (induction xs arbitrary: vs ws c d)
  case (Cons x xs)
  obtain v vs' w ws' where vw: "vs = v # vs'" "ws = w # ws'"
    using Cons.prems by (cases vs; cases ws) auto
  let ?c = "calc_insert sha (level x) v c" and ?d = "calc_insert sha (level x) w d"
  have "vs' = ws' \<and> ?c = ?d"
    by (rule Cons.IH) (use Cons.prems vw insert_sim[OF assms(2), of c d v w] in \<open>auto simp: calc_run_def\<close>)
  moreover from this have "v = w \<and> c = d"
    by (intro insert_inj[OF assms]) (use Cons.prems vw in auto)
  ultimately show ?case using vw by simp
qed (simp add: calc_run_def)

lemma fold_inj:
  assumes "inj_on sha S" "\<And>x. length (sha x) = 32"
  shows "chain_sim c d \<Longrightarrow> node_sim a b \<Longrightarrow>
    val (foldl (\<lambda>acc nd. case nd of None \<Rightarrow> acc | Some l \<Rightarrow> treeHash sha l acc) a c) =
    val (foldl (\<lambda>acc nd. case nd of None \<Rightarrow> acc | Some l \<Rightarrow> treeHash sha l acc) b d) \<Longrightarrow>
    set (fold_pre sha a c) \<subseteq> S \<Longrightarrow> set (fold_pre sha b d) \<subseteq> S \<Longrightarrow> a = b \<and> c = d"
proof (induction c arbitrary: d a b)
  case Nil
  then show ?case by (cases d) (auto simp: node_sim_def intro: node.equality)
next
  case (Cons x c)
  obtain y d' where d: "d = y # d'" using Cons.prems(1) by (cases d) auto
  show ?case
  proof (cases x)
    case None
    then show ?thesis using Cons.prems d Cons.IH[of d' a b] by (cases y) auto
  next
    case (Some l)
    then obtain l' where y: "y = Some l'" "node_sim l l'" using Cons.prems(1) d by (cases y) auto
    have "treeHash sha l a = treeHash sha l' b \<and> c = d'"
      by (rule Cons.IH) (use Cons.prems d Some y node_sim_treeHash[OF assms(2)] in auto)
    moreover from this have "l = l' \<and> a = b"
      by (intro treeHash_inj[OF assms(1)]) (use Cons.prems d Some y in \<open>auto simp: node_sim_def\<close>)
    ultimately show ?thesis using Some d y by simp
  qed
qed

lemma root_inj:
  assumes "inj_on sha S" "\<And>x. length (sha x) = 32"
  shows "chain_sim c d \<Longrightarrow> calc_root sha c = Inr r \<Longrightarrow> calc_root sha d = Inr r \<Longrightarrow>
    set (root_pre sha c) \<subseteq> S \<Longrightarrow> set (root_pre sha d) \<subseteq> S \<Longrightarrow> c = d"
proof (induction c arbitrary: d)
  case Nil
  then show ?case by (cases d) auto
next
  case (Cons x c)
  obtain y d' where d: "d = y # d'" using Cons.prems(1) by (cases d) auto
  show ?case
  proof (cases x)
    case None
    then have y: "y = None" using Cons.prems(1) d by (cases y) auto
    have "c \<noteq> []" "d' \<noteq> []" using Cons.prems(2,3) d None y by (auto simp: calc_root_def)
    then have "c = d'"
      by (intro Cons.IH) (use Cons.prems d None y in \<open>auto simp: calc_root_def root_pre_def\<close>)
    then show ?thesis using d None y by simp
  next
    case (Some l)
    then obtain l' where y: "y = Some l'" "node_sim l l'" using Cons.prems(1) d by (cases y) auto
    have "l = l' \<and> c = d'"
      by (rule fold_inj[OF assms]) (use Cons.prems d Some y in \<open>auto simp: calc_root_def root_pre_def\<close>)
    then show ?thesis using Some d y by simp
  qed
qed

lemma sub_blocks_tiles:
  assumes "0 < m" "m < n" shows "\<exists>a. tiles n a (sub_blocks m n True)"
proof (cases "is_pow2 m")
  case True
  then have e: "m = 2 ^ clog m" by (simp add: is_pow2_def)
  have "2 ^ clog m \<le> n" using e assms(2) by linarith
  from sub_blocks_pow2[OF this] show ?thesis unfolding e[symmetric] by blast
next
  case False
  then obtain B where "sub_blocks m n True = full_blocks 0 m @ B" "tiles n m B"
    using sub_blocks_other[of m True n] assms by auto
  then show ?thesis using full_blocks_tiles[of 0 m n B] assms by auto
qed

lemma tiles_below: "tiles n a bs \<Longrightarrow> (s, j) \<in> set bs \<Longrightarrow> s < n"
  by (induction bs arbitrary: a) auto

lemma length_node_value:
  assumes "0 < unat m" "unat m < unat n" "unat n \<le> 2 ^ 63" "length new = unat n"
    "\<forall>h\<in>set new. length h = 32" "\<And>x. length (sha x) = 32"
    "consistencyProofNodes m n = Inr ids" "x \<in> set ids"
  shows "length (node_value sha new x) = 32"
proof -
  have "map unat ids = map blk_id (sub_blocks (unat m) (unat n) True)"
    using subProof_at[of m n True] assms by (auto simp: consistencyProofNodes_def)
  moreover have "unat x \<in> set (map unat ids)" using assms(8) by simp
  ultimately obtain s j where b: "(s, j) \<in> set (sub_blocks (unat m) (unat n) True)" "unat x = nid_at s j"
    by (auto simp: blk_id_def)
  obtain a where t: "tiles (unat n) a (sub_blocks (unat m) (unat n) True)"
    using sub_blocks_tiles assms(1,2) by blast
  have "take (2 ^ j) (drop s new) \<noteq> []" using tiles_below[OF t b(1)] assms(4) by simp
  moreover have "\<forall>h\<in>set (take (2 ^ j) (drop s new)). length h = 32"
    using assms(5) by (auto dest!: in_set_takeD in_set_dropD)
  ultimately show ?thesis
    using node_value_at[OF b(2) tiles_aligned[OF t b(1)]] length_val_mtree[OF assms(6)]
    by (simp add: block_value_def log_root_def)
qed

lemma insert_pre_empty [simp]: "insert_pre sha lvl v [] = []"
  by (simp only: insert_pre_def append_Nil list.size diff_zero drop_replicate) simp

lemma zip_take_left: "zip xs (take (length xs) ys) = zip xs ys"
  by (induction xs arbitrary: ys) (auto, case_tac ys, auto)

text \<open>
C1. An accepted consistency proof of the log tree shows that the old log is a prefix of
  the new one: if verifyConsistency accepts a proof from the root of a log of m leaves to
  the root of a log of n leaves, the m old leaves are the first m new ones, unless SHA-256
  collides on a preimage hashed for the two checks or the two roots of size m.
\<close>

theorem verifyConsistency_sound:
  assumes m: "0 < unat m" "unat m < unat n" "unat n \<le> 2 ^ 63"
    and old: "length old = unat m" "\<forall>h\<in>set old. length h = 32"
    and new: "length new = unat n" "\<forall>h\<in>set new. length h = 32"
    and proof_len: "\<forall>h\<in>set proof. length h = 32"
    and sha: "\<And>x. length (sha x) = 32"
    and inj: "inj_on sha (set (check_pre sha m n proof (log_root sha old)) \<union>
      (case consistencyProofNodes m n of Inl e \<Rightarrow> {} | Inr ids \<Rightarrow>
         set (check_pre sha m n (map (node_value sha new) ids) (log_root sha (take (unat m) new)))) \<union>
      set (mtree_pre sha old) \<union> set (mtree_pre sha (take (unat m) new)))"
    and ok: "verifyConsistency sha m n proof (log_root sha old) (log_root sha new) = None"
  shows "old = take (unat m) new"
proof -
  obtain ids path where P:
    "consistencyProofNodes m n = Inr ids" "fullSubtrees (treeRoot m) m [] = Inr path"
    "length path = 1 \<longleftrightarrow> is_pow2 (unat m)"
    "\<not> is_pow2 (unat m) \<Longrightarrow> \<exists>B. sub_blocks (unat m) (unat n) True = full_blocks 0 (unat m) @ B \<and>
       tiles (unat n) (unat m) B \<and> ids = path @ drop (length path) ids"
    by (rule proof_nodes[OF m]) blast
  note H = honest_run[OF m new(1) P(1,2), of sha]
  let ?hon = "map (node_value sha new) ids" and ?tm = "take (unat m) new"
  define S where "S = set (check_pre sha m n proof (log_root sha old)) \<union>
      set (check_pre sha m n ?hon (log_root sha ?tm)) \<union>
      set (mtree_pre sha old) \<union> set (mtree_pre sha ?tm)"
  have injS: "inj_on sha S" using inj by (simp add: S_def P(1))
  have der: "deriveRoot sha m n proof (log_root sha old) = Inr (log_root sha new)"
    using ok by (auto simp: verifyConsistency_def split: sum.splits if_splits)
  have g: "\<not> (m = 0 \<or> m \<ge> n)" using m by (auto simp: unat_le_iff)
  have lp: "length proof = length ids"
    using der P(1) g by (auto simp: deriveRoot_def split: if_splits)
  have ne: "old \<noteq> []" "?tm \<noteq> []" "new \<noteq> []" using old new m by auto
  have l32: "length (log_root sha xs) = 32" if "xs \<noteq> []" "\<forall>h\<in>set xs. length h = 32" for xs
    using length_val_mtree[OF sha that] by (simp add: log_root_def)
  have tm32: "\<forall>h\<in>set ?tm. length h = 32" using new(2) by (auto dest: in_set_takeD)
  have hon32: "\<forall>h\<in>set ?hon. length h = 32"
    using length_node_value[OF m new sha P(1)] by auto
  have "log_root sha old = log_root sha ?tm"
  proof (cases "is_pow2 (unat m)")
    case True
    let ?l = "level (treeRoot m)"
    let ?c = "calc_insert sha ?l (log_root sha old) []" and ?d = "calc_insert sha ?l (log_root sha ?tm) []"
    have sim: "chain_sim ?c ?d"
      by (rule insert_sim[OF sha]) (use l32 ne old(2) tm32 in auto)
    have pre: "check_pre sha m n proof (log_root sha old) =
        run_pre sha ?c (zip ids proof) @ root_pre sha (calc_run sha ?c (zip ids proof))"
      "check_pre sha m n ?hon (log_root sha ?tm) =
        run_pre sha ?d (zip ids ?hon) @ root_pre sha (calc_run sha ?d (zip ids ?hon))"
      using P True by (simp_all add: check_pre_def Let_def)
    have "calc_run sha ?c (zip ids proof) = calc_run sha ?d (zip ids ?hon)"
    proof (rule root_inj[OF injS sha])
      show "chain_sim (calc_run sha ?c (zip ids proof)) (calc_run sha ?d (zip ids ?hon))"
        by (rule run_sim[OF sha lp _ sim proof_len hon32]) simp
      show "calc_root sha (calc_run sha ?c (zip ids proof)) = Inr (log_root sha new)"
        using der P True g lp by (simp add: deriveRoot_def)
      show "calc_root sha (calc_run sha ?d (zip ids ?hon)) = Inr (log_root sha new)"
        using H(1) True by simp
    qed (use pre in \<open>auto simp: S_def\<close>)
    from run_inj[OF injS sha lp _ sim proof_len hon32 this] pre
    have cd: "?c = ?d" by (auto simp: S_def)
    have "log_root sha old = log_root sha ?tm \<and> ([] :: chain) = []"
      by (rule insert_inj[OF injS sha _ _ _ cd]) (use l32 ne old(2) tm32 in auto)
    then show ?thesis by simp
  next
    case False
    let ?k = "length path"
    have e: "ids = path @ drop ?k ids" using P(4) False by blast
    have k: "?k \<le> length ids" by (subst e) simp
    let ?c = "calc_run sha [] (zip path (take ?k proof))" and ?d = "calc_run sha [] (zip path (take ?k ?hon))"
    let ?z = "zip (drop ?k ids) (drop ?k proof)" and ?y = "zip (drop ?k ids) (drop ?k ?hon)"
    have th: "take ?k ?hon = map (node_value sha new) path" by (subst e) simp
    have "path_loop sha ids proof (length ([] :: u64 list)) path [] =
        Inr (calc_run sha [] (zip path (drop (length ([] :: u64 list)) proof)))"
      by (rule path_loop_ok) (use e lp in auto)
    then have pl: "path_loop sha ids proof 0 path [] = Inr ?c" by (simp add: zip_take_left)
    have roots: "calc_root sha ?c = Inr (log_root sha old)"
      "calc_root sha (calc_run sha ?c ?z) = Inr (log_root sha new)"
      using der P False g lp pl by (auto simp: deriveRoot_def drop_zip split: sum.splits if_splits)
    have hroots: "calc_root sha ?d = Inr (log_root sha ?tm)"
      "calc_root sha (calc_run sha ?d ?y) = Inr (log_root sha new)"
      using H(2)[OF False] unfolding th by (simp_all add: drop_map)
    have pre: "check_pre sha m n proof (log_root sha old) =
        run_pre sha [] (zip path (take ?k proof)) @ root_pre sha ?c @ run_pre sha ?c ?z @
        root_pre sha (calc_run sha ?c ?z)"
      "check_pre sha m n ?hon (log_root sha ?tm) =
        run_pre sha [] (zip path (take ?k ?hon)) @ root_pre sha ?d @ run_pre sha ?d ?y @
        root_pre sha (calc_run sha ?d ?y)"
      using P False by (simp_all add: check_pre_def Let_def zip_take_left drop_zip)
    have p32: "\<forall>h\<in>set (take ?k proof). length h = 32" "\<forall>h\<in>set (drop ?k proof). length h = 32"
      "\<forall>h\<in>set (take ?k ?hon). length h = 32" "\<forall>h\<in>set (drop ?k ?hon). length h = 32"
      by (meson proof_len hon32 in_set_takeD in_set_dropD)+
    have sim: "chain_sim ?c ?d"
      by (rule run_sim[OF sha]) (use lp k p32 in auto)
    have "calc_run sha ?c ?z = calc_run sha ?d ?y"
    proof (rule root_inj[OF injS sha _ roots(2) hroots(2)])
      show "chain_sim (calc_run sha ?c ?z) (calc_run sha ?d ?y)"
        by (rule run_sim[OF sha _ _ sim]) (use lp k p32 in auto)
    qed (use pre in \<open>auto simp: S_def\<close>)
    then have "drop ?k proof = drop ?k ?hon \<and> ?c = ?d"
      by (intro run_inj[OF injS sha _ _ sim]) (use lp k p32 pre in \<open>auto simp: S_def\<close>)
    then show ?thesis using roots(1) hroots(1) by simp
  qed
  then show ?thesis
    unfolding log_root_def
    by (intro log_root_inj[OF injS sha]) (use old new(1) m ne tm32 in \<open>auto simp: S_def\<close>)
qed

lemma deriveRoot_complete_witness:
  "\<exists>ids. consistencyProofNodes 3 7 = Inr ids \<and>
    deriveRoot toy_sha 3 7 (map (node_value toy_sha (map h32 [1, 2, 3, 4, 5, 6, 7])) ids)
      (log_root toy_sha (take 3 (map h32 [1, 2, 3, 4, 5, 6, 7]))) =
      Inr (log_root toy_sha (map h32 [1, 2, 3, 4, 5, 6, 7]))"
  using deriveRoot_complete[of 3 7 "map h32 [1, 2, 3, 4, 5, 6, 7]" toy_sha] by simp

definition ex_log :: "hash list" where "ex_log = map h32 [1, 2, 3, 4, 5]"
definition ex_proof :: "hash list" where
  "ex_proof = map (node_value toy_sha ex_log) [1, 4, 6, 8]"
lemma ex_nodes: "consistencyProofNodes 3 5 = Inr [1,4,6,8]"
  by code_simp
lemma verifyConsistency_sound_witness:
  "verifyConsistency toy_sha 3 5 ex_proof (log_root toy_sha (take 3 ex_log)) (log_root toy_sha ex_log) = None \<and>
   take 3 ex_log = take (unat (3 :: u64)) ex_log"
proof -
  have v: "verifyConsistency toy_sha 3 5 ex_proof (log_root toy_sha (take 3 ex_log)) (log_root toy_sha ex_log) = None"
    by code_simp
  have d: "distinct (map toy_sha (remdups
      (check_pre toy_sha 3 5 ex_proof (log_root toy_sha (take 3 ex_log)) @
       check_pre toy_sha 3 5 (map (node_value toy_sha ex_log) [1, 4, 6, 8]) (log_root toy_sha (take (unat (3 :: u64)) ex_log)) @
       mtree_pre toy_sha (take 3 ex_log) @ mtree_pre toy_sha (take (unat (3 :: u64)) ex_log))))"
    by code_simp
  have l: "\<forall>h\<in>set ex_proof. length h = 32" by code_simp
  have n: "length ex_log = 5" "\<forall>h\<in>set ex_log. length h = 32" by (simp_all add: ex_log_def)
  have inj: "inj_on toy_sha (set (check_pre toy_sha 3 5 ex_proof (log_root toy_sha (take 3 ex_log))) \<union>
      (case consistencyProofNodes 3 5 of Inl e \<Rightarrow> {} | Inr ids \<Rightarrow>
         set (check_pre toy_sha 3 5 (map (node_value toy_sha ex_log) ids)
           (log_root toy_sha (take (unat (3 :: u64)) ex_log)))) \<union>
      set (mtree_pre toy_sha (take 3 ex_log)) \<union> set (mtree_pre toy_sha (take (unat (3 :: u64)) ex_log)))"
    unfolding ex_nodes sum.case using inj_on_setI[OF d] by (simp only: set_append Un_assoc)
  have m: "0 < unat (3 :: u64)" "unat (3 :: u64) < unat (5 :: u64)" "unat (5 :: u64) \<le> 2 ^ 63"
    by simp_all
  have e: "length (take 3 ex_log) = unat (3 :: u64)" "length ex_log = unat (5 :: u64)"
    using n(1) by simp_all
  have o: "\<forall>h\<in>set (take 3 ex_log). length h = 32" using n(2) by (meson in_set_takeD)
  from v show ?thesis
    using verifyConsistency_sound[OF m e(1) o e(2) n(2) l length_toy_sha inj v] by (rule conjI)
qed

end
