(* ===== verification/Log_Frontier.thy ===== *)
theory Log_Frontier
  imports Log_Consistency
begin

text \<open>
  The auditor's side of the log tree, \<open>internal/source/signal/frontier.go\<close>: the roots of
  the maximal full subtrees, appended to by a carry loop over the bits of the size.  The
  interface \<open>log_accumulator\<close> says what a caller relies on, an append-only accumulator
  whose root is the reference root; both the frontier here and the root calculator of
  \<open>logtree.go\<close> provide it.
\<close>

record LogFrontier =
  lsize :: u64
  subtrees :: "hash list"

datatype frontier_error = CountMismatch u64 nat nat | SizeOverflow | EmptyLog | IndexPanic

definition empty_frontier :: LogFrontier where
  "empty_frontier = \<lparr>lsize = 0, subtrees = []\<rparr>"

definition NewLogFrontier :: "u64 \<Rightarrow> hash list \<Rightarrow> frontier_error + LogFrontier" where
  "NewLogFrontier sz subs =
     (let want = OnesCount64 sz
      in if length subs \<noteq> want then Inl (CountMismatch sz want (length subs))
         else Inr \<lparr>lsize = sz, subtrees = subs\<rparr>)"

text \<open>
  The loop \<open>for s, lvl := f.size, 0; s&1 == 1; s, lvl = s>>1, lvl+1\<close>.  \<open>None\<close> is the
  panic of indexing an empty \<open>subtrees\<close>.
\<close>

function append_loop :: "(bytes \<Rightarrow> hash) \<Rightarrow> u64 \<Rightarrow> nat \<Rightarrow> hash list \<Rightarrow> node \<Rightarrow> (hash list \<times> node) option" where
  "append_loop sha s lvl subs carry =
     (if s AND 1 = 1 then
        (if subs = [] then None
         else append_loop sha (drop_bit 1 s) (lvl + 1) (butlast subs)
                (treeHash sha \<lparr>interior = lvl > 0, val = last subs\<rparr> carry))
      else Some (subs, carry))"
  by pat_completeness auto
termination
proof (relation "measure (\<lambda>(sha, s, lvl, subs, carry). unat s)")
  fix s :: u64 assume "s AND 1 = 1"
  then have "s \<noteq> 0" by auto
  then have "0 < unat s" by (simp add: unat_gt_0)
  then have "unat (drop_bit 1 s) < unat s" by (simp only: unat_drop_bit) simp
  then show "((sha, drop_bit 1 s, lvl + 1, butlast subs, treeHash sha \<lparr>interior = lvl > 0, val = last subs\<rparr> c),
      sha, s, lvl, subs, c) \<in> measure (\<lambda>(sha, s, lvl, subs, carry). unat s)" for sha lvl subs c
    by simp
qed simp

declare append_loop.simps [simp del]

definition Append :: "(bytes \<Rightarrow> hash) \<Rightarrow> LogFrontier \<Rightarrow> hash \<Rightarrow> frontier_error + LogFrontier" where
  "Append sha f leaf =
     (if lsize f = - 1 then Inl SizeOverflow
      else case append_loop sha (lsize f) 0 (subtrees f) \<lparr>interior = False, val = leaf\<rparr> of
             None \<Rightarrow> Inl IndexPanic
           | Some (subs, carry) \<Rightarrow> Inr \<lparr>lsize = lsize f + 1, subtrees = subs @ [val carry]\<rparr>)"

definition Root :: "(bytes \<Rightarrow> hash) \<Rightarrow> LogFrontier \<Rightarrow> frontier_error + hash" where
  "Root sha f =
     (if lsize f = 0 then Inl EmptyLog
      else if subtrees f = [] then Inl IndexPanic
      else Inr (val (foldr (\<lambda>s acc. treeHash sha \<lparr>interior = True, val = s\<rparr> acc)
                 (butlast (subtrees f))
                 \<lparr>interior = (lsize f AND 1 = 0), val = last (subtrees f)\<rparr>)))"

subsection \<open>What a caller relies on\<close>

locale log_accumulator =
  fixes rep :: "'s \<Rightarrow> 'a list \<Rightarrow> bool"
    and emp :: 's
    and app :: "'s \<Rightarrow> 'a \<Rightarrow> 'e + 's"
    and rt :: "'s \<Rightarrow> 'f + 'h"
    and root_of :: "'a list \<Rightarrow> 'h"
    and cap :: nat
  assumes emp: "rep emp []"
    and app: "rep s ls \<Longrightarrow> length ls < cap \<Longrightarrow> \<exists>t. app s x = Inr t \<and> rep t (ls @ [x])"
    and rt: "rep s ls \<Longrightarrow> ls \<noteq> [] \<Longrightarrow> rt s = Inr (root_of ls)"
begin

fun append_all :: "'s \<Rightarrow> 'a list \<Rightarrow> 'e + 's" where
  "append_all s [] = Inr s"
| "append_all s (x # xs) = (case app s x of Inl e \<Rightarrow> Inl e | Inr t \<Rightarrow> append_all t xs)"

lemma append_all_rep:
  "rep s ls \<Longrightarrow> length ls + length xs \<le> cap \<Longrightarrow> \<exists>t. append_all s xs = Inr t \<and> rep t (ls @ xs)"
proof (induction xs arbitrary: s ls)
  case (Cons x xs)
  then obtain t where t: "app s x = Inr t" "rep t (ls @ [x])" using app[of s ls x] by auto
  with Cons.IH[OF t(2)] Cons.prems(2) show ?case by auto
qed simp

lemma append_all_root:
  assumes "xs \<noteq> []" "length xs \<le> cap"
  shows "\<exists>t. append_all emp xs = Inr t \<and> rt t = Inr (root_of xs)"
  using append_all_rep[OF emp, of xs] rt assms by auto

end

subsection \<open>The frontier provides it\<close>

definition frontier_rep :: "(bytes \<Rightarrow> hash) \<Rightarrow> LogFrontier \<Rightarrow> hash list \<Rightarrow> bool" where
  "frontier_rep sha f ls \<longleftrightarrow>
     (\<exists>fs. fr_wf 0 fs \<and> fr_leaves fs = ls \<and> unat (lsize f) = length ls \<and>
       subtrees f = rev (map (\<lambda>(k, x). val (mtree sha x)) fs))"

lemma and_1: "s AND 1 = 1 \<longleftrightarrow> odd (unat s)" for s :: u64
proof -
  have "s AND 1 = 1 \<longleftrightarrow> odd s" by (simp add: and_one_eq odd_iff_mod_2_eq_one)
  also have "\<dots> \<longleftrightarrow> odd (unat s)" by (metis bit_0 bit_div_pow)
  finally show ?thesis .
qed

lemma fr_wf_odd:
  "fr_wf l fs \<Longrightarrow> fr_size fs = 2 ^ l * s \<Longrightarrow>
   (if odd s then \<exists>x gs. fs = (l, x) # gs \<and> fr_wf (Suc l) gs \<and> length x = 2 ^ l \<and> fr_size gs = 2 ^ Suc l * (s div 2)
    else fr_wf (Suc l) fs)"
proof (cases fs)
  case (Cons f gs)
  assume w: "fr_wf l fs" and s: "fr_size fs = 2 ^ l * s"
  obtain k x where f: "f = (k, x)" by (cases f)
  have k: "l \<le> k" "length x = 2 ^ k" "fr_wf (Suc k) gs" using w Cons f by auto
  obtain r where r: "fr_size gs = 2 ^ Suc k * r" using fr_size_dvd[OF k(3)] by auto
  have "2 ^ l * s = 2 ^ l * (2 ^ (k - l) * (1 + 2 * r))"
    using s Cons f r k(1) by (simp add: algebra_simps flip: power_add)
  then have sk: "s = 2 ^ (k - l) * (1 + 2 * r)" by simp
  show ?thesis
  proof (cases "k = l")
    case True
    then show ?thesis using sk k Cons f r by auto
  next
    case False
    then have "even s" using sk k(1) by (auto simp: even_mult_iff)
    then show ?thesis using False k Cons f by auto
  qed
qed simp

lemma interior_mtree_full: "length x = 2 ^ k \<Longrightarrow> interior (mtree sha x) \<longleftrightarrow> 0 < k"
proof -
  assume l: "length x = 2 ^ k"
  then have "x \<noteq> []" by auto
  moreover have "1 < (2::nat) ^ k \<longleftrightarrow> 0 < k"
    using power_strict_increasing_iff[of "2::nat" 0 k] by simp
  ultimately show ?thesis using interior_mtree[of x sha] l by simp
qed

lemma append_loop_rep:
  "fr_wf l fs \<Longrightarrow> fr_size fs = 2 ^ l * unat s \<Longrightarrow> b \<noteq> [] \<Longrightarrow> length b = 2 ^ l \<Longrightarrow>
   \<exists>subs carry. append_loop sha s l (rev (map (\<lambda>(k, x). val (mtree sha x)) fs)) (mtree sha b) = Some (subs, carry) \<and>
     subs @ [val carry] = rev (map (\<lambda>(k, x). val (mtree sha x)) (fr_add l b fs))"
proof (induction "unat s" arbitrary: s l fs b rule: less_induct)
  case less
  let ?vals = "\<lambda>fs. rev (map (\<lambda>(k, x). val (mtree sha x)) fs)"
  show ?case
  proof (cases "odd (unat s)")
    case False
    then have "fr_add l b fs = (l, b) # fs"
      using fr_wf_odd[OF less.prems(1,2)] by (cases fs) auto
    then show ?thesis using False by (subst append_loop.simps) (simp add: and_1)
  next
    case True
    then obtain x gs where fs: "fs = (l, x) # gs" and g: "fr_wf (Suc l) gs" "length x = 2 ^ l"
      "fr_size gs = 2 ^ Suc l * (unat s div 2)"
      using fr_wf_odd[OF less.prems(1,2)] by auto
    have d: "unat (drop_bit 1 s) = unat s div 2" by (simp only: unat_drop_bit) simp
    have lt: "unat (drop_bit 1 s) < unat s" using True unfolding d by (simp add: odd_pos)
    have nd: "\<lparr>interior = 0 < l, val = val (mtree sha x)\<rparr> = mtree sha x"
      by (rule node.equality) (simp_all add: interior_mtree_full[OF g(2)])
    have j: "treeHash sha (mtree sha x) (mtree sha b) = mtree sha (x @ b)"
      unfolding mtree_def
      using mth_join[OF g(2), of b leaf_node "treeHash sha"] less.prems(3,4) by simp
    obtain subs carry where r:
      "append_loop sha (drop_bit 1 s) (Suc l) (?vals gs) (mtree sha (x @ b)) = Some (subs, carry)"
      "subs @ [val carry] = ?vals (fr_add (Suc l) (x @ b) gs)"
      using less.hyps[OF lt, of "Suc l" gs "x @ b"] g d less.prems(3,4) by auto
    have "append_loop sha s l (?vals fs) (mtree sha b) = Some (subs, carry)"
      using True r(1) by (subst append_loop.simps) (simp add: and_1 fs nd j)
    then show ?thesis using r(2) by (auto simp: fs)
  qed
qed

lemma Append_rep:
  assumes r: "frontier_rep sha f ls" and c: "length ls < 2 ^ 64 - 1"
  shows "\<exists>g. Append sha f leaf = Inr g \<and> frontier_rep sha g (ls @ [leaf])"
proof -
  obtain fs where fs: "fr_wf 0 fs" "fr_leaves fs = ls" "unat (lsize f) = length ls"
    "subtrees f = rev (map (\<lambda>(k, x). val (mtree sha x)) fs)" using r by (auto simp: frontier_rep_def)
  have sz: "fr_size fs = 2 ^ 0 * unat (lsize f)" using length_fr_leaves[OF fs(1)] fs(2,3) by simp
  have lf: "mtree sha [leaf] = \<lparr>interior = False, val = leaf\<rparr>"
    by (simp add: mtree_def leaf_node_def)
  obtain subs carry where l: "append_loop sha (lsize f) 0 (subtrees f) \<lparr>interior = False, val = leaf\<rparr> = Some (subs, carry)"
    "subs @ [val carry] = rev (map (\<lambda>(k, x). val (mtree sha x)) (fr_add 0 [leaf] fs))"
    using append_loop_rep[OF fs(1) sz, of "[leaf]" sha] fs(4) lf by auto
  have "unat (- 1 :: u64) = 2 ^ 64 - 1" by (simp add: unsigned_minus_1_eq_mask mask_eq_exp_minus_1)
  then have ne: "lsize f \<noteq> - 1" using fs(3) c by auto
  have "unat (lsize f + 1) = length ls + 1"
    using fs(3) c by (subst unat_add_small) simp_all
  then have "frontier_rep sha \<lparr>lsize = lsize f + 1, subtrees = subs @ [val carry]\<rparr> (ls @ [leaf])"
    unfolding frontier_rep_def
    by (intro exI[of _ "fr_add 0 [leaf] fs"]) (use fs l(2) fr_wf_add[of "[leaf]" 0 fs] in \<open>simp add: fr_leaves_add\<close>)
  then show ?thesis using ne l(1) by (simp add: Append_def)
qed

lemma foldr_fr_fold:
  "fr_wf (Suc l) fs \<Longrightarrow>
   foldr (\<lambda>s acc. treeHash sha \<lparr>interior = True, val = s\<rparr> acc) (rev (map (\<lambda>(k, x). val (mtree sha x)) fs)) acc =
   fr_fold (mtree sha) (treeHash sha) acc fs"
proof (induction fs arbitrary: l acc)
  case (Cons f fs)
  obtain k x where f: "f = (k, x)" by (cases f)
  have w: "Suc l \<le> k" "length x = 2 ^ k" "fr_wf (Suc k) fs" using Cons.prems f by auto
  have "\<lparr>interior = True, val = val (mtree sha x)\<rparr> = mtree sha x"
    using w(1) by (intro node.equality) (simp_all add: interior_mtree_full[OF w(2)])
  then show ?case using Cons.IH[OF w(3)] by (simp add: f)
qed simp

lemma Root_rep:
  assumes r: "frontier_rep sha f ls" and ne: "ls \<noteq> []"
  shows "Root sha f = Inr (log_root sha ls)"
proof -
  obtain fs where fs: "fr_wf 0 fs" "fr_leaves fs = ls" "unat (lsize f) = length ls"
    "subtrees f = rev (map (\<lambda>(k, x). val (mtree sha x)) fs)" using r by (auto simp: frontier_rep_def)
  obtain k x gs where c: "fs = (k, x) # gs" using fs(2) ne by (cases fs) auto
  have w: "length x = 2 ^ k" "fr_wf (Suc k) gs" using fs(1) c by auto
  have sz: "fr_size fs = 2 ^ 0 * unat (lsize f)" using length_fr_leaves[OF fs(1)] fs(2,3) by simp
  have od: "odd (unat (lsize f)) \<longleftrightarrow> k = 0"
    using fr_wf_odd[OF fs(1) sz] c by (auto split: if_splits)
  have "lsize f AND 1 = 0 \<longleftrightarrow> \<not> odd (unat (lsize f))"
    using and_1[of "lsize f"] by (metis and_one_eq mod2_eq_if one_neq_zero)
  then have nd: "\<lparr>interior = (lsize f AND 1 = 0), val = val (mtree sha x)\<rparr> = mtree sha x"
    using od by (intro node.equality) (simp_all add: interior_mtree_full[OF w(1)])
  have nz: "lsize f \<noteq> 0" using fs(3) ne by auto
  have "fr_fold (mtree sha) (treeHash sha) (mtree sha x) gs = mtree sha ls"
    unfolding fs(2)[symmetric] c mtree_def fr_leaves_simps
    by (rule fr_fold_mth[of x k]) (use w fr_wf_mono[OF w(2), of k] in auto)
  then show ?thesis
    using nz fs(4) c nd foldr_fr_fold[OF w(2)] by (simp add: Root_def log_root_def)
qed

lemma empty_rep: "frontier_rep sha empty_frontier []"
  unfolding frontier_rep_def empty_frontier_def by (rule exI[of _ "[]"]) simp

interpretation lf: log_accumulator "frontier_rep sha" empty_frontier "Append sha" "Root sha"
    "log_root sha" "2 ^ 64 - 1"
  by unfold_locales (auto intro: empty_rep Append_rep Root_rep)

lemma fr_size_bits: "fr_wf l fs \<Longrightarrow> bit (fr_size fs) i \<longleftrightarrow> i \<in> fst ` set fs"
proof (induction l fs rule: fr_wf.induct)
  case (2 l k x fs)
  have d: "2 ^ Suc k dvd fr_size fs" using 2 by (intro fr_size_dvd) auto
  then obtain r where r: "fr_size fs = push_bit (Suc k) r" by (auto simp: push_bit_eq_mult mult.commute)
  have "2 ^ k + fr_size fs = 2 ^ k OR fr_size fs"
    unfolding r by (rule disjunctive_add_eq_or)
      (rule bit_eqI, simp only: bit_and_iff bit_push_bit_iff_nat bit_exp_iff, auto)
  then have "bit (fr_size ((k, x) # fs)) i \<longleftrightarrow> i = k \<or> bit (fr_size fs) i"
    by (simp add: bit_or_iff bit_exp_iff)
  then show ?case using 2 by auto
qed simp

lemma fr_wf_distinct: "fr_wf l fs \<Longrightarrow> distinct (map fst fs) \<and> (\<forall>f\<in>set fs. l \<le> fst f)"
  by (induction l fs rule: fr_wf.induct) fastforce+

text \<open>The persisted form of a frontier is accepted when it is read back.\<close>

lemma NewLogFrontier_rep:
  assumes "frontier_rep sha f ls"
  shows "NewLogFrontier (lsize f) (subtrees f) = Inr f"
proof -
  obtain fs where fs: "fr_wf 0 fs" "fr_leaves fs = ls" "unat (lsize f) = length ls"
    "subtrees f = rev (map (\<lambda>(k, x). val (mtree sha x)) fs)" using assms by (auto simp: frontier_rep_def)
  have b: "bit (lsize f) i \<longleftrightarrow> i \<in> fst ` set fs" for i
    using fr_size_bits[OF fs(1)] length_fr_leaves[OF fs(1)] fs(2,3) bit_div_pow by metis
  have "set (filter (bit (lsize f)) [0..<64]) = fst ` set fs"
  proof -
    have "i < 64" if "bit (lsize f) i" for i using bit_imp_le_length[OF that] by simp
    then show ?thesis using b by (auto simp del: set_map)
  qed
  then have "card (fst ` set fs) = length (filter (bit (lsize f)) [0..<64])"
    by (metis distinct_card distinct_filter distinct_upt)
  moreover have "card (fst ` set fs) = length fs"
    using fr_wf_distinct[OF fs(1)] by (metis distinct_card length_map set_map)
  ultimately show ?thesis
    by (simp add: NewLogFrontier_def OnesCount64_def Let_def fs(4))
qed

subsection \<open>So does the root calculator\<close>

definition calc_rep :: "(bytes \<Rightarrow> hash) \<Rightarrow> chain \<Rightarrow> hash list \<Rightarrow> bool" where
  "calc_rep sha c ls \<longleftrightarrow> (\<exists>fs. chain_rep sha 0 c fs \<and> fr_wf 0 fs \<and> fr_leaves fs = ls)"

definition calc_append :: "(bytes \<Rightarrow> hash) \<Rightarrow> chain \<Rightarrow> hash \<Rightarrow> logtree_error + chain" where
  "calc_append sha c leaf = Inr (calc_insert sha 0 leaf c)"

lemma calc_append_rep:
  assumes "calc_rep sha c ls"
  shows "\<exists>d. calc_append sha c leaf = Inr d \<and> calc_rep sha d (ls @ [leaf])"
proof -
  obtain fs where fs: "chain_rep sha 0 c fs" "fr_wf 0 fs" "fr_leaves fs = ls"
    using assms by (auto simp: calc_rep_def)
  have "chain_rep sha 0 (calc_insert sha 0 (val (mtree sha [leaf])) c) (fr_add 0 [leaf] fs)"
    by (rule chain_rep_insert[OF fs(1,2)]) auto
  then have "calc_rep sha (calc_insert sha 0 leaf c) (ls @ [leaf])"
    unfolding calc_rep_def
    by (intro exI[of _ "fr_add 0 [leaf] fs"])
       (use fs fr_wf_add[of "[leaf]" 0 fs] in \<open>simp add: fr_leaves_add mtree_def leaf_node_def\<close>)
  then show ?thesis by (simp add: calc_append_def)
qed

lemma calc_root_rep: "calc_rep sha c ls \<Longrightarrow> ls \<noteq> [] \<Longrightarrow> calc_root sha c = Inr (log_root sha ls)"
  unfolding calc_rep_def using chain_rep_root fr_wf_wfp by (metis fr_leaves_simps(1))

lemma calc_empty_rep: "calc_rep sha [] []"
  unfolding calc_rep_def by (rule exI[of _ "[]"]) simp

interpretation rc: log_accumulator "calc_rep sha" "[]" "calc_append sha" "calc_root sha"
    "log_root sha" cap
  by unfold_locales (auto intro: calc_empty_rep calc_append_rep calc_root_rep)

subsection \<open>Replay\<close>

text \<open>Appending a list of leaves, stopping at the first error, on either side.\<close>

fun frontier_append_all :: "(bytes \<Rightarrow> hash) \<Rightarrow> LogFrontier \<Rightarrow> hash list \<Rightarrow> frontier_error + LogFrontier" where
  "frontier_append_all sha f [] = Inr f"
| "frontier_append_all sha f (x # xs) =
     (case Append sha f x of Inl e \<Rightarrow> Inl e | Inr g \<Rightarrow> frontier_append_all sha g xs)"

lemma frontier_append_all_lf: "frontier_append_all sha f xs = lf.append_all sha f xs"
  by (induction sha f xs rule: frontier_append_all.induct) (auto split: sum.splits)

definition calc_insert_all :: "(bytes \<Rightarrow> hash) \<Rightarrow> hash list \<Rightarrow> chain" where
  "calc_insert_all sha xs = foldl (\<lambda>c x. calc_insert sha 0 x c) [] xs"

lemma calc_insert_all_rc: "rc.append_all sha c xs = Inr (foldl (\<lambda>c x. calc_insert sha 0 x c) c xs)"
  by (induction xs arbitrary: c) (auto simp: calc_append_def)

text \<open>
C20. Appending any leaves (fewer than 2^64) to an empty frontier succeeds without a panic,
  its root is the reference root of the left-balanced tree over all of them, its size counts
  them, and its persisted form is accepted when it is read back.
\<close>

theorem frontier_root_is_log_root:
  assumes "xs \<noteq> []" "length xs < 2 ^ 64"
  shows "\<exists>f. frontier_append_all sha empty_frontier xs = Inr f \<and> Root sha f = Inr (log_root sha xs) \<and>
    NewLogFrontier (lsize f) (subtrees f) = Inr f \<and> unat (lsize f) = length xs"
proof -
  have c: "length ([] :: hash list) + length xs \<le> 2 ^ 64 - 1" using assms(2) by simp
  obtain f where f: "lf.append_all sha empty_frontier xs = Inr f" "frontier_rep sha f xs"
    using lf.append_all_rep[OF lf.emp c] by auto
  then show ?thesis
    using lf.rt[OF f(2) assms(1)] NewLogFrontier_rep[OF f(2)]
    by (auto simp: frontier_append_all_lf frontier_rep_def)
qed

lemma frontier_root_is_log_root_witness:
  "\<exists>f. frontier_append_all toy_sha empty_frontier (map h32 [1, 2, 3, 4, 5]) = Inr f \<and>
    Root toy_sha f = Inr (log_root toy_sha (map h32 [1, 2, 3, 4, 5])) \<and>
    NewLogFrontier (lsize f) (subtrees f) = Inr f \<and> unat (lsize f) = length (map h32 [1, 2, 3, 4, 5])"
  by (rule frontier_root_is_log_root) simp_all

theorem auditor_and_client_roots_agree:
  assumes "xs \<noteq> []" "length xs < 2 ^ 64"
  shows "\<exists>f. frontier_append_all sha empty_frontier xs = Inr f \<and>
    (\<exists>r. Root sha f = Inr r \<and> calc_root sha (calc_insert_all sha xs) = Inr r)"
proof -
  have c: "length xs \<le> 2 ^ 64 - 1" using assms(2) by simp
  obtain f where "lf.append_all sha empty_frontier xs = Inr f" "Root sha f = Inr (log_root sha xs)"
    using lf.append_all_root[OF assms(1) c] by auto
  moreover have "calc_root sha (calc_insert_all sha xs) = Inr (log_root sha xs)"
    using rc.append_all_root[OF assms(1) order_refl, of sha]
    by (auto simp: calc_insert_all_rc calc_insert_all_def)
  ultimately show ?thesis by (auto simp: frontier_append_all_lf)
qed

lemma auditor_and_client_roots_agree_witness:
  "\<exists>f. frontier_append_all toy_sha empty_frontier (map h32 [1, 2, 3, 4, 5]) = Inr f \<and>
    (\<exists>r. Root toy_sha f = Inr r \<and> calc_root toy_sha (calc_insert_all toy_sha (map h32 [1, 2, 3, 4, 5])) = Inr r)"
  by (rule auditor_and_client_roots_agree) simp_all

end
