(* ===== verification/Pbwire.thy ===== *)
theory Pbwire
  imports KT_Prelude
begin

text \<open>
  The protobuf reader of \<open>internal/pbwire/pbwire.go\<close>: the lenient \<open>Parse\<close> used where a
  signature over the raw bytes is checked afterwards, the strict \<open>Fields\<close> used where the
  decoded fields are themselves verified, and the two appenders that build requests.
  Offsets are kept as the source keeps them; \<open>int(n)\<close> conversions and the overflow test of
  \<open>Parse\<close> are written on \<open>int64\<close>.
\<close>

subsection \<open>Varints\<close>

text \<open>\<open>uvarint(b, i)\<close>: the loop state is the offset, the value so far and the shift.\<close>

function uvarint_loop :: "bytes \<Rightarrow> nat \<Rightarrow> u64 \<Rightarrow> nat \<Rightarrow> (u64 \<times> nat) option" where
  "uvarint_loop b i s sh =
     (if i \<ge> length b \<or> sh > 63 then None
      else let x = b ! i; s' = s OR push_bit sh (ucast (x AND 0x7f))
           in if x AND 0x80 = 0 then Some (s', Suc i)
              else uvarint_loop b (Suc i) s' (sh + 7))"
  by pat_completeness auto
termination by (relation "measure (\<lambda>(b, i, s, sh). length b - i)") auto

definition uvarint :: "bytes \<Rightarrow> nat \<Rightarrow> (u64 \<times> nat) option" where
  "uvarint b i = uvarint_loop b i 0 0"

datatype varint_error = TruncatedVarint | VarintOverflow | VarintTooLong

function strictUvarint_loop :: "bytes \<Rightarrow> nat \<Rightarrow> u64 \<Rightarrow> nat \<Rightarrow> varint_error + (u64 \<times> nat)" where
  "strictUvarint_loop b i v n =
     (if n < 10 then
        (if i \<ge> length b then Inl TruncatedVarint
         else let x = b ! i
              in if n = 9 \<and> x > 1 then Inl VarintOverflow
                 else let v' = v OR push_bit (7 * n) (ucast (x AND 0x7f))
                      in if x AND 0x80 = 0 then Inr (v', Suc i)
                         else strictUvarint_loop b (Suc i) v' (Suc n))
      else Inl VarintTooLong)"
  by pat_completeness auto
termination by (relation "measure (\<lambda>(b, i, v, n). 10 - n)") auto

definition strictUvarint :: "bytes \<Rightarrow> nat \<Rightarrow> varint_error + (u64 \<times> nat)" where
  "strictUvarint b i = strictUvarint_loop b i 0 0"

declare uvarint_loop.simps [simp del] strictUvarint_loop.simps [simp del]

lemma drop_bit_7_less: "drop_bit 7 v \<noteq> 0 \<Longrightarrow> unat (drop_bit 7 v) < unat v"
  for v :: u64
  by (auto simp: unat_drop_bit unat_eq_zero [symmetric] simp del: unat_eq_zero
      intro!: div_less_dividend)

function AppendVarint :: "bytes \<Rightarrow> u64 \<Rightarrow> bytes" where
  "AppendVarint b v =
     (let c = ucast (v AND 0x7f) :: byte; v' = drop_bit 7 v
      in if v' \<noteq> 0 then AppendVarint (b @ [c OR 0x80]) v' else b @ [c])"
  by pat_completeness auto
termination
  by (relation "measure (\<lambda>(b, v). unat v)") (auto simp: drop_bit_7_less)

declare AppendVarint.simps [simp del]

definition AppendTag :: "bytes \<Rightarrow> nat \<Rightarrow> byte \<Rightarrow> bytes" where
  "AppendTag b field wire = AppendVarint b (push_bit 3 (of_nat field) OR ucast wire)"

lemma uvarint_loop_advances: "uvarint_loop b i s sh = Some (v, j) \<Longrightarrow> i < j \<and> j \<le> length b"
proof (induction b i s sh rule: uvarint_loop.induct)
  case (1 b i s sh)
  show ?case
    using "1.prems" "1.IH"
    by (subst (asm) uvarint_loop.simps)
       (fastforce simp: Let_def split: if_splits)
qed

lemma uvarint_advances: "uvarint b i = Some (v, j) \<Longrightarrow> i < j \<and> j \<le> length b"
  unfolding uvarint_def by (rule uvarint_loop_advances)

lemma strictUvarint_loop_advances:
  "strictUvarint_loop b i v n = Inr (w, j) \<Longrightarrow> i < j \<and> j \<le> length b"
proof (induction b i v n rule: strictUvarint_loop.induct)
  case (1 b i v n)
  show ?case
    using "1.prems" "1.IH"
    by (subst (asm) strictUvarint_loop.simps)
       (fastforce simp: Let_def split: if_splits)
qed

lemma strictUvarint_advances: "strictUvarint b i = Inr (w, j) \<Longrightarrow> i < j \<and> j \<le> length b"
  unfolding strictUvarint_def by (rule strictUvarint_loop_advances)

subsection \<open>The lenient parser\<close>

text \<open>
  A \<open>Message\<close> maps a field number to its values in order of appearance; an absent key
  reads as the empty list, as a Go map of slices does.
\<close>

type_synonym Message = "nat \<Rightarrow> bytes list"

definition msg_empty :: Message where "msg_empty = (\<lambda>_. [])"

definition msg_add :: "Message \<Rightarrow> nat \<Rightarrow> bytes \<Rightarrow> Message" where
  "msg_add m f v = m(f := m f @ [v])"

text \<open>\<open>ni + int(n) > len(b) || ni + int(n) < ni\<close>, in 64-bit two's complement.\<close>

definition len_overruns :: "nat \<Rightarrow> u64 \<Rightarrow> nat \<Rightarrow> bool" where
  "len_overruns ni n len =
     (let e = sint (of_nat ni + n :: u64) in e > int len \<or> e < int ni)"

lemma len_overruns_bound:
  assumes "\<not> len_overruns ni n len"
  shows "ni + unat n \<le> len \<or> len \<ge> 2 ^ 63"
proof (rule disjCI)
  assume "\<not> len \<ge> 2 ^ 63"
  then have len: "len < 2 ^ 63" by simp
  define e where "e = sint (of_nat ni + n :: u64)"
  from assms have e: "int ni \<le> e" "e \<le> int len"
    by (auto simp: len_overruns_def e_def Let_def)
  with len have ni: "ni < 2 ^ 63" by linarith
  have "e = uint (of_nat ni + n :: u64)"
    using e(1) unfolding e_def by (simp add: uint_eq_sint)
  then have m: "nat e = (ni + unat n) mod 2 ^ 64"
    using ni by (simp add: unat_word_ariths(1) unat_of_nat take_bit_eq_mod flip: unat_eq_nat_uint)
  have "unat n < 2 ^ 64" using unsigned_less[of n, where 'a = nat] by simp
  then have "nat e = (if ni + unat n < 2 ^ 64 then ni + unat n else ni + unat n - 2 ^ 64)"
    using ni m by (auto simp: le_mod_geq)
  with e ni \<open>unat n < 2 ^ 64\<close> show "ni + unat n \<le> len"
    by (cases "ni + unat n < 2 ^ 64") auto
qed

text \<open>
  \<open>Parse\<close> keeps what it has read at the first thing it cannot frame.  The length test is
  stated for slices a Go program can hold, shorter than \<open>2^63\<close> bytes; the extra bound on
  the last line makes the recursion total on longer lists too.
\<close>

function Parse_from :: "bytes \<Rightarrow> nat \<Rightarrow> Message \<Rightarrow> Message" where
  "Parse_from b i out =
     (if i < length b then
        (case uvarint b i of
           None \<Rightarrow> out
         | Some (k, ni) \<Rightarrow>
             let field = unat (drop_bit 3 k); wire = k AND 7
             in if wire = 0 then
                  (case uvarint b ni of
                     None \<Rightarrow> out
                   | Some (v, ni2) \<Rightarrow> Parse_from b ni2 (msg_add out field (be64 v)))
                else if wire = 2 then
                  (case uvarint b ni of
                     None \<Rightarrow> out
                   | Some (n, ni2) \<Rightarrow>
                       if len_overruns ni2 n (length b) \<or> ni2 + unat n > length b then out
                       else Parse_from b (ni2 + unat n)
                              (msg_add out field (go_slice ni2 (ni2 + unat n) b)))
                else if wire = 5 then
                  (if ni + 4 > length b then out else Parse_from b (ni + 4) out)
                else if wire = 1 then
                  (if ni + 8 > length b then out else Parse_from b (ni + 8) out)
                else out)
      else out)"
  by pat_completeness auto
termination
  by (relation "measure (\<lambda>(b, i, out). length b - i)") (auto dest!: uvarint_advances)

declare Parse_from.simps [simp del]

definition Parse :: "bytes \<Rightarrow> Message" where
  "Parse b = Parse_from b 0 msg_empty"

definition First :: "Message \<Rightarrow> nat \<Rightarrow> bytes option" where
  "First m field = (case m field of [] \<Rightarrow> None | v # _ \<Rightarrow> Some v)"

definition Uint64 :: "Message \<Rightarrow> nat \<Rightarrow> u64" where
  "Uint64 m field =
     (case First m field of
        None \<Rightarrow> 0
      | Some v \<Rightarrow> if length v \<noteq> 8 then 0 else be_word v)"

subsection \<open>The strict parser\<close>

text \<open>\<open>Field\<close>: \<open>fVarint\<close> is meaningful for wire type 0, \<open>fBytes\<close> for the others.\<close>

record Field =
  fNum :: nat
  fWire :: byte
  fVarint :: u64
  fBytes :: bytes

datatype field_error =
    BadTag varint_error
  | BadFieldNumber u64
  | BadVarint varint_error
  | BadLength varint_error
  | LengthOverrun
  | TruncatedFixed
  | BadWireType

text \<open>One iteration of the loop of \<open>Fields\<close>: the field at offset \<open>i\<close> and the next offset.\<close>

definition Fields_step :: "bytes \<Rightarrow> nat \<Rightarrow> field_error + (Field \<times> nat)" where
  "Fields_step b i =
     (case strictUvarint b i of
        Inl e \<Rightarrow> Inl (BadTag e)
      | Inr (k, i) \<Rightarrow>
          let num = drop_bit 3 k; wire = ucast (k AND 7) :: byte
          in if num = 0 \<or> num > 2 ^ 29 - 1 then Inl (BadFieldNumber num)
             else
               let f = \<lparr>fNum = unat num, fWire = wire, fVarint = 0, fBytes = []\<rparr>
               in if wire = 0 then
                    (case strictUvarint b i of
                       Inl e \<Rightarrow> Inl (BadVarint e)
                     | Inr (v, i) \<Rightarrow> Inr (f\<lparr>fVarint := v\<rparr>, i))
                  else if wire = 2 then
                    (case strictUvarint b i of
                       Inl e \<Rightarrow> Inl (BadLength e)
                     | Inr (n, ni) \<Rightarrow>
                         if unat n > length b - ni then Inl LengthOverrun
                         else Inr (f\<lparr>fBytes := go_slice ni (ni + unat n) b\<rparr>, ni + unat n))
                  else if wire = 1 \<or> wire = 5 then
                    (let w = (if wire = 5 then 4 else 8)
                     in if length b - i < w then Inl TruncatedFixed
                        else Inr (f\<lparr>fBytes := go_slice i (i + w) b\<rparr>, i + w))
                  else Inl BadWireType)"

lemma Fields_step_advances: "Fields_step b i = Inr (f, j) \<Longrightarrow> i < j \<and> j \<le> length b"
  by (auto simp: Fields_step_def Let_def not_less le_diff_conv2 add.commute
      dest!: strictUvarint_advances split: sum.splits if_splits)

function Fields_from :: "bytes \<Rightarrow> nat \<Rightarrow> Field list \<Rightarrow> field_error + Field list" where
  "Fields_from b i out =
     (if i < length b then
        (case Fields_step b i of
           Inl e \<Rightarrow> Inl e
         | Inr (f, j) \<Rightarrow> Fields_from b j (out @ [f]))
      else Inr out)"
  by pat_completeness auto
termination
  by (relation "measure (\<lambda>(b, i, out). length b - i)") (auto dest!: Fields_step_advances)

declare Fields_from.simps [simp del]

definition Fields :: "bytes \<Rightarrow> field_error + Field list" where
  "Fields b = Fields_from b 0 []"

subsection \<open>Encoding and the round trip\<close>

lemma and_127: "v AND 127 = take_bit 7 v" for v :: "'a::len word"
proof -
  have "(127 :: 'a word) = mask 7" by (simp add: mask_eq_exp_minus_1)
  then show ?thesis by (simp only: take_bit_eq_mask)
qed

lemma and_128: "(v AND 128 = 0) \<longleftrightarrow> \<not> bit v 7" for v :: byte
proof -
  have "(128 :: byte) = push_bit 7 1" by simp
  then show ?thesis by (simp only: and_exp_eq_0_iff_not_bit push_bit_of_1)
qed

lemma bit_or_128: "bit (v OR 128) n \<longleftrightarrow> bit v n \<or> n = 7" for v :: byte
proof -
  have "(128 :: byte) = push_bit 7 1" by simp
  then have "bit (128::byte) n \<longleftrightarrow> n = 7"
    by (simp only: bit_push_bit_iff bit_1_iff) auto
  then show ?thesis by (simp only: bit_or_iff)
qed

lemma varint_split: "push_bit m (v AND 127) OR push_bit (m + 7) (drop_bit 7 v) = push_bit m v"
  for v :: u64
  unfolding and_127
proof (rule bit_word_eqI)
  fix n
  show "bit (push_bit m (take_bit 7 v) OR push_bit (m + 7) (drop_bit 7 v)) n = bit (push_bit m v) n"
    if "n < LENGTH(64)" using that
    by (cases "n < m + 7") (auto simp: bit_simps)
qed

lemma ucast_and_127: "ucast (ucast (v AND 127) :: byte) = v AND 127" for v :: u64
  unfolding and_127 by (rule bit_word_eqI) (auto simp: bit_simps)

lemma cont_byte:
  "(ucast (v AND 127) OR 128 :: byte) AND 127 = ucast (v AND 127)"
  "(ucast (v AND 127) OR 128 :: byte) AND 128 \<noteq> 0"
  "(ucast (v AND 127) :: byte) AND 127 = ucast (v AND 127)"
  "(ucast (v AND 127) :: byte) AND 128 = 0" for v :: u64
  unfolding and_127 and_128
     by ((rule bit_word_eqI; auto simp: bit_simps bit_or_128) | auto simp: bit_simps bit_or_128)+

lemma AppendVarint_app: "AppendVarint b v = b @ AppendVarint [] v"
proof (induction "unat v" arbitrary: b v rule: less_induct)
  case less
  show ?case
  proof (cases "drop_bit 7 v = 0")
    case False
    then have h: "AppendVarint c (drop_bit 7 v) = c @ AppendVarint [] (drop_bit 7 v)" for c
      by (rule less.hyps[OF drop_bit_7_less])
    show ?thesis
      by (subst (1 2) AppendVarint.simps)
         (simp add: Let_def h[of "b @ _"] h[of "[_]"])
  qed (subst (1 2) AppendVarint.simps, simp add: Let_def)
qed
definition varint :: "u64 \<Rightarrow> bytes" where "varint v = AppendVarint [] v"

lemma varint_eq: "varint v =
  (if drop_bit 7 v = 0 then [ucast (v AND 127)]
   else (ucast (v AND 127) OR 128) # varint (drop_bit 7 v))"
  by (simp add: varint_def AppendVarint.simps[of "[]" v] Let_def AppendVarint_app[of "[_]"])


lemma strictUvarint_loop_varint:
  assumes "unat v < 2 ^ (64 - 7 * n)" "n < 10" "b = pre @ varint v @ post" "i = length pre"
  shows "strictUvarint_loop b i acc n = Inr (acc OR push_bit (7 * n) v, i + length (varint v))"
  using assms
proof (induction "unat v" arbitrary: v n pre acc i rule: less_induct)
  case less
  show ?case
  proof (cases "drop_bit 7 v = 0")
    case True
    then have v: "v AND 127 = v" 
      using varint_split[of 0 v] by simp
    have "\<not> (n = 9 \<and> (ucast (v AND 127) :: byte) > 1)"
      using less.prems(1) by (auto simp: v unat_less_iff unsigned_ucast_eq take_bit_eq_mod)
    then show ?thesis using less.prems
      by (subst strictUvarint_loop.simps)
         (simp add: Let_def varint_eq[of v] True cont_byte(3,4) [of v, unfolded v] ucast_and_127[of v, unfolded v] v)
  next
    case False
    then have d: "unat (drop_bit 7 v) = unat v div 128" "unat v div 128 \<noteq> 0"
      by (auto simp: unat_drop_bit simp flip: unat_eq_zero)
    have "n \<noteq> 9" using d(2) less.prems(1) by auto
    then have n: "n < 9" using less.prems(2) by simp
    have "(2::nat) ^ (64 - 7 * n) = 2 ^ (64 - 7 * Suc n) * 128"
    proof -
      have "64 - 7 * n = (64 - 7 * Suc n) + 7" using n by simp
      then show ?thesis by (simp only: power_add) simp
    qed
    with less.prems(1) have lt: "unat (drop_bit 7 v) < 2 ^ (64 - 7 * Suc n)"
      unfolding d(1) by (simp add: less_mult_imp_div_less)
    define c :: byte where "c = ucast (v AND 127) OR 128"
    have b: "b = (pre @ [c]) @ varint (drop_bit 7 v) @ post" "b ! i = c" "i < length b"
      using less.prems(3,4) False by (simp_all add: varint_eq[of v] c_def)
    have "strictUvarint_loop b (Suc i) (acc OR push_bit (7 * n) (v AND 127)) (Suc n)
       = Inr ((acc OR push_bit (7 * n) (v AND 127)) OR push_bit (7 * Suc n) (drop_bit 7 v),
              Suc i + length (varint (drop_bit 7 v)))"
      by (rule less.hyps[OF drop_bit_7_less[OF False] lt _ b(1)]) (use n less.prems(4) in auto)
    moreover have "(acc OR push_bit (7 * n) (v AND 127)) OR push_bit (7 * Suc n) (drop_bit 7 v)
       = acc OR push_bit (7 * n) v"
      using varint_split[of "7 * n" v] by (simp add: or.assoc add.commute)
    ultimately show ?thesis using n b(2,3) False
      by (subst strictUvarint_loop.simps)
         (simp add: Let_def varint_eq[of v] c_def cont_byte ucast_and_127)
  qed
qed

lemma strictUvarint_varint:
  "strictUvarint (pre @ varint v @ post) (length pre) = Inr (v, length pre + length (varint v))"
  using strictUvarint_loop_varint[of v 0 "pre @ varint v @ post" pre post "length pre" 0]
    unsigned_less[of v, where 'a = nat]
  by (simp add: strictUvarint_def)

lemma strict_implies_lenient_loop:
  "strictUvarint_loop b i v n = Inr r \<Longrightarrow> uvarint_loop b i v (7 * n) = Some r"
proof (induction b i v n rule: strictUvarint_loop.induct)
  case (1 b i v n)
  from "1.prems" have n: "n < 10" "i < length b"
    by (auto simp: strictUvarint_loop.simps[of b i v n] split: if_splits)
  show ?case
    using "1.prems" "1.IH" n
    by (subst (asm) strictUvarint_loop.simps, subst uvarint_loop.simps)
       (auto simp: Let_def algebra_simps split: if_splits)
qed

lemma strict_implies_lenient: "strictUvarint b i = Inr r \<Longrightarrow> uvarint b i = Some r"
  using strict_implies_lenient_loop[of b i 0 0 r] by (simp add: strictUvarint_def uvarint_def)

definition field_tag :: "nat \<Rightarrow> byte \<Rightarrow> u64" where
  "field_tag num wire = push_bit 3 (of_nat num) OR ucast wire"

definition field_bytes :: "Field \<Rightarrow> bytes" where
  "field_bytes f = varint (field_tag (fNum f) (fWire f)) @
     (if fWire f = 0 then varint (fVarint f)
      else if fWire f = 2 then varint (of_nat (length (fBytes f))) @ fBytes f
      else fBytes f)"

definition valid_field :: "Field \<Rightarrow> bool" where
  "valid_field f \<longleftrightarrow> 0 < fNum f \<and> fNum f < 2 ^ 29 \<and>
     (if fWire f = 0 then fBytes f = []
      else fVarint f = 0 \<and>
       (if fWire f = 2 then length (fBytes f) < 2 ^ 64
        else (fWire f = 1 \<and> length (fBytes f) = 8) \<or> (fWire f = 5 \<and> length (fBytes f) = 4)))"

lemma and_7: "v AND 7 = take_bit 3 v" for v :: "'a::len word"
proof -
  have "(7 :: 'a word) = mask 3" by (simp add: mask_eq_exp_minus_1)
  then show ?thesis by (simp only: take_bit_eq_mask)
qed

lemma field_tag_parts:
  assumes "num < 2 ^ 61" "unat wire < 8"
  shows "drop_bit 3 (field_tag num wire) = of_nat num"
    and "ucast (field_tag num wire AND 7) = wire"
proof -
  have w: "\<not> bit wire n" if "n \<ge> 3" for n
  proof -
    have "wire = take_bit 3 wire"
      using assms(2) by (simp add: word_unat_eq_iff unsigned_take_bit_eq take_bit_nat_eq_self)
    then show ?thesis using that by (metis bit_take_bit_iff not_le)
  qed
  have n: "bit num k \<Longrightarrow> k < 61" for k
    using assms(1) by (metis bit_take_bit_iff take_bit_nat_eq_self)
  show "drop_bit 3 (field_tag num wire) = of_nat num"
    unfolding field_tag_def
    by (rule bit_word_eqI) (auto simp: bit_simps w dest: n)
  show "ucast (field_tag num wire AND 7) = wire"
    unfolding field_tag_def and_7
    by (rule bit_word_eqI) (auto simp: bit_simps w not_less dest: )
qed


lemma field_tag_ok:
  assumes "valid_field f"
  shows "drop_bit 3 (field_tag (fNum f) (fWire f)) = of_nat (fNum f)"
    and "ucast (field_tag (fNum f) (fWire f) AND 7) = fWire f"
    and "(of_nat (fNum f) :: u64) \<noteq> 0" "\<not> (of_nat (fNum f) :: u64) > 536870911"
    and "unat (of_nat (fNum f) :: u64) = fNum f"
proof -
  have n: "0 < fNum f" "fNum f < 2 ^ 29" and w: "unat (fWire f) < 8"
    using assms by (auto simp: valid_field_def split: if_splits)
  show u: "unat (of_nat (fNum f) :: u64) = fNum f"
    using n by (simp add: unat_of_nat take_bit_nat_eq_self)
  show "(of_nat (fNum f) :: u64) \<noteq> 0" "\<not> (of_nat (fNum f) :: u64) > 536870911"
    using n u by (auto simp: unat_less_iff simp flip: unat_eq_zero)
  show "drop_bit 3 (field_tag (fNum f) (fWire f)) = of_nat (fNum f)"
    "ucast (field_tag (fNum f) (fWire f) AND 7) = fWire f"
    using field_tag_parts[of "fNum f" "fWire f"] n w by auto
qed

lemma strictUvarint_at:
  "b = pre @ varint v @ post \<Longrightarrow> i = length pre \<Longrightarrow>
   strictUvarint b i = Inr (v, i + length (varint v))"
  by (simp add: strictUvarint_varint)

lemma go_slice_at: "b = pre @ mid @ post \<Longrightarrow> i = length pre \<Longrightarrow> j = i + length mid \<Longrightarrow>
  go_slice i j b = mid"
  by (simp add: go_slice_def)

lemma Fields_step_field_bytes:
  assumes f: "valid_field f" and b: "b = pre @ field_bytes f @ post"
  shows "Fields_step b (length pre) = Inr (f, length pre + length (field_bytes f))"
proof -
  define t where "t = field_tag (fNum f) (fWire f)"
  define i where "i = length pre + length (varint t)"
  define body where "body = (if fWire f = 0 then varint (fVarint f)
      else if fWire f = 2 then varint (of_nat (length (fBytes f))) @ fBytes f
      else fBytes f)"
  note tag = field_tag_ok[OF f, folded t_def]
  have fb: "field_bytes f = varint t @ body" by (simp add: field_bytes_def t_def body_def)
  have 1: "strictUvarint b (length pre) = Inr (t, i)"
    unfolding i_def by (rule strictUvarint_at[where post = "body @ post"]) (simp_all add: b fb)
  have bi: "b = (pre @ varint t) @ body @ post" "i = length (pre @ varint t)"
    by (simp_all add: b fb i_def)
  consider (0) "fWire f = 0" | (2) "fWire f = 2" | (1) "fWire f = 1" | (5) "fWire f = 5"
    using f by (auto simp: valid_field_def split: if_splits)
  then show ?thesis
  proof cases
    case 0
    have "strictUvarint b i = Inr (fVarint f, i + length (varint (fVarint f)))"
      by (rule strictUvarint_at[OF _ bi(2)]) (simp add: bi(1) body_def 0)
    moreover have "f = \<lparr>fNum = fNum f, fWire = 0, fVarint = fVarint f, fBytes = []\<rparr>"
      by (rule Field.equality) (use f 0 in \<open>auto simp: valid_field_def\<close>)
    ultimately show ?thesis
      by (simp add: Fields_step_def 1 Let_def tag fb body_def i_def 0)
  next
    case 2
    define n where "n = length (fBytes f)"
    have "strictUvarint b i = Inr (of_nat n, i + length (varint (of_nat n)))"
      by (rule strictUvarint_at[OF _ bi(2)]) (simp add: bi(1) body_def 2 n_def)
    moreover have "unat (of_nat n :: u64) = n"
      using f 2 by (simp add: valid_field_def n_def unat_of_nat take_bit_nat_eq_self)
    moreover have "go_slice (i + length (varint (of_nat n))) (i + length (varint (of_nat n)) + n) b = fBytes f"
      by (rule go_slice_at[of _ "pre @ varint t @ varint (of_nat n)" _ post])
         (simp_all add: bi body_def 2 n_def)
    moreover have "n \<le> length b - (i + length (varint (of_nat n)))"
      by (simp add: bi body_def 2 n_def)
    moreover have "f = \<lparr>fNum = fNum f, fWire = 2, fVarint = 0, fBytes = fBytes f\<rparr>"
      by (rule Field.equality) (use f 2 in \<open>auto simp: valid_field_def\<close>)
    ultimately show ?thesis
      by (simp add: Fields_step_def 1 Let_def tag fb body_def i_def n_def 2)
  next
    case 1
    then have l: "length (fBytes f) = 8" using f by (auto simp: valid_field_def)
    have "go_slice i (i + 8) b = fBytes f"
      by (rule go_slice_at[OF _ bi(2)]) (simp_all add: bi body_def 1 l)
    moreover have "8 \<le> length b - i" by (simp add: bi body_def 1 l)
    moreover have "f = \<lparr>fNum = fNum f, fWire = 1, fVarint = 0, fBytes = fBytes f\<rparr>"
      by (rule Field.equality) (use f 1 in \<open>auto simp: valid_field_def\<close>)
    ultimately show ?thesis using \<open>strictUvarint b (length pre) = Inr (t, i)\<close> l
      by (simp add: Fields_step_def Let_def tag fb body_def i_def 1)
  next
    case 5
    then have l: "length (fBytes f) = 4" using f by (auto simp: valid_field_def)
    have "go_slice i (i + 4) b = fBytes f"
      by (rule go_slice_at[OF _ bi(2)]) (simp_all add: bi body_def 5 l)
    moreover have "4 \<le> length b - i" by (simp add: bi body_def 5 l)
    moreover have "f = \<lparr>fNum = fNum f, fWire = 5, fVarint = 0, fBytes = fBytes f\<rparr>"
      by (rule Field.equality) (use f 5 in \<open>auto simp: valid_field_def\<close>)
    ultimately show ?thesis using 1 l
      by (simp add: Fields_step_def Let_def tag fb body_def i_def 5)
  qed
qed

lemma varint_nonempty: "varint v \<noteq> []"
  by (subst varint_eq) simp

lemma Fields_from_fields:
  assumes "\<forall>f\<in>set fs. valid_field f" "b = pre @ concat (map field_bytes fs)"
  shows "Fields_from b (length pre) out = Inr (out @ fs)"
  using assms
proof (induction fs arbitrary: pre out)
  case Nil
  then show ?case by (simp add: Fields_from.simps)
next
  case (Cons f fs)
  have s: "Fields_step b (length pre) = Inr (f, length pre + length (field_bytes f))"
    by (rule Fields_step_field_bytes[of f b pre "concat (map field_bytes fs)"]) (use Cons.prems in auto)
  have ne: "field_bytes f \<noteq> []" by (simp add: field_bytes_def varint_nonempty)
  have "Fields_from b (length (pre @ field_bytes f)) (out @ [f]) = Inr ((out @ [f]) @ fs)"
    by (rule Cons.IH) (use Cons.prems in auto)
  with s ne show ?case
    by (subst Fields_from.simps) (simp add: Cons.prems)
qed

text \<open>
C25. The strict reader returns exactly the fields that were encoded, for any list of valid
  fields of the four wire types.
\<close>

theorem Fields_roundtrip:
  "\<forall>f\<in>set fs. valid_field f \<Longrightarrow> Fields (concat (map field_bytes fs)) = Inr fs"
  using Fields_from_fields[of fs _ "[]" "[]"] by (simp add: Fields_def)

lemma Fields_roundtrip_witness:
  "Fields (concat (map field_bytes
     [\<lparr>fNum = 1, fWire = 0, fVarint = 300, fBytes = []\<rparr>, \<lparr>fNum = 5, fWire = 2, fVarint = 0, fBytes = [7, 8]\<rparr>])) =
   Inr [\<lparr>fNum = 1, fWire = 0, fVarint = 300, fBytes = []\<rparr>, \<lparr>fNum = 5, fWire = 2, fVarint = 0, fBytes = [7, 8]\<rparr>]"
  by (rule Fields_roundtrip) (simp add: valid_field_def)

subsection \<open>The two parsers agree on what the strict one accepts\<close>

lemma sint_of_small: "uint w < 2 ^ 63 \<Longrightarrow> sint w = uint w" for w :: u64
proof -
  assume a: "uint w < 2 ^ 63"
  have "0 \<le> uint w" by simp
  then have "signed_take_bit 63 (uint w) = uint w"
    using a by (intro signed_take_bit_int_eq_self) linarith+
  then show "sint w = uint w" by (simp add: sint_uint)
qed

lemma not_len_overruns:
  assumes "ni + unat n \<le> len" "len < 2 ^ 63" shows "\<not> len_overruns ni n len"
proof -
  have ni: "ni < 2 ^ 64" and sm: "ni + unat n < 2 ^ 64" using assms by simp_all
  have "unat (of_nat ni :: u64) = ni"
    using ni by (simp add: unat_of_nat take_bit_nat_eq_self)
  then have "unat (of_nat ni + n) = ni + unat n"
    using sm by (simp only: unat_word_ariths(1)) simp
  then have u: "uint (of_nat ni + n) = int (ni + unat n)"
    by (metis uint_nat)
  have "ni + unat n < 2 ^ 63" using assms by linarith
  then have "int (ni + unat n) < int (2 ^ 63)" by (simp only: of_nat_less_iff)
  then have "int (ni + unat n) < 2 ^ 63" by simp
  then have s: "sint (of_nat ni + n) = int (ni + unat n)"
    using sint_of_small[of "of_nat ni + n"] u by metis
  show ?thesis unfolding len_overruns_def Let_def s using assms(1) by linarith
qed

definition field_value :: "Field \<Rightarrow> bytes option" where
  "field_value f = (if fWire f = 0 then Some (be64 (fVarint f))
     else if fWire f = 2 then Some (fBytes f) else None)"

definition add_field :: "Message \<Rightarrow> Field \<Rightarrow> Message" where
  "add_field m f = (case field_value f of None \<Rightarrow> m | Some v \<Rightarrow> msg_add m (fNum f) v)"

lemma wire_back: "ucast (k AND 7) = (w :: byte) \<Longrightarrow> k AND 7 = ucast w" for k :: u64
proof -
  have "ucast (ucast (k AND 7) :: byte) = k AND 7"
    unfolding and_7 by (rule bit_word_eqI) (auto simp: bit_simps)
  then show "ucast (k AND 7) = w \<Longrightarrow> k AND 7 = ucast w" by auto
qed

lemma Parse_from_step:
  assumes s: "Fields_step b i = Inr (f, j)" and len: "length b < 2 ^ 63"
  shows "Parse_from b i m = Parse_from b j (add_field m f)"
proof -
  from s have i: "i < length b" using Fields_step_advances[OF s] by simp
  from s obtain k i1 where k: "strictUvarint b i = Inr (k, i1)"
    by (auto simp: Fields_step_def split: sum.splits)
  note k' = strict_implies_lenient[OF k] and adv = strictUvarint_advances[OF k]
  define w :: byte where "w = ucast (k AND 7)"
  have kw: "k AND 7 = ucast w" by (rule wire_back) (simp add: w_def)
  have num: "drop_bit 3 k \<noteq> 0" "\<not> drop_bit 3 k > 536870911"
    using s by (auto simp: Fields_step_def k Let_def split: if_splits)
  consider (0) "w = 0" | (2) "w = 2" | (1) "w = 1" | (5) "w = 5"
    using s num by (auto simp: Fields_step_def k Let_def w_def split: if_splits)
  then show ?thesis
  proof cases
    case 0
    then show ?thesis using s i num kw
      by (subst Parse_from.simps)
         (auto simp: Fields_step_def k k' Let_def w_def[symmetric] add_field_def field_value_def
           split: sum.splits dest!: strict_implies_lenient)
  next
    case 2
    from s num 2 obtain n ni where n: "strictUvarint b i1 = Inr (n, ni)" and
      le: "\<not> length b - ni < unat n" and f: "j = ni + unat n"
      "f = \<lparr>fNum = unat (drop_bit 3 k), fWire = 2, fVarint = 0, fBytes = go_slice ni j b\<rparr>"
      by (auto simp: Fields_step_def k Let_def w_def[symmetric] split: sum.splits if_splits)
    have "ni + unat n \<le> length b" using le strictUvarint_advances[OF n] by linarith
    then show ?thesis using i kw len n f 2
      by (subst Parse_from.simps)
         (simp add: k' Let_def strict_implies_lenient[OF n] not_len_overruns
           add_field_def field_value_def)
  next
    case 1
    with s num adv show ?thesis using i kw
      by (subst Parse_from.simps)
         (auto simp: Fields_step_def k k' Let_def w_def[symmetric] add_field_def field_value_def
           split: if_splits)
  next
    case 5
    with s num adv show ?thesis using i kw
      by (subst Parse_from.simps)
         (auto simp: Fields_step_def k k' Let_def w_def[symmetric] add_field_def field_value_def
           split: if_splits)
  qed
qed

lemma Fields_from_extends: "Fields_from b i out = Inr r \<Longrightarrow> \<exists>fs. r = out @ fs"
proof (induction b i out rule: Fields_from.induct)
  case (1 b i out)
  show ?case
    using "1.prems" "1.IH"
    by (subst (asm) Fields_from.simps) (fastforce split: if_splits sum.splits)
qed

lemma Parse_from_Fields:
  "Fields_from b i out = Inr (out @ fs) \<Longrightarrow> length b < 2 ^ 63 \<Longrightarrow>
   Parse_from b i m = foldl add_field m fs"
proof (induction b i out arbitrary: m fs rule: Fields_from.induct)
  case (1 b i out)
  show ?case
  proof (cases "i < length b")
    case False
    then show ?thesis using "1.prems"
      by (simp add: Fields_from.simps[of b i] Parse_from.simps[of b i])
  next
    case True
    with "1.prems"(1) obtain f j where s: "Fields_step b i = Inr (f, j)"
      and r: "Fields_from b j (out @ [f]) = Inr (out @ fs)"
      by (auto simp: Fields_from.simps[of b i] split: sum.splits)
    have "\<exists>gs. out @ fs = (out @ [f]) @ gs"
      using Fields_from_extends[OF r] by blast
    then obtain gs where gs: "fs = f # gs" by auto
    show ?thesis
      using "1.IH"[OF True s refl, of gs "add_field m f"] "1.prems"(2) r
        Parse_from_step[OF s "1.prems"(2)] gs by simp
  qed
qed
text \<open>What the lenient reader keeps of a field: it has one shape for two wire types and none for two.\<close>

definition lenient_value :: "Field \<Rightarrow> bytes" where
  "lenient_value f = (if fWire f = 0 then be64 (fVarint f) else fBytes f)"

lemma foldl_add_field:
  "foldl add_field m fs n = m n @ map lenient_value (filter (\<lambda>f. fNum f = n \<and> (fWire f = 0 \<or> fWire f = 2)) fs)"
  by (induction fs arbitrary: m) (auto simp: add_field_def field_value_def msg_add_def lenient_value_def)

text \<open>
C21. On whatever the strict reader accepts, the lenient reader holds, under each field
  number and in order, the varints the strict one read, as 8 big-endian bytes, and its byte
  fields as they are, and nothing else: fixed32 and fixed64 fields are passed over, and
  since the wire type is not kept a varint and the same eight bytes under one number read
  alike.
\<close>

theorem Parse_agrees_with_Fields:
  "Fields b = Inr fs \<Longrightarrow> length b < 2 ^ 63 \<Longrightarrow>
    Parse b = (\<lambda>n. map lenient_value (filter (\<lambda>f. fNum f = n \<and> (fWire f = 0 \<or> fWire f = 2)) fs))"
  using Parse_from_Fields[of b 0 "[]" fs msg_empty]
  by (simp add: Fields_def Parse_def foldl_add_field fun_eq_iff msg_empty_def)

lemma Parse_agrees_with_Fields_witness:
  "Fields [8, 172, 2, 42, 2, 7, 8] =
     Inr [\<lparr>fNum = 1, fWire = 0, fVarint = 300, fBytes = []\<rparr>, \<lparr>fNum = 5, fWire = 2, fVarint = 0, fBytes = [7, 8]\<rparr>] \<and>
   Parse [8, 172, 2, 42, 2, 7, 8] 1 = [[0, 0, 0, 0, 0, 0, 1, 44]] \<and> Parse [8, 172, 2, 42, 2, 7, 8] 5 = [[7, 8]] \<and>
   Parse [8, 172, 2, 42, 2, 7, 8] 2 = []"
proof -
  have f: "Fields [8, 172, 2, 42, 2, 7, 8] =
     Inr [\<lparr>fNum = 1, fWire = 0, fVarint = 300, fBytes = []\<rparr>, \<lparr>fNum = 5, fWire = 2, fVarint = 0, fBytes = [7, 8]\<rparr>]"
    by code_simp
  have "be64 300 = [0, 0, 0, 0, 0, 0, 1, 44]" by code_simp
  then show ?thesis using f Parse_agrees_with_Fields[OF f] by (simp add: lenient_value_def)
qed

end
