(* ===== verification/Prefix_Tree.thy ===== *)
theory Prefix_Tree
  imports Log_Tree Pbwire
begin

text \<open>
  Signal's prefix tree and commitment hashes, \<open>internal/source/signal/prefixtree.go\<close>, and
  the explicit tree they describe.  SHA-256 and HMAC-SHA-256 are parameters.  A tree is
  kept as a datatype whose root hash is \<open>phash\<close>; the part of it on the path of an index
  is what a proof shows, and \<open>lookup\<close> is what the directory says at an index.
\<close>

definition prefixTreeDepth :: nat where "prefixTreeDepth = 8 * 32"

definition leaf_pre :: "bytes \<Rightarrow> u32 \<Rightarrow> u64 \<Rightarrow> bytes" where
  "leaf_pre index ctr pos = 0 # index @ be32 ctr @ be64 pos"

definition parent_pre :: "hash \<Rightarrow> hash \<Rightarrow> bytes" where
  "parent_pre left right = 1 # left @ right"

definition standin_pre :: "bytes \<Rightarrow> byte \<Rightarrow> bytes" where
  "standin_pre seed lvl = 2 # seed @ [lvl]"

definition PrefixLeafHash :: "(bytes \<Rightarrow> hash) \<Rightarrow> bytes \<Rightarrow> u32 \<Rightarrow> u64 \<Rightarrow> hash" where
  "PrefixLeafHash sha index ctr pos = sha (leaf_pre index ctr pos)"

definition PrefixParentHash :: "(bytes \<Rightarrow> hash) \<Rightarrow> hash \<Rightarrow> hash \<Rightarrow> hash" where
  "PrefixParentHash sha left right = sha (parent_pre left right)"

definition PrefixStandInHash :: "(bytes \<Rightarrow> hash) \<Rightarrow> bytes \<Rightarrow> byte \<Rightarrow> hash" where
  "PrefixStandInHash sha seed lvl = sha (standin_pre seed lvl)"

definition LogLeafHash :: "(bytes \<Rightarrow> hash) \<Rightarrow> hash \<Rightarrow> hash \<Rightarrow> hash" where
  "LogLeafHash sha prefixRoot commitment = sha (prefixRoot @ commitment)"

text \<open>\<open>index[n/8]&(1<<(7-n%8)) == 0\<close> decides the side at each level.\<close>

definition index_clear :: "bytes \<Rightarrow> nat \<Rightarrow> bool" where
  "index_clear index n \<longleftrightarrow> index ! (n div 8) AND push_bit (7 - n mod 8) 1 = 0"

fun eval_loop :: "(bytes \<Rightarrow> hash) \<Rightarrow> bytes \<Rightarrow> nat \<Rightarrow> nat \<Rightarrow> hash list \<Rightarrow> hash \<Rightarrow> hash" where
  "eval_loop sha index len i [] value = value"
| "eval_loop sha index len i (p # ps) value =
     (let n = len - i - 1
      in eval_loop sha index len (Suc i) ps
           (if index_clear index n then PrefixParentHash sha value p
            else PrefixParentHash sha p value))"

datatype prefix_error = WrongPrefixProofLength nat

definition evaluatePrefixProof ::
    "(bytes \<Rightarrow> hash) \<Rightarrow> bytes \<Rightarrow> u32 \<Rightarrow> u64 \<Rightarrow> hash list \<Rightarrow> prefix_error + hash" where
  "evaluatePrefixProof sha index ctr pos proof =
     (if length proof \<noteq> prefixTreeDepth then Inl (WrongPrefixProofLength (length proof))
      else Inr (eval_loop sha index (length proof) 0 proof (PrefixLeafHash sha index ctr pos)))"

definition commitmentKey :: bytes where
  "commitmentKey = [0xd8, 0x21, 0xf8, 0x79, 0x0d, 0x97, 0x70, 0x97,
                    0x96, 0xb4, 0xd7, 0x90, 0x33, 0x57, 0xc3, 0xf5]"

definition commitment_msg :: "bytes \<Rightarrow> bytes \<Rightarrow> bytes \<Rightarrow> bytes" where
  "commitment_msg searchKey value nonce =
     nonce @ be16 (of_nat (length searchKey)) @ searchKey @ be32 (of_nat (length value)) @ value"

definition verifyCommitment ::
    "(bytes \<Rightarrow> bytes \<Rightarrow> bytes) \<Rightarrow> bytes \<Rightarrow> bytes \<Rightarrow> bytes \<Rightarrow> bytes \<Rightarrow> bool" where
  "verifyCommitment hmac searchKey commitment value nonce =
     (if length nonce \<noteq> 16 \<or> length commitment \<noteq> 32 then False
      else if length searchKey > 0xffff then False
      else hmac commitmentKey (commitment_msg searchKey value nonce) = commitment)"

definition marshalUpdateValue :: "bytes \<Rightarrow> bytes" where
  "marshalUpdateValue value = be32 (of_nat (length value)) @ value"

subsection \<open>Commitments bind\<close>

text \<open>The framing of a commitment is unambiguous for values below four gigabytes.\<close>

lemma commitment_msg_inj:
  assumes "commitment_msg k v n = commitment_msg k' v' n'"
    and "length n = 16" "length n' = 16" "length k \<le> 0xffff" "length k' \<le> 0xffff"
    and "length v < 2 ^ 32" "length v' < 2 ^ 32"
  shows "n = n' \<and> k = k' \<and> v = v'"
proof -
  have 1: "n = n'" and r1: "be16 (of_nat (length k)) @ k @ be32 (of_nat (length v)) @ v =
      be16 (of_nat (length k')) @ k' @ be32 (of_nat (length v')) @ v'"
    using assms(1-3) by (simp_all add: commitment_msg_def)
  from r1 have "be16 (of_nat (length k)) = be16 (of_nat (length k'))"
    and r2: "k @ be32 (of_nat (length v)) @ v = k' @ be32 (of_nat (length v')) @ v'" by simp_all
  then have "(of_nat (length k) :: u16) = of_nat (length k')" by (metis be_word_be16)
  moreover have "unat (of_nat (length k) :: u16) = length k" "unat (of_nat (length k') :: u16) = length k'"
    using assms(4,5) by (simp_all add: unat_of_nat take_bit_nat_eq_self)
  ultimately have "length k = length k'" by metis
  then have 2: "k = k'" and "be32 (of_nat (length v)) @ v = be32 (of_nat (length v')) @ v'"
    using r2 by simp_all
  then have "v = v'" by simp
  with 1 2 show ?thesis by simp
qed

text \<open>
C24. A commitment opens to one search key and one value: two accepted openings of the same
  commitment agree when HMAC does not collide on the two framed messages.
\<close>

theorem verifyCommitment_binding:
  assumes "verifyCommitment hmac k c v n" "verifyCommitment hmac k' c v' n'"
    and "length v < 2 ^ 32" "length v' < 2 ^ 32"
    and "inj_on (hmac commitmentKey) {commitment_msg k v n, commitment_msg k' v' n'}"
  shows "k = k' \<and> v = v' \<and> n = n'"
proof -
  have g: "length n = 16" "length n' = 16" "length k \<le> 0xffff" "length k' \<le> 0xffff"
    and e: "hmac commitmentKey (commitment_msg k v n) = hmac commitmentKey (commitment_msg k' v' n')"
    using assms(1,2) by (auto simp: verifyCommitment_def split: if_splits)
  have "commitment_msg k v n = commitment_msg k' v' n'"
    by (rule inj_onD[OF assms(5) e]) auto
  from commitment_msg_inj[OF this g assms(3,4)] show ?thesis by simp
qed

definition toy_hmac :: "bytes \<Rightarrow> bytes \<Rightarrow> bytes" where
  "toy_hmac key msg = toy_sha (key @ msg)"

lemma verifyCommitment_binding_witness:
  "verifyCommitment toy_hmac [1, 2] (toy_hmac commitmentKey (commitment_msg [1, 2] [9] (replicate 16 0)))
     [9] (replicate 16 0) \<and> [1, 2] = [1 :: byte, 2] \<and> [9] = [9 :: byte] \<and> replicate 16 0 = replicate 16 (0 :: byte)"
proof -
  let ?c = "toy_hmac commitmentKey (commitment_msg [1, 2] [9] (replicate 16 0))"
  have v: "verifyCommitment toy_hmac [1, 2] ?c [9] (replicate 16 0)"
    by (simp add: verifyCommitment_def toy_hmac_def)
  show ?thesis
    using v verifyCommitment_binding[OF v v] by simp
qed

subsection \<open>Explicit trees\<close>

datatype ptree = PStand bytes | PLeaf bytes u32 u64 | PNode ptree ptree

fun phash :: "(bytes \<Rightarrow> hash) \<Rightarrow> nat \<Rightarrow> ptree \<Rightarrow> hash" where
  "phash sha d (PStand seed) = PrefixStandInHash sha seed (of_nat (d - 1))"
| "phash sha d (PLeaf i c p) = PrefixLeafHash sha i c p"
| "phash sha d (PNode l r) = PrefixParentHash sha (phash sha (Suc d) l) (phash sha (Suc d) r)"

text \<open>The preimages hashed to compute it.\<close>

fun phash_pre :: "(bytes \<Rightarrow> hash) \<Rightarrow> nat \<Rightarrow> ptree \<Rightarrow> bytes set" where
  "phash_pre sha d (PStand seed) = {standin_pre seed (of_nat (d - 1))}"
| "phash_pre sha d (PLeaf i c p) = {leaf_pre i c p}"
| "phash_pre sha d (PNode l r) =
     insert (parent_pre (phash sha (Suc d) l) (phash sha (Suc d) r))
       (phash_pre sha (Suc d) l \<union> phash_pre sha (Suc d) r)"

text \<open>What the directory says at the end of a path; a path turns right on \<open>True\<close>.\<close>

fun lookup :: "ptree \<Rightarrow> bool list \<Rightarrow> (bytes \<times> u32 \<times> u64) option" where
  "lookup (PStand s) bs = None"
| "lookup (PLeaf i c p) bs = (if bs = [] then Some (i, c, p) else None)"
| "lookup (PNode l r) [] = None"
| "lookup (PNode l r) (b # bs) = lookup (if b then r else l) bs"

text \<open>The subtree below a path, and the tree with it replaced.\<close>

fun subtree :: "ptree \<Rightarrow> bool list \<Rightarrow> ptree option" where
  "subtree t [] = Some t"
| "subtree (PNode l r) (b # bs) = subtree (if b then r else l) bs"
| "subtree t (b # bs) = None"

fun put :: "ptree \<Rightarrow> bool list \<Rightarrow> ptree \<Rightarrow> ptree" where
  "put t [] u = u"
| "put (PNode l r) (b # bs) u = (if b then PNode l (put r bs u) else PNode (put l bs u) r)"
| "put t (b # bs) u = t"

text \<open>A hash at the end of a path folded up with the siblings along it, root first.\<close>

fun fold_up :: "(bytes \<Rightarrow> hash) \<Rightarrow> hash \<Rightarrow> bool list \<Rightarrow> hash list \<Rightarrow> hash" where
  "fold_up sha v (b # bs) (c # cs) =
     (let w = fold_up sha v bs cs in if b then PrefixParentHash sha c w else PrefixParentHash sha w c)"
| "fold_up sha v bs cs = v"

fun fold_up_pre :: "(bytes \<Rightarrow> hash) \<Rightarrow> hash \<Rightarrow> bool list \<Rightarrow> hash list \<Rightarrow> bytes list" where
  "fold_up_pre sha v (b # bs) (c # cs) =
     (let w = fold_up sha v bs cs in if b then parent_pre c w else parent_pre w c) #
     fold_up_pre sha v bs cs"
| "fold_up_pre sha v bs cs = []"

lemma parent_pre_inj: "length l = length l' \<Longrightarrow> parent_pre l r = parent_pre l' r' \<longleftrightarrow> l = l' \<and> r = r'"
  by (auto simp: parent_pre_def)

lemma pre_tags [simp]:
  "parent_pre l r \<noteq> standin_pre s v" "standin_pre s v \<noteq> parent_pre l r"
  "parent_pre l r \<noteq> leaf_pre i c p" "leaf_pre i c p \<noteq> parent_pre l r"
  "standin_pre s v \<noteq> leaf_pre i c p" "leaf_pre i c p \<noteq> standin_pre s v"
  by (simp_all add: parent_pre_def standin_pre_def leaf_pre_def)

lemma length_phash: "(\<And>x. length (sha x) = 32) \<Longrightarrow> length (phash sha d t) = 32"
  by (cases t) (simp_all add: PrefixStandInHash_def PrefixLeafHash_def PrefixParentHash_def)

text \<open>
  A fold that reproduces the hash of a tree follows that tree: its path exists, its value
  is the hash of the subtree at its end, and the tree with that subtree replaced hashes to
  the fold of the replacement.
\<close>

lemma fold_up_follows:
  assumes sha: "\<And>x. length (sha x) = 32" and inj: "inj_on sha S"
  shows "length bs = length cs \<Longrightarrow> fold_up sha v bs cs = phash sha d t \<Longrightarrow>
    \<forall>c\<in>set cs. length c = 32 \<Longrightarrow> length v = 32 \<Longrightarrow>
    phash_pre sha d t \<subseteq> S \<Longrightarrow> set (fold_up_pre sha v bs cs) \<subseteq> S \<Longrightarrow>
    \<exists>u. subtree t bs = Some u \<and> phash sha (d + length bs) u = v \<and> phash_pre sha (d + length bs) u \<subseteq> S \<and>
      (\<forall>u'. phash sha d (put t bs u') = fold_up sha (phash sha (d + length bs) u') bs cs \<and>
        (phash_pre sha (d + length bs) u' \<union> set (fold_up_pre sha (phash sha (d + length bs) u') bs cs) \<subseteq> S
          \<longrightarrow> phash_pre sha d (put t bs u') \<subseteq> S))"
proof (induction bs cs arbitrary: d t rule: list_induct2')
  case (4 b bs c cs)
  let ?w = "fold_up sha v bs cs"
  have w32: "length ?w = 32"
    using "4.prems"(4) sha by (cases bs; cases cs) (auto simp: Let_def PrefixParentHash_def)
  define x where "x = (if b then parent_pre c ?w else parent_pre ?w c)"
  have x: "sha x = phash sha d t" "x \<in> S"
    using "4.prems"(2,6) by (auto simp: x_def Let_def PrefixParentHash_def)
  show ?case
  proof (cases t)
    case (PStand s)
    then have "x = standin_pre s (of_nat (d - 1))"
      using x "4.prems"(5) inj by (auto simp: PrefixStandInHash_def dest: inj_onD)
    then show ?thesis by (auto simp: x_def split: if_splits)
  next
    case (PLeaf i k p)
    then have "x = leaf_pre i k p"
      using x "4.prems"(5) inj by (auto simp: PrefixLeafHash_def dest: inj_onD)
    then show ?thesis by (auto simp: x_def split: if_splits)
  next
    case (PNode l r)
    then have "x = parent_pre (phash sha (Suc d) l) (phash sha (Suc d) r)"
      using x "4.prems"(5) inj by (auto simp: PrefixParentHash_def dest: inj_onD)
    then have e: "?w = phash sha (Suc d) (if b then r else l) \<and> c = phash sha (Suc d) (if b then l else r)"
      using w32 "4.prems"(3) length_phash[OF sha]
      by (auto simp: x_def parent_pre_inj split: if_splits)
    have "phash_pre sha (Suc d) (if b then r else l) \<subseteq> S" using "4.prems"(5) PNode by auto
    then obtain u where u: "subtree (if b then r else l) bs = Some u"
      "phash sha (Suc d + length bs) u = v" "phash_pre sha (Suc d + length bs) u \<subseteq> S"
      "\<forall>u'. phash sha (Suc d) (put (if b then r else l) bs u') =
        fold_up sha (phash sha (Suc d + length bs) u') bs cs \<and>
        (phash_pre sha (Suc d + length bs) u' \<union> set (fold_up_pre sha (phash sha (Suc d + length bs) u') bs cs) \<subseteq> S
          \<longrightarrow> phash_pre sha (Suc d) (put (if b then r else l) bs u') \<subseteq> S)"
      using "4.IH"[of "Suc d" "if b then r else l"] e "4.prems" by auto
    have sb: "phash_pre sha (Suc d) l \<subseteq> S" "phash_pre sha (Suc d) r \<subseteq> S"
      using "4.prems"(5) PNode by auto
    have pw: "phash sha (Suc d) (put (if b then r else l) bs u') =
        fold_up sha (phash sha (Suc d + length bs) u') bs cs" for u' using u(4) by blast
    have "phash_pre sha d (put t (b # bs) u') \<subseteq> S"
      if "phash_pre sha (Suc d + length bs) u' \<subseteq> S"
        "set (fold_up_pre sha (phash sha (Suc d + length bs) u') (b # bs) (c # cs)) \<subseteq> S" for u'
    proof -
      have "phash_pre sha (Suc d) (put (if b then r else l) bs u') \<subseteq> S"
        using u(4) that by (auto simp: Let_def)
      then show ?thesis using that sb e pw[of u'] PNode by (cases b) (auto simp: Let_def)
    qed
    moreover have "phash sha d (put t (b # bs) u') =
        fold_up sha (phash sha (Suc d + length bs) u') (b # bs) (c # cs)" for u'
      using pw[of u'] e PNode by (cases b) (auto simp: Let_def)
    ultimately show ?thesis
      by (intro exI[of _ u]) (use PNode u(1-3) in auto)
  qed
qed auto

lemma lookup_subtree: "subtree t bs = Some u \<Longrightarrow> lookup t (bs @ cs) = lookup u cs"
  by (induction t bs rule: subtree.induct) (auto split: if_splits)

lemma lookup_put: "subtree t bs = Some u \<Longrightarrow> lookup (put t bs v) (bs @ cs) = lookup v cs"
  by (induction t bs v rule: put.induct) (auto split: if_splits)

lemma lookup_put_other:
  "subtree t bs = Some u \<Longrightarrow> take (length bs) cs \<noteq> bs \<Longrightarrow> lookup (put t bs v) cs = lookup t cs"
proof (induction t bs v arbitrary: cs rule: put.induct)
  case (2 l r b bs v)
  then show ?case by (cases cs) (auto split: if_splits)
qed auto

subsection \<open>Index bits\<close>

definition idx_bit :: "bytes \<Rightarrow> nat \<Rightarrow> bool" where
  "idx_bit index i = bit (index ! (i div 8)) (7 - i mod 8)"

definition index_bits :: "bytes \<Rightarrow> bool list" where
  "index_bits index = map (idx_bit index) [0..<256]"

lemma length_index_bits [simp]: "length (index_bits index) = 256"
  by (simp add: index_bits_def)

lemma take_index_bits: "n \<le> 256 \<Longrightarrow> take n (index_bits index) = map (idx_bit index) [0..<n]"
  by (simp add: index_bits_def take_map)

lemma index_clear_bit: "index_clear index n \<longleftrightarrow> \<not> idx_bit index n"
proof -
  have k: "7 - n mod 8 < 8" by simp
  have "(push_bit (7 - n mod 8) 1 :: byte) = 2 ^ (7 - n mod 8)" by simp
  then show ?thesis unfolding index_clear_def idx_bit_def
    by (simp only: and_exp_eq_0_iff_not_bit)
qed

lemma index_bits_inj:
  assumes "length i = 32" "length j = 32" "index_bits i = index_bits j"
  shows "i = j"
proof (rule nth_equalityI)
  show "length i = length j" using assms by simp
  fix k assume "k < length i"
  then have k: "k < 32" using assms by simp
  show "i ! k = j ! k"
  proof (rule bit_word_eqI)
    fix m assume "m < LENGTH(8)"
    then have m: "m < 8" by simp
    define t where "t = 7 - m"
    define n where "n = 8 * k + t"
    have t: "t < 8" "7 - t = m" using m by (auto simp: t_def)
    then have n: "n < 256" "n div 8 = k" "7 - n mod 8 = m" using k by (auto simp: n_def)
    have "index_bits i ! n = index_bits j ! n" using assms(3) by simp
    then show "bit (i ! k) m = bit (j ! k) m" using n by (simp add: index_bits_def idx_bit_def)
  qed
qed

text \<open>
  \<open>evaluatePrefixProof\<close> takes the siblings leaf first: the first element of the proof is
  combined at the deepest level.
\<close>

lemma fold_up_snoc:
  "length bs = length cs \<Longrightarrow>
   fold_up sha v (bs @ [b]) (cs @ [c]) =
   fold_up sha (if b then PrefixParentHash sha c v else PrefixParentHash sha v c) bs cs"
  by (induction bs cs rule: list_induct2) (auto simp: Let_def)

lemma eval_loop_fold:
  "length ps + i = len \<Longrightarrow>
   eval_loop sha index len i ps v = fold_up sha v (map (idx_bit index) [0..<len - i]) (rev ps)"
proof (induction ps arbitrary: i v)
  case (Cons p ps)
  have e: "len - i = Suc (len - Suc i)" using Cons.prems by simp
  have "eval_loop sha index len i (p # ps) v =
      fold_up sha (if idx_bit index (len - Suc i) then PrefixParentHash sha p v else PrefixParentHash sha v p)
        (map (idx_bit index) [0..<len - Suc i]) (rev ps)"
    using Cons.IH[of "Suc i"] Cons.prems by (simp add: index_clear_bit)
  then show ?case unfolding e
    using Cons.prems by (simp add: fold_up_snoc)
qed simp

lemma evaluatePrefixProof_fold:
  "length proof = 256 \<Longrightarrow>
   evaluatePrefixProof sha index ctr pos proof =
   Inr (fold_up sha (PrefixLeafHash sha index ctr pos) (index_bits index) (rev proof))"
  using eval_loop_fold[of "proof" 0 256 sha index]
  by (simp add: evaluatePrefixProof_def prefixTreeDepth_def index_bits_def)

text \<open>
  A search proof that reproduces the root of a tree shows what that tree holds at the
  index, and a proof of any other length is refused.
\<close>

text \<open>
C8. A search proof that evaluates to the root of a prefix tree shows that the tree holds
  the claimed counter and position at that index, unless SHA-256 collides on a preimage of
  the tree or the proof.
\<close>

theorem evaluatePrefixProof_sound:
  assumes "evaluatePrefixProof sha index ctr pos proof = Inr (phash sha 0 t)"
    and "\<And>x. length (sha x) = 32" "\<forall>c\<in>set proof. length c = 32" "length index = 32"
  shows "lookup t (index_bits index) = Some (index, ctr, pos) \<or>
    collides sha (phash_pre sha 0 t \<union> {leaf_pre index ctr pos} \<union>
      set (fold_up_pre sha (PrefixLeafHash sha index ctr pos) (index_bits index) (rev proof)))"
    (is "_ \<or> collides sha ?S")
proof (rule or_collidesI)
  assume inj: "inj_on sha ?S"
  have l: "length proof = 256" and f: "fold_up sha (PrefixLeafHash sha index ctr pos) (index_bits index) (rev proof) = phash sha 0 t"
    using assms(1) evaluatePrefixProof_fold[of "proof" sha index ctr pos]
    by (auto simp: evaluatePrefixProof_def prefixTreeDepth_def split: if_splits)
  obtain u where u: "subtree t (index_bits index) = Some u"
    "phash sha (0 + length (index_bits index)) u = PrefixLeafHash sha index ctr pos"
    "phash_pre sha (0 + length (index_bits index)) u \<subseteq> ?S"
    using fold_up_follows[OF assms(2) inj _ f] assms(2,3) l by (auto simp: PrefixLeafHash_def)
  have "u = PLeaf index ctr pos"
  proof (cases u)
    case (PStand s)
    then have "standin_pre s (of_nat (256 - 1)) = leaf_pre index ctr pos"
      using u(2,3) by - (rule inj_onD[OF inj], auto simp: PrefixStandInHash_def PrefixLeafHash_def)
    then show ?thesis by simp
  next
    case (PNode l r)
    then have "parent_pre (phash sha (Suc 256) l) (phash sha (Suc 256) r) = leaf_pre index ctr pos"
      using u(2,3) by - (rule inj_onD[OF inj], auto simp: PrefixParentHash_def PrefixLeafHash_def)
    then show ?thesis by simp
  next
    case (PLeaf i c p)
    then have "leaf_pre i c p = leaf_pre index ctr pos"
      using u(2,3) by - (rule inj_onD[OF inj], auto simp: PrefixLeafHash_def)
    then have "i @ be32 c @ be64 p = index @ be32 ctr @ be64 pos" by (simp add: leaf_pre_def)
    moreover from this have "length i = length index" by (auto dest!: arg_cong[of _ _ length])
    ultimately show ?thesis using PLeaf by simp
  qed
  then show "lookup t (index_bits index) = Some (index, ctr, pos)"
    using lookup_subtree[OF u(1), of "[]"] by simp
qed

subsection \<open>Fresh subtrees\<close>

lemma fold_up_append:
  "length bs = length cs \<Longrightarrow>
   fold_up sha v (bs @ bs') (cs @ cs') = fold_up sha (fold_up sha v bs' cs') bs cs"
  by (induction bs cs rule: list_induct2) (auto simp: Let_def)

lemma fold_up_pre_append:
  "length bs = length cs \<Longrightarrow>
   set (fold_up_pre sha v (bs @ bs') (cs @ cs')) =
   set (fold_up_pre sha (fold_up sha v bs' cs') bs cs) \<union> set (fold_up_pre sha v bs' cs')"
  by (induction bs cs rule: list_induct2) (auto simp: Let_def fold_up_append)

text \<open>The subtree a real update puts where the stand-in was.\<close>

fun fresh :: "bytes \<Rightarrow> bool list \<Rightarrow> ptree \<Rightarrow> ptree" where
  "fresh seed [] t = t"
| "fresh seed (b # bs) t =
     (if b then PNode (PStand seed) (fresh seed bs t) else PNode (fresh seed bs t) (PStand seed))"

definition standins :: "(bytes \<Rightarrow> hash) \<Rightarrow> bytes \<Rightarrow> nat \<Rightarrow> nat \<Rightarrow> hash list" where
  "standins sha seed d n = map (\<lambda>i. PrefixStandInHash sha seed (of_nat i)) [d..<n]"

lemma phash_fresh:
  "phash sha d (fresh seed bs t) =
   fold_up sha (phash sha (d + length bs) t) bs (standins sha seed d (d + length bs))"
proof (induction bs arbitrary: d)
  case (Cons b bs)
  have "[d..<d + length (b # bs)] = d # [Suc d..<Suc d + length bs]" by (subst upt_conv_Cons) simp_all
  then show ?case using Cons.IH[of "Suc d"] by (simp add: standins_def Let_def)
qed (simp add: standins_def)

lemma phash_pre_fresh:
  "phash_pre sha d (fresh seed bs t) \<subseteq> phash_pre sha (d + length bs) t \<union>
   set (map (\<lambda>i. standin_pre seed (of_nat i)) [d..<d + length bs]) \<union>
   set (fold_up_pre sha (phash sha (d + length bs) t) bs (standins sha seed d (d + length bs)))"
proof (induction bs arbitrary: d)
  case (Cons b bs)
  have u: "[d..<d + length (b # bs)] = d # [Suc d..<Suc d + length bs]" by (subst upt_conv_Cons) simp_all
  have s: "standins sha seed d (d + length (b # bs)) =
      PrefixStandInHash sha seed (of_nat d) # standins sha seed (Suc d) (Suc d + length bs)"
    unfolding standins_def u by simp
  show ?case unfolding s u
    using Cons.IH[of "Suc d"] phash_fresh[of sha "Suc d" seed bs t] by (auto simp: Let_def)
qed (simp add: standins_def)

lemma lookup_fresh: "lookup (fresh seed bs t) (bs @ cs) = lookup t cs"
  by (induction bs) auto

lemma lookup_fresh_other:
  "take (length bs) cs \<noteq> bs \<Longrightarrow> length bs \<le> length cs \<Longrightarrow> lookup (fresh seed bs t) cs = None"
proof (induction bs arbitrary: cs)
  case (Cons b bs)
  then show ?case by (cases cs) auto
qed simp

lemma evaluatePrefixProof_sound_witness:
  "let i = replicate 32 7; t = fresh [1] (index_bits i) (PLeaf i 5 9); ps = rev (standins toy_sha [1] 0 256)
   in evaluatePrefixProof toy_sha i 5 9 ps = Inr (phash toy_sha 0 t) \<and>
     (lookup t (index_bits i) = Some (i, 5, 9) \<or>
      collides toy_sha (phash_pre toy_sha 0 t \<union> {leaf_pre i 5 9} \<union>
        set (fold_up_pre toy_sha (PrefixLeafHash toy_sha i 5 9) (index_bits i) (rev ps))))"
proof -
  let ?i = "replicate 32 7 :: bytes"
  let ?t = "fresh [1] (index_bits ?i) (PLeaf ?i 5 9)" and ?ps = "rev (standins toy_sha [1] 0 256)"
  have l: "length ?ps = 256" by (simp add: standins_def)
  have e: "evaluatePrefixProof toy_sha ?i 5 9 ?ps = Inr (phash toy_sha 0 ?t)"
    using evaluatePrefixProof_fold[OF l, of toy_sha ?i 5 9]
      phash_fresh[of toy_sha 0 "[1]" "index_bits ?i" "PLeaf ?i 5 9"] by simp
  have c: "\<forall>c\<in>set ?ps. length c = 32" by (auto simp: standins_def PrefixStandInHash_def)
  show ?thesis unfolding Let_def
    using e evaluatePrefixProof_sound[OF e length_toy_sha c] by simp
qed

end
