(* ===== verification/Signal_Audit.thy ===== *)
theory Signal_Audit
  imports Log_Frontier Prefix_Tree
begin

text \<open>
  The auditor's replay, \<open>internal/signalaudit\<close>: decoding and encoding one
  \<open>AuditorUpdate\<close> (\<open>update.go\<close>), and applying it to the state an auditor keeps
  (\<open>state.go\<close>).  Wire messages go through the strict reader of \<open>Pbwire\<close>, the log through
  \<open>Log_Frontier\<close>, hashes through \<open>Prefix_Tree\<close>.
\<close>

subsection \<open>Updates\<close>

definition IndexSize :: nat where "IndexSize = 32"
definition SeedSize :: nat where "SeedSize = 16"
definition CommitmentSize :: nat where "CommitmentSize = 32"
definition HashSize :: nat where "HashSize = 32"
definition MaxCopath :: nat where "MaxCopath = 256"

lemmas sizes = IndexSize_def SeedSize_def CommitmentSize_def HashSize_def MaxCopath_def

text \<open>\<open>ProofKind\<close> is a \<open>uint8\<close>; 0 stands for a proof not yet seen.\<close>

type_synonym ProofKind = byte

definition NewTree :: ProofKind where "NewTree = 1"
definition DifferentKey :: ProofKind where "DifferentKey = 3"
definition SameKey :: ProofKind where "SameKey = 4"

lemmas kinds = NewTree_def DifferentKey_def SameKey_def

record Update =
  Real :: bool
  Index :: bytes
  Seed :: bytes
  Commitment :: bytes
  Proof :: ProofKind
  Copath :: "hash list"
  OldSeed :: bytes
  Counter :: u32
  Position :: u64

definition zeroUpdate :: Update where
  "zeroUpdate = \<lparr>Real = False, Index = replicate 32 0, Seed = replicate 16 0,
     Commitment = replicate 32 0, Proof = 0, Copath = [], OldSeed = replicate 16 0,
     Counter = 0, Position = 0\<rparr>"

datatype malformed =
    BadMessage field_error
  | Repeated nat
  | BadWire nat byte
  | BadBool u64
  | BadLength nat nat
  | MissingProof
  | TwoProofs ProofKind ProofKind
  | NoProofKind
  | BadOldSeed
  | MissingOldSeed
  | TooManyCopath
  | CounterTooBig u64
  | FakeNewTree
  | NewTreeCopath nat
  | DifferentKeyCopath nat
  | FakeSameKey
  | SameKeyCopath nat
  | UnknownKind ProofKind

text \<open>\<open>validate\<close>: the rules that do not depend on the tree.\<close>

definition validate :: "Update \<Rightarrow> malformed option" where
  "validate u =
     (if Proof u = NewTree then
        (if \<not> Real u then Some FakeNewTree
         else if length (Copath u) \<noteq> 0 then Some (NewTreeCopath (length (Copath u)))
         else None)
      else if Proof u = DifferentKey then
        (let n = length (Copath u)
         in if n < 1 \<or> n > MaxCopath then Some (DifferentKeyCopath n) else None)
      else if Proof u = SameKey then
        (if \<not> Real u then Some FakeSameKey
         else if length (Copath u) > MaxCopath then Some (SameKeyCopath (length (Copath u)))
         else None)
      else Some (UnknownKind (Proof u)))"

subsection \<open>Decoding\<close>

text \<open>The loop over the proof message; \<open>ProofKind(f.Num)\<close> truncates to eight bits.\<close>

fun proof_loop :: "Field list \<Rightarrow> ProofKind \<Rightarrow> bytes \<Rightarrow> malformed + (ProofKind \<times> bytes)" where
  "proof_loop [] kind body = Inr (kind, body)"
| "proof_loop (f # fs) kind body =
     (let k = of_nat (fNum f) :: ProofKind
      in if k \<noteq> NewTree \<and> k \<noteq> DifferentKey \<and> k \<noteq> SameKey then proof_loop fs kind body
         else if kind \<noteq> 0 then Inl (TwoProofs kind k)
         else if fWire f \<noteq> 2 then Inl (BadWire (fNum f) (fWire f))
         else proof_loop fs k (fBytes f))"

text \<open>The loop over the proof's body; \<open>seen\<close> holds the field numbers already met.\<close>

fun body_loop :: "Field list \<Rightarrow> nat set \<Rightarrow> Update \<Rightarrow> malformed + (nat set \<times> Update)" where
  "body_loop [] seen u = Inr (seen, u)"
| "body_loop (f # fs) seen u =
     (if fNum f = 1 then
        (if fWire f \<noteq> 2 then Inl (BadWire 1 (fWire f))
         else if length (fBytes f) \<noteq> HashSize then Inl (BadLength 1 (length (fBytes f)))
         else if length (Copath u) = MaxCopath then Inl TooManyCopath
         else body_loop fs seen (u\<lparr>Copath := Copath u @ [fBytes f]\<rparr>))
      else if fNum f = 2 \<and> Proof u = DifferentKey then
        (if 2 \<in> seen then Inl (Repeated 2)
         else if fWire f \<noteq> 2 \<or> length (fBytes f) \<noteq> SeedSize then Inl BadOldSeed
         else body_loop fs (insert 2 seen) (u\<lparr>OldSeed := fBytes f\<rparr>))
      else if (fNum f = 2 \<or> fNum f = 3) \<and> Proof u = SameKey then
        (if fNum f \<in> seen then Inl (Repeated (fNum f))
         else if fWire f \<noteq> 0 then Inl (BadWire (fNum f) (fWire f))
         else if fNum f = 2 then
           (if fVarint f > 0xffffffff then Inl (CounterTooBig (fVarint f))
            else body_loop fs (insert 2 seen) (u\<lparr>Counter := ucast (fVarint f)\<rparr>))
         else body_loop fs (insert 3 seen) (u\<lparr>Position := fVarint f\<rparr>))
      else body_loop fs seen u)"

definition decodeProof :: "bytes \<Rightarrow> Update \<Rightarrow> malformed + Update" where
  "decodeProof b u =
     (case Fields b of
        Inl e \<Rightarrow> Inl (BadMessage e)
      | Inr fs \<Rightarrow>
          (case proof_loop fs (Proof u) [] of
             Inl e \<Rightarrow> Inl e
           | Inr (kind, body) \<Rightarrow>
               if kind = 0 then Inl NoProofKind
               else case Fields body of
                 Inl e \<Rightarrow> Inl (BadMessage e)
               | Inr fs \<Rightarrow>
                   let u = u\<lparr>Proof := kind\<rparr>
                   in if kind = NewTree then Inr u
                      else case body_loop fs {} u of
                        Inl e \<Rightarrow> Inl e
                      | Inr (seen, u) \<Rightarrow>
                          if Proof u = DifferentKey \<and> 2 \<notin> seen then Inl MissingOldSeed
                          else Inr u))"

text \<open>The loop over the outer message: the fields' bytes by number, and the \<open>real\<close> flag.\<close>

record outer =
  oSeen :: "nat set"
  oReal :: bool
  oIndex :: bytes
  oSeed :: bytes
  oCommitment :: bytes
  oProof :: bytes

fun outer_loop :: "Field list \<Rightarrow> outer \<Rightarrow> malformed + outer" where
  "outer_loop [] r = Inr r"
| "outer_loop (f # fs) r =
     (if fNum f < 1 \<or> fNum f > 5 then outer_loop fs r
      else if fNum f \<in> oSeen r then Inl (Repeated (fNum f))
      else if fWire f \<noteq> (if fNum f = 1 then 0 else 2) then Inl (BadWire (fNum f) (fWire f))
      else let r = r\<lparr>oSeen := insert (fNum f) (oSeen r)\<rparr>
           in if fNum f = 1 then
                (if fVarint f > 1 then Inl (BadBool (fVarint f))
                 else outer_loop fs (r\<lparr>oReal := (fVarint f = 1)\<rparr>))
              else if fNum f = 2 then outer_loop fs (r\<lparr>oIndex := fBytes f\<rparr>)
              else if fNum f = 3 then outer_loop fs (r\<lparr>oSeed := fBytes f\<rparr>)
              else if fNum f = 4 then outer_loop fs (r\<lparr>oCommitment := fBytes f\<rparr>)
              else outer_loop fs (r\<lparr>oProof := fBytes f\<rparr>))"

definition outer_empty :: outer where
  "outer_empty = \<lparr>oSeen = {}, oReal = False, oIndex = [], oSeed = [], oCommitment = [], oProof = []\<rparr>"

definition DecodeUpdate :: "bytes \<Rightarrow> malformed + Update" where
  "DecodeUpdate b =
     (case Fields b of
        Inl e \<Rightarrow> Inl (BadMessage e)
      | Inr fs \<Rightarrow>
          (case outer_loop fs outer_empty of
             Inl e \<Rightarrow> Inl e
           | Inr r \<Rightarrow>
               if length (oIndex r) \<noteq> IndexSize then Inl (BadLength 2 (length (oIndex r)))
               else if length (oSeed r) \<noteq> SeedSize then Inl (BadLength 3 (length (oSeed r)))
               else if length (oCommitment r) \<noteq> CommitmentSize then Inl (BadLength 4 (length (oCommitment r)))
               else if 5 \<notin> oSeen r then Inl MissingProof
               else case decodeProof (oProof r)
                      (zeroUpdate\<lparr>Real := oReal r, Index := oIndex r, Seed := oSeed r,
                                  Commitment := oCommitment r\<rparr>) of
                 Inl e \<Rightarrow> Inl e
               | Inr u \<Rightarrow> (case validate u of Some e \<Rightarrow> Inl e | None \<Rightarrow> Inr u)))"

subsection \<open>Encoding\<close>

definition appendBytes :: "bytes \<Rightarrow> nat \<Rightarrow> bytes \<Rightarrow> bytes" where
  "appendBytes b field v = AppendVarint (AppendTag b field 2) (of_nat (length v)) @ v"

definition EncodeUpdate :: "Update \<Rightarrow> bytes" where
  "EncodeUpdate u =
     (let b = (if Real u then AppendVarint (AppendTag [] 1 0) 1 else []);
          b = appendBytes b 2 (Index u);
          b = appendBytes b 3 (Seed u);
          b = appendBytes b 4 (Commitment u);
          body = foldl (\<lambda>body c. appendBytes body 1 c) [] (Copath u);
          body = (if Proof u = DifferentKey then appendBytes body 2 (OldSeed u)
                  else if Proof u = SameKey then
                    (let body = (if Counter u \<noteq> 0
                                 then AppendVarint (AppendTag body 2 0) (ucast (Counter u)) else body)
                     in if Position u \<noteq> 0
                        then AppendVarint (AppendTag body 3 0) (Position u) else body)
                  else body)
      in appendBytes b 5 (appendBytes [] (unat (Proof u)) body))"

subsection \<open>The state and its one transition\<close>

record State =
  prefixRoot :: hash
  log :: LogFrontier

definition empty_state :: State where
  "empty_state = \<lparr>prefixRoot = replicate 32 0, log = empty_frontier\<rparr>"

definition Size :: "State \<Rightarrow> u64" where "Size s = lsize (log s)"

definition PrefixRoot :: "State \<Rightarrow> hash \<times> bool" where
  "PrefixRoot s = (prefixRoot s, Size s > 0)"

datatype proof_reason =
    TreeNotEmpty u64
  | FirstMustBeNewTree
  | NonInclusionMismatch hash
  | InclusionMismatch hash
  | CounterOverflow
  | LogFull frontier_error

datatype audit_error =
    MalformedError malformed
  | ProofError u64 ProofKind proof_reason

text \<open>\<open>bit(index, i)\<close>\<close>

definition path_bit :: "bytes \<Rightarrow> nat \<Rightarrow> byte" where
  "path_bit index i = drop_bit (7 - i mod 8) (index ! (i div 8)) AND 1"

text \<open>\<open>for i := len(copath) - 1; i >= 0; i--\<close>: \<open>i\<close> counts down from the length.\<close>

fun fold_loop :: "(bytes \<Rightarrow> hash) \<Rightarrow> bytes \<Rightarrow> hash list \<Rightarrow> nat \<Rightarrow> hash \<Rightarrow> hash" where
  "fold_loop sha index copath 0 value = value"
| "fold_loop sha index copath (Suc i) value =
     fold_loop sha index copath i
       (if path_bit index i = 0 then PrefixParentHash sha value (copath ! i)
        else PrefixParentHash sha (copath ! i) value)"

definition fold_path :: "(bytes \<Rightarrow> hash) \<Rightarrow> hash \<Rightarrow> bytes \<Rightarrow> hash list \<Rightarrow> hash" where
  "fold_path sha value index copath = fold_loop sha index copath (length copath) value"

definition fakeRoot :: "(bytes \<Rightarrow> hash) \<Rightarrow> bytes \<Rightarrow> hash list \<Rightarrow> bytes \<Rightarrow> hash" where
  "fakeRoot sha index copath seed =
     fold_path sha (PrefixStandInHash sha seed (of_nat (length copath - 1))) index copath"

definition padCopath :: "(bytes \<Rightarrow> hash) \<Rightarrow> hash list \<Rightarrow> bytes \<Rightarrow> hash list" where
  "padCopath sha copath seed =
     take MaxCopath copath @
     map (\<lambda>i. PrefixStandInHash sha seed (of_nat i)) [length copath..<MaxCopath]"

definition realRoot :: "(bytes \<Rightarrow> hash) \<Rightarrow> bytes \<Rightarrow> u32 \<Rightarrow> u64 \<Rightarrow> hash list \<Rightarrow> bytes \<Rightarrow> hash" where
  "realRoot sha index ctr pos copath seed =
     fold_path sha (PrefixLeafHash sha index ctr pos) index (padCopath sha copath seed)"

text \<open>The prefix root \<open>Apply\<close> computes before it touches the state.\<close>

definition next_root :: "(bytes \<Rightarrow> hash) \<Rightarrow> State \<Rightarrow> Update \<Rightarrow> proof_reason + hash" where
  "next_root sha s u =
     (let pos = Size s
      in if Proof u = NewTree then
           (if pos \<noteq> 0 then Inl (TreeNotEmpty pos)
            else Inr (realRoot sha (Index u) 0 0 [] (Seed u)))
         else if Proof u = DifferentKey then
           (if pos = 0 then Inl FirstMustBeNewTree
            else let got = fakeRoot sha (Index u) (Copath u) (OldSeed u)
                 in if got \<noteq> prefixRoot s then Inl (NonInclusionMismatch got)
                    else Inr (if Real u then realRoot sha (Index u) 0 pos (Copath u) (Seed u)
                              else fakeRoot sha (Index u) (Copath u) (Seed u)))
         else if Proof u = SameKey then
           (if pos = 0 then Inl FirstMustBeNewTree
            else let path = padCopath sha (Copath u) (Seed u);
                     got = fold_path sha (PrefixLeafHash sha (Index u) (Counter u) (Position u)) (Index u) path
                 in if got \<noteq> prefixRoot s then Inl (InclusionMismatch got)
                    else if Counter u = - 1 then Inl CounterOverflow
                    else Inr (fold_path sha (PrefixLeafHash sha (Index u) (Counter u + 1) (Position u))
                               (Index u) path))
         else Inr (replicate 32 0))"

definition Apply :: "(bytes \<Rightarrow> hash) \<Rightarrow> State \<Rightarrow> Update \<Rightarrow> State \<times> audit_error option" where
  "Apply sha s u =
     (case validate u of
        Some e \<Rightarrow> (s, Some (MalformedError e))
      | None \<Rightarrow>
          (case next_root sha s u of
             Inl r \<Rightarrow> (s, Some (ProofError (Size s) (Proof u) r))
           | Inr next \<Rightarrow>
               (case Append sha (log s) (LogLeafHash sha next (Commitment u)) of
                  Inl e \<Rightarrow> (s, Some (ProofError (Size s) (Proof u) (LogFull e)))
                | Inr lg \<Rightarrow> (s\<lparr>log := lg, prefixRoot := next\<rparr>, None))))"

subsection \<open>Every accepted update is a legal change of the directory\<close>

type_synonym directory = "bytes \<rightharpoonup> u32 \<times> u64"

definition dir :: "ptree \<Rightarrow> directory" where
  "dir t i = (if length i = 32 then map_option snd (lookup t (index_bits i)) else None)"

text \<open>
  What an update may do to the directory at log position \<open>pos\<close>: open it with its first
  key, add a key that is not in it (or, for a fake update, leave it alone), or raise the
  counter of a key by one, keeping its first position.
\<close>

definition dir_step :: "directory \<Rightarrow> u64 \<Rightarrow> Update \<Rightarrow> directory option" where
  "dir_step D pos u =
     (if Proof u = NewTree then
        (if pos = 0 \<and> Real u then Some [Index u \<mapsto> (0, 0)] else None)
      else if Proof u = DifferentKey then
        (if pos \<noteq> 0 \<and> D (Index u) = None
         then Some (if Real u then D(Index u \<mapsto> (0, pos)) else D) else None)
      else if Proof u = SameKey then
        (if pos \<noteq> 0 \<and> Real u \<and> D (Index u) = Some (Counter u, Position u) \<and> Counter u \<noteq> - 1
         then Some (D(Index u \<mapsto> (Counter u + 1, Position u))) else None)
      else None)"

definition wf_update :: "Update \<Rightarrow> bool" where
  "wf_update u \<longleftrightarrow> length (Index u) = 32 \<and> length (Seed u) = 16 \<and> length (OldSeed u) = 16 \<and>
     length (Commitment u) = 32 \<and> (\<forall>c\<in>set (Copath u). length c = 32)"

text \<open>The preimages \<open>Apply\<close> hashes for the prefix tree.\<close>

definition fakeRoot_pre :: "(bytes \<Rightarrow> hash) \<Rightarrow> bytes \<Rightarrow> hash list \<Rightarrow> bytes \<Rightarrow> bytes list" where
  "fakeRoot_pre sha index copath seed =
     (let lvl = of_nat (length copath - 1)
      in standin_pre seed lvl #
         fold_up_pre sha (PrefixStandInHash sha seed lvl) (take (length copath) (index_bits index)) copath)"

definition realRoot_pre :: "(bytes \<Rightarrow> hash) \<Rightarrow> bytes \<Rightarrow> u32 \<Rightarrow> u64 \<Rightarrow> hash list \<Rightarrow> bytes \<Rightarrow> bytes list" where
  "realRoot_pre sha index ctr pos copath seed =
     leaf_pre index ctr pos # map (\<lambda>i. standin_pre seed (of_nat i)) [length copath..<256] @
     fold_up_pre sha (PrefixLeafHash sha index ctr pos) (index_bits index) (padCopath sha copath seed)"

definition Apply_pre :: "(bytes \<Rightarrow> hash) \<Rightarrow> State \<Rightarrow> Update \<Rightarrow> bytes list" where
  "Apply_pre sha s u =
     (if Proof u = NewTree then realRoot_pre sha (Index u) 0 0 [] (Seed u)
      else if Proof u = DifferentKey then
        fakeRoot_pre sha (Index u) (Copath u) (OldSeed u) @
        (if Real u then realRoot_pre sha (Index u) 0 (Size s) (Copath u) (Seed u)
         else fakeRoot_pre sha (Index u) (Copath u) (Seed u))
      else
        realRoot_pre sha (Index u) (Counter u) (Position u) (Copath u) (Seed u) @
        realRoot_pre sha (Index u) (Counter u + 1) (Position u) (Copath u) (Seed u))"

lemma path_bit_iff: "path_bit index i = 0 \<longleftrightarrow> \<not> idx_bit index i"
proof -
  have "path_bit index i = of_bool (odd (drop_bit (7 - i mod 8) (index ! (i div 8))))"
    by (simp add: path_bit_def and_one_eq odd_iff_mod_2_eq_one mod2_eq_if)
  then show ?thesis by (simp add: idx_bit_def bit_iff_odd_drop_bit)
qed

lemma fold_loop_fold_up:
  "i \<le> length cs \<Longrightarrow> fold_loop sha index cs i v = fold_up sha v (map (idx_bit index) [0..<i]) (take i cs)"
proof (induction i arbitrary: v)
  case (Suc i)
  then show ?case
    by (simp add: take_Suc_conv_app_nth fold_up_snoc path_bit_iff)
qed simp

lemma fold_path_fold_up:
  "length cs \<le> 256 \<Longrightarrow> fold_path sha v index cs = fold_up sha v (take (length cs) (index_bits index)) cs"
  by (simp add: fold_path_def fold_loop_fold_up take_index_bits)

lemma realRoot_split:
  assumes "length cs \<le> 256"
  shows "realRoot sha index ctr pos cs seed =
    fold_up sha (phash sha (length cs) (fresh seed (drop (length cs) (index_bits index)) (PLeaf index ctr pos)))
      (take (length cs) (index_bits index)) cs" (is ?A)
    and "set (realRoot_pre sha index ctr pos cs seed) \<supseteq>
      phash_pre sha (length cs) (fresh seed (drop (length cs) (index_bits index)) (PLeaf index ctr pos)) \<union>
      set (fold_up_pre sha (phash sha (length cs) (fresh seed (drop (length cs) (index_bits index)) (PLeaf index ctr pos)))
        (take (length cs) (index_bits index)) cs)" (is ?B)
proof -
  let ?n = "length cs" and ?bs = "index_bits index" and ?v = "PrefixLeafHash sha index ctr pos"
  have pad: "padCopath sha cs seed = cs @ standins sha seed ?n 256"
    using assms by (simp add: padCopath_def MaxCopath_def standins_def)
  have lp: "length (padCopath sha cs seed) = 256" using assms by (simp add: pad standins_def)
  have lt: "length (take ?n ?bs) = length cs" using assms by simp
  have n256: "?n + length (drop ?n ?bs) = 256" using assms by simp
  have fr: "phash sha ?n (fresh seed (drop ?n ?bs) (PLeaf index ctr pos)) =
      fold_up sha ?v (drop ?n ?bs) (standins sha seed ?n 256)"
    unfolding phash_fresh n256 by simp
  have b: "?bs = take ?n ?bs @ drop ?n ?bs" by simp
  show ?A
    unfolding realRoot_def using lp assms
    by (subst fold_path_fold_up, simp)
       (simp only: lp take_all length_index_bits order_refl,
        subst b, simp only: pad fold_up_append[OF lt] fr)
  have pf: "phash_pre sha ?n (fresh seed (drop ?n ?bs) (PLeaf index ctr pos)) \<subseteq>
      {leaf_pre index ctr pos} \<union> set (map (\<lambda>i. standin_pre seed (of_nat i)) [?n..<256]) \<union>
      set (fold_up_pre sha ?v (drop ?n ?bs) (standins sha seed ?n 256))"
    using phash_pre_fresh[of sha ?n seed "drop ?n ?bs" "PLeaf index ctr pos"] unfolding n256 by simp
  have sp: "set (fold_up_pre sha ?v ?bs (padCopath sha cs seed)) =
      set (fold_up_pre sha (fold_up sha ?v (drop ?n ?bs) (standins sha seed ?n 256)) (take ?n ?bs) cs) \<union>
      set (fold_up_pre sha ?v (drop ?n ?bs) (standins sha seed ?n 256))"
    using fold_up_pre_append[OF lt, of sha ?v "drop ?n ?bs" "standins sha seed ?n 256"]
    by (simp add: pad)
  show ?B using pf sp unfolding realRoot_pre_def fr by auto
qed

definition audit_inv :: "(bytes \<Rightarrow> hash) \<Rightarrow> bytes set \<Rightarrow> State \<Rightarrow> directory \<Rightarrow> bool" where
  "audit_inv sha S s D \<longleftrightarrow>
     (if Size s = 0 then D = Map.empty
      else \<exists>t. prefixRoot s = phash sha 0 t \<and> phash_pre sha 0 t \<subseteq> S \<and> dir t = D)"

lemma Apply_ok:
  "Apply sha s u = (t, None) \<Longrightarrow>
   validate u = None \<and> (\<exists>r. next_root sha s u = Inr r \<and> prefixRoot t = r \<and>
     Append sha (log s) (LogLeafHash sha r (Commitment u)) = Inr (log t) \<and>
     Size t = Size s + 1 \<and> Size t \<noteq> 0)"
proof -
  assume a: "Apply sha s u = (t, None)"
  have v: "validate u = None" using a by (auto simp: Apply_def split: option.splits)
  obtain r where r: "next_root sha s u = Inr r"
    using a v by (auto simp: Apply_def split: sum.splits)
  obtain lg where l: "Append sha (log s) (LogLeafHash sha r (Commitment u)) = Inr lg"
    using a v r by (auto simp: Apply_def split: sum.splits)
  have t: "t = s\<lparr>log := lg, prefixRoot := r\<rparr>" using a v r l by (auto simp: Apply_def)
  have "lsize lg = lsize (log s) + 1" "lsize (log s) \<noteq> - 1"
    using l by (auto simp: Append_def split: if_splits option.splits prod.splits)
  moreover from this have "lsize lg \<noteq> 0" by (metis add.inverse_unique add.commute)
  ultimately show ?thesis using v r l t by (simp add: Size_def)
qed

text \<open>The preimages of the three sorts of nodes determine what they are of.\<close>

lemma leaf_pre_inj:
  "length i = 32 \<Longrightarrow> leaf_pre j c p = leaf_pre i c' p' \<longleftrightarrow> j = i \<and> c = c' \<and> p = p'"
proof
  assume l: "length i = 32" and e: "leaf_pre j c p = leaf_pre i c' p'"
  then have "j @ be32 c @ be64 p = i @ be32 c' @ be64 p'" by (simp add: leaf_pre_def)
  moreover from this have "length j = length i" by (auto dest!: arg_cong[of _ _ length])
  ultimately show "j = i \<and> c = c' \<and> p = p'" by simp
qed simp

lemma phash_standin:
  assumes "inj_on sha S" "phash_pre sha d t \<subseteq> S" "standin_pre seed v \<in> S"
    "phash sha d t = PrefixStandInHash sha seed v"
  shows "t = PStand seed"
proof (cases t)
  case (PStand s)
  then have "standin_pre s (of_nat (d - 1)) = standin_pre seed v"
    using assms by - (rule inj_onD[OF assms(1)], auto simp: PrefixStandInHash_def)
  then show ?thesis using PStand by (simp add: standin_pre_def)
next
  case (PLeaf i c p)
  then have "leaf_pre i c p = standin_pre seed v"
    using assms by - (rule inj_onD[OF assms(1)], auto simp: PrefixStandInHash_def PrefixLeafHash_def)
  then show ?thesis by simp
next
  case (PNode l r)
  then have "parent_pre (phash sha (Suc d) l) (phash sha (Suc d) r) = standin_pre seed v"
    using assms by - (rule inj_onD[OF assms(1)], auto simp: PrefixStandInHash_def PrefixParentHash_def)
  then show ?thesis by simp
qed

lemma phash_leaf:
  assumes "inj_on sha S" "phash_pre sha d t \<subseteq> S" "leaf_pre i c p \<in> S" "length i = 32"
    "phash sha d t = PrefixLeafHash sha i c p"
  shows "t = PLeaf i c p"
proof (cases t)
  case (PStand s)
  then have "standin_pre s (of_nat (d - 1)) = leaf_pre i c p"
    using assms by - (rule inj_onD[OF assms(1)], auto simp: PrefixStandInHash_def PrefixLeafHash_def)
  then show ?thesis by simp
next
  case (PLeaf j c' p')
  then have "leaf_pre j c' p' = leaf_pre i c p"
    using assms by - (rule inj_onD[OF assms(1)], auto simp: PrefixLeafHash_def)
  then show ?thesis using PLeaf leaf_pre_inj[OF assms(4)] by simp
next
  case (PNode l r)
  then have "parent_pre (phash sha (Suc d) l) (phash sha (Suc d) r) = leaf_pre i c p"
    using assms by - (rule inj_onD[OF assms(1)], auto simp: PrefixLeafHash_def PrefixParentHash_def)
  then show ?thesis by simp
qed

text \<open>Replacing what is below an index's path changes the directory at that index only.\<close>

lemma dir_put:
  assumes s: "subtree t (take n (index_bits i)) = Some u" and i: "length i = 32"
    and u: "\<And>cs. length cs = 256 - n \<Longrightarrow> cs \<noteq> drop n (index_bits i) \<Longrightarrow> lookup v cs = lookup u cs"
  shows "dir (put t (take n (index_bits i)) v) =
    (dir t)(i := map_option snd (lookup v (drop n (index_bits i))))"
proof
  fix j
  let ?p = "take n (index_bits i)"
  have b: "index_bits i = ?p @ drop n (index_bits i)" by simp
  show "dir (put t ?p v) j = ((dir t)(i := map_option snd (lookup v (drop n (index_bits i))))) j"
  proof (cases "j = i")
    case True
    have "lookup (put t ?p v) (index_bits i) = lookup v (drop n (index_bits i))"
      by (subst (2) b) (rule lookup_put[OF s])
    then show ?thesis using True i by (simp add: dir_def)
  next
    case ji: False
    show ?thesis
    proof (cases "length j = 32")
      case l: True
      have ne: "index_bits j \<noteq> index_bits i" using index_bits_inj[OF l i] ji by blast
      have "lookup (put t ?p v) (index_bits j) = lookup t (index_bits j)"
      proof (cases "take (length ?p) (index_bits j) = ?p")
        case False
        then show ?thesis by (rule lookup_put_other[OF s])
      next
        case True
        then have tj: "take n (index_bits j) = ?p" by (cases "n \<le> 256") auto
        then have bj: "index_bits j = ?p @ drop n (index_bits j)" by (metis append_take_drop_id)
        have "drop n (index_bits j) \<noteq> drop n (index_bits i)"
          using ne tj by (metis append_take_drop_id)
        then have "lookup v (drop n (index_bits j)) = lookup u (drop n (index_bits j))"
          by (intro u) auto
        then show ?thesis
          by (subst (1 2) bj) (simp add: lookup_put[OF s] lookup_subtree[OF s])
      qed
      then show ?thesis using ji by (simp add: dir_def)
    qed (simp add: dir_def ji)
  qed
qed

lemma Apply_step:
  assumes sha: "\<And>x. length (sha x) = 32" and inj: "inj_on sha S"
    and pre: "set (Apply_pre sha s u) \<subseteq> S" and wf: "wf_update u"
    and inv: "audit_inv sha S s D" and ok: "Apply sha s u = (s', None)"
  shows "\<exists>D'. dir_step D (Size s) u = Some D' \<and> audit_inv sha S s' D'"
proof -
  let ?i = "Index u" let ?bits = "index_bits (Index u)"
  obtain r where v: "validate u = None" and r: "next_root sha s u = Inr r" "prefixRoot s' = r"
    and sz: "Size s' \<noteq> 0" using Apply_ok[OF ok] by auto
  have i32: "length ?i = 32" and c32: "\<forall>c\<in>set (Copath u). length c = 32"
    using wf by (simp_all add: wf_update_def)
  have distinct_kinds: "NewTree \<noteq> DifferentKey" "NewTree \<noteq> SameKey" "DifferentKey \<noteq> SameKey"
    by (simp_all add: kinds)
  consider (new) "Proof u = NewTree" | (diff) "Proof u = DifferentKey" | (same) "Proof u = SameKey"
    using v by (auto simp: validate_def split: if_splits)
  then show ?thesis
  proof cases
    case new
    define t where "t = fresh (Seed u) ?bits (PLeaf ?i 0 0)"
    have g: "Real u" "Size s = 0" "r = realRoot sha ?i 0 0 [] (Seed u)"
      using v r new by (auto simp: validate_def next_root_def Let_def split: if_splits)
    have "r = phash sha 0 t" unfolding g(3) t_def using realRoot_split(1)[of "[]" sha ?i 0 0 "Seed u"] by simp
    moreover have "phash_pre sha 0 t \<subseteq> S"
      using realRoot_split(2)[of "[]" sha "Seed u" ?i 0 0] pre new
      by (auto simp: Apply_pre_def t_def)
    moreover have "dir t = [?i \<mapsto> (0, 0)]"
    proof
      fix j
      show "dir t j = [?i \<mapsto> (0, 0)] j"
      proof (cases "j = ?i")
        case True
        then show ?thesis using lookup_fresh[of "Seed u" ?bits _ "[]"] i32 by (simp add: dir_def t_def)
      next
        case False
        have "lookup t (index_bits j) = None" if "length j = 32"
          unfolding t_def
          by (rule lookup_fresh_other) (use False index_bits_inj[OF that i32] in auto)
        then show ?thesis using False by (simp add: dir_def)
      qed
    qed
    ultimately have "audit_inv sha S s' [?i \<mapsto> (0, 0)]"
      using r(2) sz unfolding audit_inv_def by auto
    then show ?thesis using new g by (simp add: dir_step_def)
  next
    case diff
    define n where "n = length (Copath u)"
    define lvl where "lvl = (of_nat (n - 1) :: byte)"
    have "\<not> n < 1" "\<not> 256 < n" using v diff distinct_kinds
      unfolding validate_def n_def MaxCopath_def Let_def by (auto split: if_splits)
    then have n: "1 \<le> n" "n \<le> 256" by simp_all
    let ?p = "take n ?bits"
    have lp: "length ?p = length (Copath u)" using n by (simp add: n_def)
    have g: "Size s \<noteq> 0" "fakeRoot sha ?i (Copath u) (OldSeed u) = prefixRoot s"
      "r = (if Real u then realRoot sha ?i 0 (Size s) (Copath u) (Seed u)
            else fakeRoot sha ?i (Copath u) (Seed u))"
      using r diff distinct_kinds by (auto simp: next_root_def Let_def split: if_splits)
    obtain t where t: "prefixRoot s = phash sha 0 t" "phash_pre sha 0 t \<subseteq> S" "dir t = D"
      using inv g(1) by (auto simp: audit_inv_def)
    have fk: "fakeRoot sha ?i (Copath u) sd = fold_up sha (PrefixStandInHash sha sd lvl) ?p (Copath u)" for sd
      using n by (simp add: fakeRoot_def fold_path_fold_up n_def lvl_def)
    have fp: "set (fakeRoot_pre sha ?i (Copath u) sd) =
        insert (standin_pre sd lvl) (set (fold_up_pre sha (PrefixStandInHash sha sd lvl) ?p (Copath u)))" for sd
      by (simp add: fakeRoot_pre_def Let_def n_def lvl_def)
    have oldpre: "set (fakeRoot_pre sha ?i (Copath u) (OldSeed u)) \<subseteq> S"
      using pre diff distinct_kinds by (auto simp: Apply_pre_def)
    obtain x where x: "subtree t ?p = Some x" "phash sha (0 + length ?p) x = PrefixStandInHash sha (OldSeed u) lvl"
      "phash_pre sha (0 + length ?p) x \<subseteq> S"
      "\<And>y. phash sha 0 (put t ?p y) = fold_up sha (phash sha (0 + length ?p) y) ?p (Copath u)"
      "\<And>y. phash_pre sha (0 + length ?p) y \<union> set (fold_up_pre sha (phash sha (0 + length ?p) y) ?p (Copath u)) \<subseteq> S
         \<Longrightarrow> phash_pre sha 0 (put t ?p y) \<subseteq> S"
    proof -
      have "fold_up sha (PrefixStandInHash sha (OldSeed u) lvl) ?p (Copath u) = phash sha 0 t"
        using g(2) t(1) fk by simp
      moreover have "length (PrefixStandInHash sha (OldSeed u) lvl) = 32"
        by (simp add: PrefixStandInHash_def sha)
      moreover have "set (fold_up_pre sha (PrefixStandInHash sha (OldSeed u) lvl) ?p (Copath u)) \<subseteq> S"
        using oldpre fp by auto
      ultimately show thesis using fold_up_follows[OF sha inj lp _ c32 _ t(2)] that by blast
    qed
    have xs: "x = PStand (OldSeed u)"
      by (rule phash_standin[OF inj x(3) _ x(2)]) (use oldpre fp in auto)
    have dn: "D ?i = None"
    proof -
      have "lookup t (?p @ drop n ?bits) = None" by (simp only: lookup_subtree[OF x(1)] xs lookup.simps)
      then have "lookup t ?bits = None" by (simp only: append_take_drop_id)
      then show ?thesis using t(3) by (auto simp: dir_def)
    qed
    show ?thesis
    proof (cases "Real u")
      case True
      define y where "y = fresh (Seed u) (drop n ?bits) (PLeaf ?i 0 (Size s))"
      have rp: "set (realRoot_pre sha ?i 0 (Size s) (Copath u) (Seed u)) \<subseteq> S"
        using pre diff distinct_kinds True by (auto simp: Apply_pre_def)
      have rr: "r = phash sha 0 (put t ?p y)"
        using g(3) True realRoot_split(1)[of "Copath u"] n x(4)[of y] lp by (simp add: y_def n_def)
      have "phash_pre sha 0 (put t ?p y) \<subseteq> S"
        by (rule x(5)) (use rp realRoot_split(2)[of "Copath u" sha "Seed u" ?i 0 "Size s"] n lp in
            \<open>auto simp: y_def n_def\<close>)
      moreover have "dir (put t ?p y) = D(?i \<mapsto> (0, Size s))"
      proof -
        have "dir (put t ?p y) = (dir t)(?i := map_option snd (lookup y (drop n ?bits)))"
        proof (rule dir_put[OF x(1) i32])
          fix cs assume "length cs = 256 - n" "cs \<noteq> drop n ?bits"
          then show "lookup y cs = lookup x cs"
            using lookup_fresh_other[of "drop n ?bits" cs] by (simp add: y_def xs)
        qed
        moreover have "lookup y (drop n ?bits) = Some (?i, 0, Size s)"
          using lookup_fresh[of "Seed u" "drop n ?bits" _ "[]"] by (simp add: y_def)
        ultimately show ?thesis using t(3) by simp
      qed
      ultimately have "audit_inv sha S s' (D(?i \<mapsto> (0, Size s)))"
        using rr r(2) sz unfolding audit_inv_def by auto
      then show ?thesis using diff distinct_kinds g(1) dn True by (simp add: dir_step_def)
    next
      case False
      define y where "y = PStand (Seed u)"
      have rp: "set (fakeRoot_pre sha ?i (Copath u) (Seed u)) \<subseteq> S"
        using pre diff distinct_kinds False by (auto simp: Apply_pre_def)
      have hy: "phash sha (0 + length ?p) y = PrefixStandInHash sha (Seed u) lvl"
        using n by (simp add: y_def lvl_def)
      have rr: "r = phash sha 0 (put t ?p y)"
        using g(3) False x(4)[of y] hy fk[of "Seed u"] by simp
      have "phash_pre sha 0 (put t ?p y) \<subseteq> S"
      proof (rule x(5), unfold hy)
        show "phash_pre sha (0 + length ?p) y \<union>
            set (fold_up_pre sha (PrefixStandInHash sha (Seed u) lvl) ?p (Copath u)) \<subseteq> S"
          using rp n by (auto simp: fp y_def lvl_def)
      qed
      moreover have "dir (put t ?p y) = D"
      proof -
        have "dir (put t ?p y) = (dir t)(?i := map_option snd (lookup y (drop n ?bits)))"
          by (rule dir_put[OF x(1) i32]) (simp add: y_def xs)
        then show ?thesis using t(3) dn by (simp add: y_def fun_upd_idem)
      qed
      ultimately have "audit_inv sha S s' D"
        using rr r(2) sz unfolding audit_inv_def by auto
      then show ?thesis using diff distinct_kinds g(1) dn False by (simp add: dir_step_def)
    qed
  next
    case same
    define cs where "cs = padCopath sha (Copath u) (Seed u)"
    have g: "Real u" "Size s \<noteq> 0" "Counter u \<noteq> - 1"
      "fold_path sha (PrefixLeafHash sha ?i (Counter u) (Position u)) ?i cs = prefixRoot s"
      "r = fold_path sha (PrefixLeafHash sha ?i (Counter u + 1) (Position u)) ?i cs"
      "length (Copath u) \<le> 256"
      using v r same distinct_kinds
      by (auto simp: validate_def MaxCopath_def next_root_def Let_def cs_def split: if_splits)
    have l: "length cs = 256" using g(6) by (simp add: cs_def padCopath_def MaxCopath_def)
    have fp: "fold_path sha w ?i cs = fold_up sha w ?bits cs" for w
      by (subst fold_path_fold_up) (simp_all add: l)
    obtain t where t: "prefixRoot s = phash sha 0 t" "phash_pre sha 0 t \<subseteq> S" "dir t = D"
      using inv g(2) by (auto simp: audit_inv_def)
    have rp: "set (realRoot_pre sha ?i (Counter u) (Position u) (Copath u) (Seed u)) \<subseteq> S"
      "set (realRoot_pre sha ?i (Counter u + 1) (Position u) (Copath u) (Seed u)) \<subseteq> S"
      using pre same distinct_kinds by (auto simp: Apply_pre_def)
    have cs32: "\<forall>c\<in>set cs. length c = 32"
      using c32 sha by (auto simp: cs_def padCopath_def PrefixStandInHash_def dest: in_set_takeD)
    have lb: "length ?bits = length cs" using l by simp
    obtain x where x: "subtree t ?bits = Some x"
      "phash sha (0 + length ?bits) x = PrefixLeafHash sha ?i (Counter u) (Position u)"
      "phash_pre sha (0 + length ?bits) x \<subseteq> S"
      "\<And>y. phash sha 0 (put t ?bits y) = fold_up sha (phash sha (0 + length ?bits) y) ?bits cs"
      "\<And>y. phash_pre sha (0 + length ?bits) y \<union> set (fold_up_pre sha (phash sha (0 + length ?bits) y) ?bits cs) \<subseteq> S
         \<Longrightarrow> phash_pre sha 0 (put t ?bits y) \<subseteq> S"
    proof -
      have "fold_up sha (PrefixLeafHash sha ?i (Counter u) (Position u)) ?bits cs = phash sha 0 t"
        using g(4) t(1) fp by simp
      moreover have "length (PrefixLeafHash sha ?i (Counter u) (Position u)) = 32"
        by (simp add: PrefixLeafHash_def sha)
      moreover have "set (fold_up_pre sha (PrefixLeafHash sha ?i (Counter u) (Position u)) ?bits cs) \<subseteq> S"
        using rp(1) by (auto simp: realRoot_pre_def cs_def)
      ultimately show thesis using fold_up_follows[OF sha inj lb _ cs32 _ t(2)] that by blast
    qed
    have xl: "x = PLeaf ?i (Counter u) (Position u)"
      by (rule phash_leaf[OF inj x(3) _ i32 x(2)]) (use rp(1) in \<open>auto simp: realRoot_pre_def\<close>)
    have dc: "D ?i = Some (Counter u, Position u)"
      using lookup_subtree[OF x(1), of "[]"] xl t(3) i32 by (auto simp: dir_def)
    define y where "y = PLeaf ?i (Counter u + 1) (Position u)"
    have hy: "phash sha (0 + length ?bits) y = PrefixLeafHash sha ?i (Counter u + 1) (Position u)"
      by (simp add: y_def)
    have rr: "r = phash sha 0 (put t ?bits y)" using g(5) fp x(4)[of y] hy by simp
    have "phash_pre sha 0 (put t ?bits y) \<subseteq> S"
    proof (rule x(5), unfold hy)
      show "phash_pre sha (0 + length ?bits) y \<union>
          set (fold_up_pre sha (PrefixLeafHash sha ?i (Counter u + 1) (Position u)) ?bits cs) \<subseteq> S"
        using rp(2) by (auto simp: realRoot_pre_def cs_def y_def)
    qed
    moreover have "dir (put t ?bits y) = D(?i \<mapsto> (Counter u + 1, Position u))"
    proof -
      have tk: "take 256 ?bits = ?bits" by simp
      have "dir (put t (take 256 ?bits) y) = (dir t)(?i := map_option snd (lookup y (drop 256 ?bits)))"
        by (rule dir_put[OF _ i32]) (simp_all add: x(1))
      then show ?thesis using t(3) by (simp add: y_def)
    qed
    ultimately have "audit_inv sha S s' (D(?i \<mapsto> (Counter u + 1, Position u)))"
      using rr r(2) sz unfolding audit_inv_def by auto
    then show ?thesis using same distinct_kinds g dc by (simp add: dir_step_def)
  qed
qed

text \<open>Applying a stream of updates, stopping at the first that is refused.\<close>

fun replay :: "(bytes \<Rightarrow> hash) \<Rightarrow> State \<Rightarrow> Update list \<Rightarrow> State \<times> audit_error option" where
  "replay sha s [] = (s, None)"
| "replay sha s (u # us) =
     (case Apply sha s u of (t, None) \<Rightarrow> replay sha t us | (t, Some e) \<Rightarrow> (t, Some e))"

fun replay_pre :: "(bytes \<Rightarrow> hash) \<Rightarrow> State \<Rightarrow> Update list \<Rightarrow> bytes list" where
  "replay_pre sha s [] = []"
| "replay_pre sha s (u # us) = Apply_pre sha s u @ replay_pre sha (fst (Apply sha s u)) us"

text \<open>The leaves the log gets.\<close>

fun replay_leaves :: "(bytes \<Rightarrow> hash) \<Rightarrow> State \<Rightarrow> Update list \<Rightarrow> hash list" where
  "replay_leaves sha s [] = []"
| "replay_leaves sha s (u # us) =
     (let t = fst (Apply sha s u)
      in LogLeafHash sha (prefixRoot t) (Commitment u) # replay_leaves sha t us)"

fun dir_replay :: "directory \<Rightarrow> nat \<Rightarrow> Update list \<Rightarrow> directory option" where
  "dir_replay D n [] = Some D"
| "dir_replay D n (u # us) =
     (case dir_step D (of_nat n) u of None \<Rightarrow> None | Some D' \<Rightarrow> dir_replay D' (Suc n) us)"

lemma replay_step:
  assumes sha: "\<And>x. length (sha x) = 32" and inj: "inj_on sha S"
  shows "set (replay_pre sha s us) \<subseteq> S \<Longrightarrow> \<forall>u\<in>set us. wf_update u \<Longrightarrow> audit_inv sha S s D \<Longrightarrow>
    frontier_rep sha (log s) ls \<Longrightarrow> replay sha s us = (s', None) \<Longrightarrow>
    \<exists>D'. dir_replay D (length ls) us = Some D' \<and> audit_inv sha S s' D' \<and>
      frontier_rep sha (log s') (ls @ replay_leaves sha s us)"
proof (induction us arbitrary: s D ls)
  case (Cons u us)
  obtain t where t: "Apply sha s u = (t, None)" "replay sha t us = (s', None)"
    using Cons.prems(5) by (auto split: prod.splits option.splits)
  have sz: "unat (Size s) = length ls" using Cons.prems(4) by (auto simp: frontier_rep_def Size_def)
  then have sn: "Size s = of_nat (length ls)" by (simp flip: sz)
  obtain D1 where D1: "dir_step D (Size s) u = Some D1" "audit_inv sha S t D1"
    using Apply_step[OF sha inj _ _ Cons.prems(3) t(1)] Cons.prems(1,2) by auto
  obtain r where r: "prefixRoot t = r" "Append sha (log s) (LogLeafHash sha r (Commitment u)) = Inr (log t)"
    "Size t \<noteq> 0" "Size t = Size s + 1"
    using Apply_ok[OF t(1)] by auto
  have "Size s \<noteq> - 1" using r(3,4) by auto
  then have "unat (Size s) < 2 ^ 64 - 1"
  proof -
    have "unat (Size s) < 2 ^ 64" using unsigned_less[of "Size s", where 'a = nat] by simp
    moreover have "unat (Size s) \<noteq> unat (- 1 :: u64)" using \<open>Size s \<noteq> - 1\<close> by (metis word_unat_eq_iff)
    moreover have "unat (- 1 :: u64) = 2 ^ 64 - 1" by (simp add: unsigned_minus_1_eq_mask mask_eq_exp_minus_1)
    ultimately show ?thesis by linarith
  qed
  then have "frontier_rep sha (log t) (ls @ [LogLeafHash sha r (Commitment u)])"
    using lf.app[OF Cons.prems(4), of "LogLeafHash sha r (Commitment u)"] r(2) sz by auto
  from Cons.IH[OF _ _ D1(2) this t(2)] Cons.prems(1,2) t(1) obtain D' where
    "dir_replay D1 (Suc (length ls)) us = Some D'" "audit_inv sha S s' D'"
    "frontier_rep sha (log s') ((ls @ [LogLeafHash sha r (Commitment u)]) @ replay_leaves sha t us)"
    by auto
  then show ?case using D1(1) sn t(1) r(1) by (auto simp: Let_def)
qed simp

text \<open>
C5. Replaying an auditor stream from the empty state implements the abstract directory:
  when every update is accepted, the stream is a legal history (the first key, new keys that
  were absent, counters raised by one), the prefix root is the root of an explicit tree
  holding exactly that directory, and the log root is the reference root over the entries,
  unless SHA-256 collides on a preimage the replay hashed.
\<close>

theorem replay_is_legal:
  assumes "replay sha empty_state us = (s, None)" "us \<noteq> []" "\<forall>u\<in>set us. wf_update u"
    and "\<And>x. length (sha x) = 32"
  shows "(\<exists>D t. dir_replay Map.empty 0 us = Some D \<and>
      prefixRoot s = phash sha 0 t \<and> dir t = D \<and>
      unat (Size s) = length us \<and>
      Root sha (log s) = Inr (log_root sha (replay_leaves sha empty_state us))) \<or>
    collides sha (set (replay_pre sha empty_state us))"
proof (rule or_collidesI)
  assume inj: "inj_on sha (set (replay_pre sha empty_state us))" (is "inj_on _ ?S")
  have "audit_inv sha ?S empty_state Map.empty"
    by (simp add: audit_inv_def empty_state_def Size_def empty_frontier_def)
  moreover have "frontier_rep sha (log empty_state) []"
    by (simp add: empty_state_def lf.emp)
  ultimately obtain D where D: "dir_replay Map.empty 0 us = Some D" "audit_inv sha ?S s D"
    "frontier_rep sha (log s) (replay_leaves sha empty_state us)"
    using replay_step[OF assms(4) inj order_refl assms(3) _ _ assms(1)] by fastforce
  have len: "length (replay_leaves sha t us) = length us" for t
    by (induction us arbitrary: t) (auto simp: Let_def)
  have sz: "unat (Size s) = length us" using D(3) len by (auto simp: frontier_rep_def Size_def)
  then have "Size s \<noteq> 0" using assms(2) by auto
  moreover have "replay_leaves sha empty_state us \<noteq> []" using len assms(2) by (metis length_0_conv)
  ultimately show "\<exists>D t. dir_replay Map.empty 0 us = Some D \<and> prefixRoot s = phash sha 0 t \<and> dir t = D \<and>
      unat (Size s) = length us \<and>
      Root sha (log s) = Inr (log_root sha (replay_leaves sha empty_state us))"
    using D sz lf.rt[OF D(3)] by (auto simp: audit_inv_def)
qed

theorem Apply_rejects_unchanged:
  "Apply sha s u = (t, Some e) \<Longrightarrow> t = s"
  by (auto simp: Apply_def split: option.splits sum.splits)
definition ex_first :: Update where
  "ex_first = zeroUpdate\<lparr>Real := True, Index := replicate 32 0, Seed := replicate 16 1, Proof := NewTree\<rparr>"

definition ex_second :: Update where
  "ex_second = zeroUpdate\<lparr>Real := True, Index := 0x80 # replicate 31 0, Seed := replicate 16 2,
     OldSeed := replicate 16 1, Proof := DifferentKey,
     Copath := [phash toy_sha 1 (fresh (replicate 16 1) (tl (index_bits (replicate 32 0))) (PLeaf (replicate 32 0) 0 0))]\<rparr>"

lemma ex_replay: "\<exists>s. replay toy_sha empty_state [ex_first, ex_second] = (s, None)"
proof -
  let ?s = "replicate 16 1 :: bytes" and ?i = "replicate 32 0 :: bytes" and ?j = "0x80 # replicate 31 0 :: bytes"
  let ?b = "index_bits ?i"
  have bi: "?b = False # tl ?b" "length (tl ?b) = 255"
    by (simp_all add: index_bits_def upt_conv_Cons idx_bit_def)
  have bj: "take 1 (index_bits ?j) = [True]"
    by (simp add: index_bits_def upt_conv_Cons idx_bit_def)
  define c where "c = phash toy_sha 1 (fresh ?s (tl ?b) (PLeaf ?i 0 0))"
  have r1: "realRoot toy_sha ?i 0 0 [] ?s = PrefixParentHash toy_sha c (PrefixStandInHash toy_sha ?s 0)"
    using realRoot_split(1)[of "[]" toy_sha ?i 0 0 ?s] by (simp) (subst bi(1), simp add: c_def)
  have r2: "fakeRoot toy_sha ?j [c] ?s = PrefixParentHash toy_sha c (PrefixStandInHash toy_sha ?s 0)"
    using bj by (simp add: fakeRoot_def fold_path_fold_up)
  obtain f where f: "Append toy_sha empty_frontier (LogLeafHash toy_sha (realRoot toy_sha ?i 0 0 [] ?s) (replicate 32 0)) = Inr f"
    "frontier_rep toy_sha f [LogLeafHash toy_sha (realRoot toy_sha ?i 0 0 [] ?s) (replicate 32 0)]"
    using lf.app[OF lf.emp, of toy_sha] by fastforce
  have sz: "lsize f = 1" using f(2) by (auto simp: frontier_rep_def word_unat_eq_iff)
  define t where "t = \<lparr>prefixRoot = realRoot toy_sha ?i 0 0 [] ?s, log = f\<rparr>"
  have a1: "Apply toy_sha empty_state ex_first = (t, None)"
    using f(1) by (simp add: Apply_def ex_first_def zeroUpdate_def validate_def next_root_def empty_state_def
        Size_def Let_def t_def) (simp add: empty_frontier_def)
  obtain g where "Append toy_sha f (LogLeafHash toy_sha (realRoot toy_sha ?j 0 1 [c] (replicate 16 2)) (replicate 32 0)) = Inr g"
    using lf.app[OF f(2)] by fastforce
  then have "\<exists>s. Apply toy_sha t ex_second = (s, None)"
    using r1 r2 sz by (simp add: Apply_def ex_second_def zeroUpdate_def validate_def next_root_def
        Size_def Let_def t_def kinds MaxCopath_def c_def)
  then show ?thesis using a1 by auto
qed

lemma replay_is_legal_witness:
  "\<exists>s. replay toy_sha empty_state [ex_first, ex_second] = (s, None) \<and>
    ((\<exists>D t. dir_replay Map.empty 0 [ex_first, ex_second] = Some D \<and>
      prefixRoot s = phash toy_sha 0 t \<and> dir t = D \<and>
      unat (Size s) = length [ex_first, ex_second] \<and>
      Root toy_sha (log s) = Inr (log_root toy_sha (replay_leaves toy_sha empty_state [ex_first, ex_second]))) \<or>
    collides toy_sha (set (replay_pre toy_sha empty_state [ex_first, ex_second])))"
proof -
  obtain s where s: "replay toy_sha empty_state [ex_first, ex_second] = (s, None)"
    using ex_replay by blast
  have w: "\<forall>u\<in>set [ex_first, ex_second]. wf_update u"
    by (simp add: wf_update_def ex_first_def ex_second_def zeroUpdate_def length_phash)
  show ?thesis
    using s replay_is_legal[OF s _ w length_toy_sha] by (intro exI[of _ s] conjI) simp_all
qed

subsection \<open>Round trip\<close>

text \<open>The fields \<open>EncodeUpdate\<close> writes.\<close>

definition bytes_field :: "nat \<Rightarrow> bytes \<Rightarrow> Field" where
  "bytes_field n v = \<lparr>fNum = n, fWire = 2, fVarint = 0, fBytes = v\<rparr>"

definition varint_field :: "nat \<Rightarrow> u64 \<Rightarrow> Field" where
  "varint_field n v = \<lparr>fNum = n, fWire = 0, fVarint = v, fBytes = []\<rparr>"

lemma field_sel [simp]:
  "fNum (bytes_field n v) = n" "fWire (bytes_field n v) = 2" "fBytes (bytes_field n v) = v"
  "fNum (varint_field n w) = n" "fWire (varint_field n w) = 0" "fVarint (varint_field n w) = w"
  by (simp_all add: bytes_field_def varint_field_def)

lemma AppendTag_eq: "AppendTag b n w = b @ varint (field_tag n w)"
  by (simp add: AppendTag_def field_tag_def AppendVarint_app[of b] varint_def)

lemma appendBytes_eq: "appendBytes b n v = b @ field_bytes (bytes_field n v)"
  by (simp add: appendBytes_def AppendTag_eq AppendVarint_app[of "_ @ _"] varint_def[symmetric]
      field_bytes_def bytes_field_def)

lemma appendVarint_eq: "AppendVarint (AppendTag b n 0) v = b @ field_bytes (varint_field n v)"
  by (simp add: AppendTag_eq AppendVarint_app[of "_ @ _"] varint_def[symmetric]
      field_bytes_def varint_field_def)

definition body_fields :: "Update \<Rightarrow> Field list" where
  "body_fields u = map (bytes_field 1) (Copath u) @
     (if Proof u = DifferentKey then [bytes_field 2 (OldSeed u)]
      else if Proof u = SameKey then
        (if Counter u \<noteq> 0 then [varint_field 2 (ucast (Counter u))] else []) @
        (if Position u \<noteq> 0 then [varint_field 3 (Position u)] else [])
      else [])"

definition outer_fields :: "Update \<Rightarrow> bytes \<Rightarrow> Field list" where
  "outer_fields u pf = (if Real u then [varint_field 1 1] else []) @
     [bytes_field 2 (Index u), bytes_field 3 (Seed u), bytes_field 4 (Commitment u), bytes_field 5 pf]"

lemma foldl_appendBytes:
  "foldl (\<lambda>b c. appendBytes b 1 c) b cs = b @ concat (map field_bytes (map (bytes_field 1) cs))"
  by (induction cs arbitrary: b) (simp_all add: appendBytes_eq)

lemma EncodeUpdate_eq:
  "EncodeUpdate u = concat (map field_bytes (outer_fields u
     (field_bytes (bytes_field (unat (Proof u)) (concat (map field_bytes (body_fields u)))))))"
  unfolding EncodeUpdate_def Let_def foldl_appendBytes
  by (simp add: appendBytes_eq appendVarint_eq outer_fields_def body_fields_def comp_def)

lemma length_varint: "length (varint v) \<le> 10"
proof -
  have "length (varint v) \<le> n" if "unat v < 2 ^ (7 * n)" "0 < n" for n v
    using that
  proof (induction n arbitrary: v)
    case (Suc n)
    show ?case
    proof (cases "drop_bit 7 v = 0")
      case False
      have "unat (drop_bit 7 v) = unat v div 128" by (simp only: unat_drop_bit) simp
      moreover have "unat v div 128 < 2 ^ (7 * n)"
        using Suc.prems(1) by (simp add: less_mult_imp_div_less power_add mult.commute)
      moreover have "0 < unat v div 128"
        using False calculation(1) by (metis gr0I unat_eq_zero)
      moreover from calculation(2,3) have "0 < n" by (cases n) auto
      ultimately have "length (varint (drop_bit 7 v)) \<le> n" by (intro Suc.IH) auto
      then show ?thesis using False by (subst varint_eq) simp
    qed (subst varint_eq, simp)
  qed simp
  from this[of v 10] show ?thesis using unsigned_less[of v, where 'a = nat] by simp
qed

lemma length_field_bytes: "length (field_bytes f) \<le> 20 + length (fBytes f)"
proof -
  have "length (varint v) + length (varint w) \<le> 20" for v w
    using length_varint[of v] length_varint[of w] by linarith
  then show ?thesis
    using length_varint[of "field_tag (fNum f) (fWire f)"] by (auto simp: field_bytes_def intro: trans_le_add1)
qed

text \<open>An update as \<open>DecodeUpdate\<close> returns it: fields the kind does not use are zero.\<close>

definition canonical :: "Update \<Rightarrow> bool" where
  "canonical u \<longleftrightarrow> wf_update u \<and> validate u = None \<and>
     (Proof u \<noteq> DifferentKey \<longrightarrow> OldSeed u = replicate 16 0) \<and>
     (Proof u \<noteq> SameKey \<longrightarrow> Counter u = 0 \<and> Position u = 0)"

lemma body_copath:
  "\<forall>c\<in>set cs. length c = 32 \<Longrightarrow> length (Copath u) + length cs \<le> 256 \<Longrightarrow>
   body_loop (map (bytes_field 1) cs @ fs) seen u = body_loop fs seen (u\<lparr>Copath := Copath u @ cs\<rparr>)"
proof (induction cs arbitrary: u)
  case (Cons c cs)
  have "body_loop (map (bytes_field 1) cs @ fs) seen (u\<lparr>Copath := Copath u @ [c]\<rparr>) =
      body_loop fs seen (u\<lparr>Copath := (Copath u @ [c]) @ cs\<rparr>)"
    using Cons.IH[of "u\<lparr>Copath := Copath u @ [c]\<rparr>"] Cons.prems by simp
  moreover have "length (Copath u) \<noteq> 256" using Cons.prems(2) by simp
  ultimately show ?case using Cons.prems(1) by (simp add: sizes)
qed simp

text \<open>
C23. Decoding the canonical encoding of an update that passes validate gives that update
  back, through the tag and varint framing of pbwire.
\<close>

theorem EncodeUpdate_roundtrip:
  assumes c: "canonical u"
  shows "DecodeUpdate (EncodeUpdate u) = Inr u"
proof -
  have wf: "length (Index u) = 32" "length (Seed u) = 16" "length (OldSeed u) = 16"
    "length (Commitment u) = 32" "\<forall>x\<in>set (Copath u). length x = 32" and v: "validate u = None"
    using c by (auto simp: canonical_def wf_update_def)
  have k: "Proof u = NewTree \<or> Proof u = DifferentKey \<or> Proof u = SameKey"
    and cp: "length (Copath u) \<le> 256" "Proof u = NewTree \<Longrightarrow> Copath u = []"
    using v by (auto simp: validate_def MaxCopath_def Let_def split: if_splits)
  define body where "body = concat (map field_bytes (body_fields u))"
  define pf where "pf = field_bytes (bytes_field (unat (Proof u)) body)"
  have small: "length (concat (map field_bytes (map (bytes_field 1) cs))) \<le> 52 * length cs"
    if "\<forall>x\<in>set cs. length x = 32" for cs
    using that
  proof (induction cs)
    case (Cons x cs)
    then show ?case using length_field_bytes[of "bytes_field 1 x"] by (simp add: bytes_field_def)
  qed simp
  have lb: "length body \<le> 52 * 256 + 80"
    using small[OF wf(5)] cp(1) wf(3) length_field_bytes[of "bytes_field 2 (OldSeed u)"]
      length_field_bytes[of "varint_field 2 (ucast (Counter u))"]
      length_field_bytes[of "varint_field 3 (Position u)"]
    by (simp add: body_def body_fields_def bytes_field_def varint_field_def)
  have lp: "length pf \<le> 52 * 256 + 100"
    using lb length_field_bytes[of "bytes_field (unat (Proof u)) body"] by (simp add: pf_def bytes_field_def)
  have un: "unat (Proof u) = 1 \<or> unat (Proof u) = 3 \<or> unat (Proof u) = 4"
    using k by (auto simp: kinds)
  have f1: "Fields (concat (map field_bytes (outer_fields u pf))) = Inr (outer_fields u pf)"
    by (rule Fields_roundtrip)
       (use wf lp in \<open>auto simp: outer_fields_def valid_field_def bytes_field_def varint_field_def\<close>)
  have f2: "Fields pf = Inr [bytes_field (unat (Proof u)) body]"
  proof -
    have "Fields (concat (map field_bytes [bytes_field (unat (Proof u)) body])) =
        Inr [bytes_field (unat (Proof u)) body]"
      by (rule Fields_roundtrip) (use lb un in \<open>auto simp: valid_field_def bytes_field_def\<close>)
    then show ?thesis by (simp add: pf_def)
  qed
  have f3: "Fields body = Inr (body_fields u)" unfolding body_def
    by (rule Fields_roundtrip)
       (use wf in \<open>auto simp: body_fields_def valid_field_def bytes_field_def varint_field_def\<close>)
  have loop: "outer_loop (outer_fields u pf) outer_empty =
      Inr \<lparr>oSeen = {2, 3, 4, 5} \<union> (if Real u then {1} else {}), oReal = Real u, oIndex = Index u, oSeed = Seed u,
           oCommitment = Commitment u, oProof = pf\<rparr>"
    by (simp add: outer_fields_def bytes_field_def varint_field_def outer_empty_def Let_def insert_commute)
  define u0 where "u0 = zeroUpdate\<lparr>Real := Real u, Index := Index u, Seed := Seed u, Commitment := Commitment u\<rparr>"
  have kk: "of_nat (unat (Proof u)) = Proof u" by simp
  have kz: "Proof u \<noteq> 0" using k by (auto simp: kinds)
  have pl: "proof_loop [bytes_field (unat (Proof u)) body] (Proof u0) [] = Inr (Proof u, body)"
    using k by (auto simp: bytes_field_def u0_def zeroUpdate_def)
  have bl: "body_loop (body_fields u) {} (u0\<lparr>Proof := Proof u\<rparr>) =
      body_loop (drop (length (Copath u)) (body_fields u)) {} (u0\<lparr>Proof := Proof u, Copath := Copath u\<rparr>)"
    using body_copath[OF wf(5), of "u0\<lparr>Proof := Proof u\<rparr>" "drop (length (Copath u)) (body_fields u)" "{}"] cp(1)
    by (simp add: body_fields_def u0_def zeroUpdate_def)
  have dk: "NewTree \<noteq> DifferentKey" "NewTree \<noteq> SameKey" "DifferentKey \<noteq> SameKey"
    by (simp_all add: kinds)
  have dp: "decodeProof pf u0 = Inr u"
    using k
  proof (elim disjE)
    assume n: "Proof u = NewTree"
    have "u0\<lparr>Proof := NewTree\<rparr> = u"
      by (rule Update.equality) (use n dk c cp(2) in \<open>auto simp: u0_def zeroUpdate_def canonical_def\<close>)
    then show ?thesis using n kz pl f2 f3 by (simp add: decodeProof_def)
  next
    assume n: "Proof u = DifferentKey"
    have "u0\<lparr>Proof := DifferentKey, Copath := Copath u, OldSeed := OldSeed u\<rparr> = u"
      by (rule Update.equality) (use n dk c in \<open>auto simp: u0_def zeroUpdate_def canonical_def\<close>)
    moreover have "body_loop (body_fields u) {} (u0\<lparr>Proof := DifferentKey\<rparr>) =
        Inr ({2}, u0\<lparr>Proof := DifferentKey, Copath := Copath u, OldSeed := OldSeed u\<rparr>)"
      using bl n wf(3) by (simp add: body_fields_def bytes_field_def sizes)
    ultimately show ?thesis using n kz pl f2 f3 dk by (simp add: decodeProof_def)
  next
    assume n: "Proof u = SameKey"
    have e: "u0\<lparr>Proof := SameKey, Copath := Copath u, Counter := Counter u, Position := Position u\<rparr> = u"
      by (rule Update.equality) (use n dk c in \<open>auto simp: u0_def zeroUpdate_def canonical_def\<close>)
    have cu: "ucast (ucast (Counter u) :: u64) = Counter u"
      by (rule bit_word_eqI) (auto simp: bit_simps)
    have cm: "\<not> 0xffffffff < (ucast (Counter u) :: u64)"
      using unsigned_less[of "Counter u", where 'a = nat]
      by (simp add: unat_less_iff unsigned_ucast_eq take_bit_nat_eq_self)
    have z: "u0\<lparr>Proof := SameKey, Copath := Copath u, Counter := 0\<rparr> = u0\<lparr>Proof := SameKey, Copath := Copath u\<rparr>"
      "u0\<lparr>Proof := SameKey, Copath := Copath u, Counter := x, Position := 0\<rparr> = u0\<lparr>Proof := SameKey, Copath := Copath u, Counter := x\<rparr>" for x
      by (rule Update.equality; simp add: u0_def zeroUpdate_def)+
    have "\<exists>seen. body_loop (body_fields u) {} (u0\<lparr>Proof := SameKey\<rparr>) =
        Inr (seen, u0\<lparr>Proof := SameKey, Copath := Copath u, Counter := Counter u, Position := Position u\<rparr>)"
      using bl n dk cu cm z by (auto simp: body_fields_def)
    then show ?thesis using n kz pl f2 f3 dk e by (auto simp: decodeProof_def)
  qed
  show ?thesis
    unfolding EncodeUpdate_eq body_def[symmetric] pf_def[symmetric] DecodeUpdate_def f1 sum.case loop
    using wf v dp by (simp add: sizes u0_def)
qed

lemma EncodeUpdate_roundtrip_witness: "DecodeUpdate (EncodeUpdate ex_second) = Inr ex_second"
proof (rule EncodeUpdate_roundtrip)
  have "length (Copath ex_second) = 1" by (simp add: ex_second_def)
  then have "validate ex_second = None"
    by (simp add: validate_def MaxCopath_def Let_def) (simp add: ex_second_def kinds)
  then show "canonical ex_second"
    by (simp add: canonical_def wf_update_def ex_second_def zeroUpdate_def length_phash kinds)
qed

subsection \<open>Proof fields are told apart modulo 256 only\<close>

text \<open>
  \<open>decodeProof\<close> converts a field number to \<open>ProofKind\<close>, a \<open>uint8\<close>, before it compares it,
  so a field number that is not one of the three variants is not always skipped.
\<close>

theorem decodeProof_mod_256:
  assumes "0 < n" "n < 2 ^ 29" "0 < m" "m < 2 ^ 29" "n mod 256 = m mod 256" "length body < 2 ^ 64"
  shows "decodeProof (field_bytes (bytes_field n body)) u = decodeProof (field_bytes (bytes_field m body)) u"
proof -
  have f: "Fields (field_bytes (bytes_field k body)) = Inr [bytes_field k body]"
    if "0 < k" "k < 2 ^ 29" for k
    using Fields_roundtrip[of "[bytes_field k body]"] that assms(6)
    by (simp add: valid_field_def) (simp add: bytes_field_def)
  have "unat (of_nat n :: ProofKind) = unat (of_nat m :: ProofKind)"
    using assms(5) by (simp add: unat_of_nat take_bit_eq_mod)
  then have "(of_nat n :: ProofKind) = of_nat m" by (simp only: word_unat_eq_iff)
  then show ?thesis using f assms(1-4) by (simp add: decodeProof_def Let_def)
qed

lemma decodeProof_mod_256_witness:
  "decodeProof (field_bytes (bytes_field 257 [])) zeroUpdate = Inr (zeroUpdate\<lparr>Proof := NewTree\<rparr>)"
proof -
  have "decodeProof (field_bytes (bytes_field 257 [])) zeroUpdate =
      decodeProof (field_bytes (bytes_field 1 [])) zeroUpdate"
    by (rule decodeProof_mod_256) simp_all
  also have "\<dots> = Inr (zeroUpdate\<lparr>Proof := NewTree\<rparr>)"
    by code_simp
  finally show ?thesis .
qed
end
