(* ===== verification/Head_Store.thy ===== *)
theory Head_Store
  imports KT_Prelude "HOL-Library.List_Lexorder" "HOL-Library.Char_ord"
begin

text \<open>
  The witness's durable state, \<open>internal/store\<close>: the last cosigned head per log with its
  compare-and-set (\<open>store.go\<close>), fork evidence and the poison marker, retractions
  (\<open>retract.go\<close>), other witnesses' attestations (\<open>peers.go\<close>), epoch commitments
  (\<open>epochs.go\<close>) and logs learned from lists (\<open>pushlogs.go\<close>).

  A bucket of the database is the finite map it stores, from the parts of its key to the
  record under it; buckets read in key order are association lists.  One transaction is
  one function on the state.  Failures of the disk and of JSON on records the store itself
  wrote are not modelled.  Times are nanoseconds.
\<close>

record Record =
  rOrigin :: string
  rSize :: int
  rHash :: bytes
  rCosigned :: bytes
  rWitnessedAt :: int

record Fork =
  fkOrigin :: string
  fkReason :: string
  fkDetectedAt :: int
  fkPrevSigned :: bytes
  fkNextSigned :: bytes

record Retraction =
  rtOrigin :: string
  rtReason :: string
  rtRetractedAt :: int
  rtFork :: Fork

record PeerAttestation =
  paOrigin :: string
  paWitness :: string
  paSize :: int
  paRoot :: string
  paTimestamp :: u64

record SeenWitness =
  swName :: string
  swOrigins :: "string list"
  swFirst :: int
  swLast :: int

record EpochCommitment =
  ecEpochID :: int
  ecChainHash :: string
  ecIssuanceTime :: int
  ecFirstSeen :: int

record PushLog =
  plOrigin :: string
  plVKey :: string
  plQPD :: int
  plContact :: string
  plList :: string
  plAddedAt :: int

record Store =
  heads :: "string \<rightharpoonup> Record"
  forks :: "((string \<times> int) \<times> Fork) list"
  poisoned :: "string \<rightharpoonup> int"
  retractions :: "string \<rightharpoonup> Retraction"
  peers :: "((string \<times> int \<times> string) \<times> PeerAttestation) list"
  seen :: "string \<rightharpoonup> SeenWitness"
  epochs :: "string \<times> int \<rightharpoonup> EpochCommitment"
  pushlogs :: "string \<rightharpoonup> PushLog"

definition empty_store :: Store where
  "empty_store = \<lparr>heads = Map.empty, forks = [], poisoned = Map.empty, retractions = Map.empty,
     peers = [], seen = Map.empty, epochs = Map.empty, pushlogs = Map.empty\<rparr>"

text \<open>\<open>Put\<close> on a bucket kept as a list: replace in place, else add.\<close>

fun bput :: "'k \<Rightarrow> 'v \<Rightarrow> ('k \<times> 'v) list \<Rightarrow> ('k \<times> 'v) list" where
  "bput k v [] = [(k, v)]"
| "bput k v ((l, w) # b) = (if k = l then (k, v) # b else (l, w) # bput k v b)"

lemma map_of_bput [simp]: "map_of (bput k v b) = (map_of b)(k \<mapsto> v)"
  by (induction k v b rule: bput.induct) (auto simp: fun_eq_iff)

lemma bput_new: "map_of b k = None \<Longrightarrow> bput k v b = b @ [(k, v)]"
  by (induction k v b rule: bput.induct) (auto split: if_splits)

subsection \<open>Heads\<close>

definition Get :: "Store \<Rightarrow> string \<Rightarrow> Record option" where
  "Get s origin = heads s origin"

datatype store_error = ErrRaced

definition CompareAndSet :: "Record option \<Rightarrow> Record \<Rightarrow> Store \<Rightarrow> store_error + Store" where
  "CompareAndSet expect next s =
     (let put = Inr (s\<lparr>heads := (heads s)(rOrigin next \<mapsto> next)\<rparr>)
      in case (heads s (rOrigin next), expect) of
           (None, Some _) \<Rightarrow> Inl ErrRaced
         | (Some _, None) \<Rightarrow> Inl ErrRaced
         | (Some cur, Some e) \<Rightarrow>
             if rSize cur \<noteq> rSize e \<or> rHash cur \<noteq> rHash e then Inl ErrRaced else put
         | (None, None) \<Rightarrow> put)"

subsection \<open>Forks and retractions\<close>

definition RecordFork :: "Fork \<Rightarrow> Store \<Rightarrow> Store" where
  "RecordFork f s =
     (if poisoned s (fkOrigin f) \<noteq> None then s
      else s\<lparr>forks := bput (fkOrigin f, fkDetectedAt f) f (forks s),
             poisoned := (poisoned s)(fkOrigin f \<mapsto> fkDetectedAt f)\<rparr>)"

definition IsForked :: "Store \<Rightarrow> string \<Rightarrow> bool" where
  "IsForked s origin \<longleftrightarrow> poisoned s origin \<noteq> None"

text \<open>The scan of \<open>RetractFork\<close> keeps the finding with the earliest time.\<close>

fun earliest :: "string \<Rightarrow> ((string \<times> int) \<times> Fork) list \<Rightarrow> Fork option \<Rightarrow> Fork option" where
  "earliest origin [] f = f"
| "earliest origin (((o', t), cand) # b) f =
     earliest origin b
       (if o' = origin \<and> (f = None \<or> fkDetectedAt cand < fkDetectedAt (the f)) then Some cand else f)"

datatype retract_error = ReasonRequired | NotForked | NoEvidence

definition RetractFork :: "int \<Rightarrow> string \<Rightarrow> string \<Rightarrow> Store \<Rightarrow> retract_error + Store" where
  "RetractFork now origin reason s =
     (if reason = [] then Inl ReasonRequired
      else if poisoned s origin = None then Inl NotForked
      else case earliest origin (forks s) None of
             None \<Rightarrow> Inl NoEvidence
           | Some f \<Rightarrow>
               Inr (s\<lparr>retractions := (retractions s)(origin \<mapsto>
                        \<lparr>rtOrigin = origin, rtReason = reason, rtRetractedAt = now, rtFork = f\<rparr>),
                      poisoned := (poisoned s)(origin := None)\<rparr>))"

subsection \<open>Other witnesses\<close>

definition RecordPeer :: "PeerAttestation \<Rightarrow> Store \<Rightarrow> PeerAttestation list \<times> Store" where
  "RecordPeer a s =
     (map snd (filter (\<lambda>((o', sz, w), other). o' = paOrigin a \<and> sz = paSize a \<and> paRoot other \<noteq> paRoot a) (peers s)),
      s\<lparr>peers := bput (paOrigin a, paSize a, paWitness a) a (peers s)\<rparr>)"

definition RecordSeenWitness :: "string \<Rightarrow> string \<Rightarrow> int \<Rightarrow> Store \<Rightarrow> Store" where
  "RecordSeenWitness name origin now s =
     (let sw = (case seen s name of
                  None \<Rightarrow> \<lparr>swName = name, swOrigins = [], swFirst = now, swLast = now\<rparr>
                | Some w \<Rightarrow> w\<lparr>swName := name, swLast := now\<rparr>);
          sw = (if origin \<in> set (swOrigins sw) then sw
                else sw\<lparr>swOrigins := sort (swOrigins sw @ [origin])\<rparr>)
      in s\<lparr>seen := (seen s)(name \<mapsto> sw)\<rparr>)"

subsection \<open>Epoch commitments and discovered logs\<close>

datatype epoch_conflict = EpochConflict string EpochCommitment EpochCommitment

definition RecordEpochCommitment ::
    "int \<Rightarrow> string \<Rightarrow> int \<Rightarrow> string \<Rightarrow> int \<Rightarrow> Store \<Rightarrow> epoch_conflict + Store" where
  "RecordEpochCommitment now origin epochID chainHash issuanceTime s =
     (let c = \<lparr>ecEpochID = epochID, ecChainHash = chainHash, ecIssuanceTime = issuanceTime, ecFirstSeen = now\<rparr>
      in case epochs s (origin, epochID) of
           Some prev \<Rightarrow>
             if ecChainHash prev = ecChainHash c \<and> ecIssuanceTime prev = ecIssuanceTime c then Inr s
             else Inl (EpochConflict origin prev c)
         | None \<Rightarrow> Inr (s\<lparr>epochs := (epochs s)((origin, epochID) \<mapsto> c)\<rparr>))"

datatype pushlog_error = EmptyOrigin

definition AddPushLog :: "PushLog \<Rightarrow> Store \<Rightarrow> pushlog_error + (bool \<times> Store)" where
  "AddPushLog l s =
     (if plOrigin l = [] then Inl EmptyOrigin
      else if pushlogs s (plOrigin l) \<noteq> None then Inr (False, s)
      else Inr (True, s\<lparr>pushlogs := (pushlogs s)(plOrigin l \<mapsto> l)\<rparr>))"

subsection \<open>What a witness relies on\<close>

text \<open>
  The head store as its client sees it: a compare-and-set that answers for the record
  that is there when it runs, and a poison mark no head operation clears.
\<close>

definition same_head :: "Record option \<Rightarrow> Record option \<Rightarrow> bool" where
  "same_head a b = (case (a, b) of
     (None, None) \<Rightarrow> True
   | (Some x, Some y) \<Rightarrow> rSize x = rSize y \<and> rHash x = rHash y
   | _ \<Rightarrow> False)"

locale head_store =
  fixes get :: "'s \<Rightarrow> string \<Rightarrow> Record option"
    and cas :: "Record option \<Rightarrow> Record \<Rightarrow> 's \<Rightarrow> 'e + 's"
    and poison :: "Fork \<Rightarrow> 's \<Rightarrow> 's"
    and forked :: "'s \<Rightarrow> string \<Rightarrow> bool"
  assumes cas_ok: "cas e r s = Inr t \<Longrightarrow> same_head (get s (rOrigin r)) e \<and>
      (\<forall>q. get t q = (if q = rOrigin r then Some r else get s q)) \<and> (\<forall>q. forked t q = forked s q)"
    and cas_match: "same_head (get s (rOrigin r)) e \<Longrightarrow> \<exists>t. cas e r s = Inr t"
    and poison_get: "get (poison f s) q = get s q"
    and poison_forked: "forked (poison f s) q \<longleftrightarrow> q = fkOrigin f \<or> forked s q"
begin

text \<open>What rounds do to the store, in the order it happens; a lost race changes nothing.\<close>

fun run :: "(Record option \<times> Record + Fork) list \<Rightarrow> 's \<Rightarrow> 's" where
  "run [] s = s"
| "run (Inl (e, r) # ops) s = run ops (case cas e r s of Inl _ \<Rightarrow> s | Inr t \<Rightarrow> t)"
| "run (Inr f # ops) s = run ops (poison f s)"

text \<open>The heads of one log that the store takes on, first to last.\<close>

fun taken :: "string \<Rightarrow> (Record option \<times> Record + Fork) list \<Rightarrow> 's \<Rightarrow> Record list" where
  "taken q [] s = []"
| "taken q (Inl (e, r) # ops) s =
     (case cas e r s of
        Inl _ \<Rightarrow> taken q ops s
      | Inr t \<Rightarrow> (if rOrigin r = q then [r] else []) @ taken q ops t)"
| "taken q (Inr f # ops) s = taken q ops (poison f s)"

lemma forked_run: "forked s q \<Longrightarrow> forked (run ops s) q"
proof (induction ops s rule: run.induct)
  case (2 e r ops s)
  then show ?case using cas_ok[of e r s] by (auto split: sum.splits)
qed (auto simp: poison_forked)

lemma get_run: "get (run ops s) q = (if taken q ops s = [] then get s q else Some (last (taken q ops s)))"
proof (induction ops s rule: run.induct)
  case (2 e r ops s)
  show ?case
  proof (cases "cas e r s")
    case (Inl x)
    then show ?thesis using 2 by simp
  next
    case (Inr t)
    have "get t q = (if q = rOrigin r then Some r else get s q)" using cas_ok[OF Inr] by simp
    then show ?thesis using 2 Inr by auto
  qed
qed (auto simp: poison_get)

text \<open>
  If every head offered was proved from the one it expects, the heads a log goes through
  are each proved from the one before, whatever the interleaving of rounds.
\<close>

lemma taken_chain:
  assumes proved: "\<And>e r. Inl (e, r) \<in> set ops \<Longrightarrow> rOrigin r = q \<Longrightarrow> R e r"
    and same: "\<And>d e r. same_head d e \<Longrightarrow> R e r \<Longrightarrow> R d r"
  shows "successively (\<lambda>a b. R (Some a) b) (taken q ops s) \<and>
    (taken q ops s \<noteq> [] \<longrightarrow> R (get s q) (hd (taken q ops s)))"
  using proved
proof (induction ops s rule: run.induct)
  case (2 e r ops s)
  show ?case
  proof (cases "cas e r s")
    case (Inl x)
    then show ?thesis using 2 by auto
  next
    case (Inr t)
    have c: "same_head (get s (rOrigin r)) e" "get t q = (if q = rOrigin r then Some r else get s q)"
      using cas_ok[OF Inr] by simp_all
    have ih: "successively (\<lambda>a b. R (Some a) b) (taken q ops t) \<and>
        (taken q ops t \<noteq> [] \<longrightarrow> R (get t q) (hd (taken q ops t)))"
      using 2 Inr by auto
    show ?thesis
    proof (cases "rOrigin r = q")
      case True
      then have "R (get s q) r" using same[OF c(1)] 2(2)[of e r] by auto
      then show ?thesis using ih True c(2) Inr by (cases "taken q ops t") auto
    next
      case False
      then show ?thesis using ih c(2) Inr by auto
    qed
  qed
qed (auto simp: poison_get)

end

interpretation hs: head_store Get CompareAndSet RecordFork IsForked
proof
  fix e :: "Record option" and r :: Record and s t :: Store
  assume "CompareAndSet e r s = Inr t"
  then show "same_head (Get s (rOrigin r)) e \<and>
      (\<forall>q. Get t q = (if q = rOrigin r then Some r else Get s q)) \<and> (\<forall>q. IsForked t q = IsForked s q)"
    by (auto simp: CompareAndSet_def Get_def IsForked_def same_head_def Let_def
        split: option.splits if_splits)
next
  fix e :: "Record option" and r :: Record and s :: Store
  assume "same_head (Get s (rOrigin r)) e"
  then show "\<exists>t. CompareAndSet e r s = Inr t"
    by (auto simp: CompareAndSet_def Get_def same_head_def Let_def split: option.splits)
qed (auto simp: RecordFork_def IsForked_def Get_def)

subsection \<open>Retractions and commitments\<close>

lemma earliest_min:
  "earliest q b f = Some g \<Longrightarrow>
   ((\<exists>x\<in>set b. fst (fst x) = q \<and> snd x = g) \<or> f = Some g) \<and>
   (\<forall>x\<in>set b. fst (fst x) = q \<longrightarrow> fkDetectedAt g \<le> fkDetectedAt (snd x)) \<and>
   (\<forall>h. f = Some h \<longrightarrow> fkDetectedAt g \<le> fkDetectedAt h)"
proof (induction q b f rule: earliest.induct)
  case (2 q o' t cand b f)
  show ?case
  proof (cases "o' = q \<and> (f = None \<or> fkDetectedAt cand < fkDetectedAt (the f))")
    case True
    then have "earliest q b (Some cand) = Some g" using 2(2) by simp
    then have "((\<exists>x\<in>set b. fst (fst x) = q \<and> snd x = g) \<or> cand = g) \<and>
       (\<forall>x\<in>set b. fst (fst x) = q \<longrightarrow> fkDetectedAt g \<le> fkDetectedAt (snd x)) \<and> fkDetectedAt g \<le> fkDetectedAt cand"
      using 2(1) by (simp add: True)
    then show ?thesis using True by (cases f) auto
  next
    case False
    then have e: "earliest q b f = Some g" using 2(2) by (simp only: earliest.simps if_False)
    have ih: "((\<exists>x\<in>set b. fst (fst x) = q \<and> snd x = g) \<or> f = Some g) \<and>
       (\<forall>x\<in>set b. fst (fst x) = q \<longrightarrow> fkDetectedAt g \<le> fkDetectedAt (snd x)) \<and>
       (\<forall>h. f = Some h \<longrightarrow> fkDetectedAt g \<le> fkDetectedAt h)"
      using 2(1) e unfolding if_not_P[OF False] by blast
    have "o' = q \<longrightarrow> fkDetectedAt g \<le> fkDetectedAt cand" using ih False by (cases f) auto
    then show ?thesis using ih by auto
  qed
qed simp

text \<open>A retraction lifts the poison mark of one log, keeps all evidence, and cites the oldest finding.\<close>

theorem RetractFork_effect:
  assumes "RetractFork now q reason s = Inr t"
  shows "IsForked s q \<and> reason \<noteq> [] \<and> (\<forall>p. IsForked t p \<longleftrightarrow> p \<noteq> q \<and> IsForked s p) \<and> forks t = forks s \<and>
    heads t = heads s \<and>
    (\<exists>r. retractions t q = Some r \<and> rtReason r = reason \<and> rtRetractedAt r = now \<and>
       rtFork r \<in> snd ` {x \<in> set (forks s). fst (fst x) = q} \<and>
       (\<forall>x\<in>set (forks s). fst (fst x) = q \<longrightarrow> fkDetectedAt (rtFork r) \<le> fkDetectedAt (snd x)))"
proof -
  obtain g where g: "reason \<noteq> []" "IsForked s q" "earliest q (forks s) None = Some g"
    "t = s\<lparr>retractions := (retractions s)(q \<mapsto>
            \<lparr>rtOrigin = q, rtReason = reason, rtRetractedAt = now, rtFork = g\<rparr>),
          poisoned := (poisoned s)(q := None)\<rparr>"
    using assms by (auto simp: RetractFork_def IsForked_def split: if_splits option.splits)
  have "g \<in> snd ` {x \<in> set (forks s). fst (fst x) = q}"
    "\<forall>x\<in>set (forks s). fst (fst x) = q \<longrightarrow> fkDetectedAt g \<le> fkDetectedAt (snd x)"
    using earliest_min[OF g(3)] by auto
  then show ?thesis using g by (simp add: IsForked_def)
qed

theorem RetractFork_effect_witness:
  "\<exists>t. RetractFork 9 ''log'' ''bug'' (RecordFork
     \<lparr>fkOrigin = ''log'', fkReason = ''x'', fkDetectedAt = 3, fkPrevSigned = [], fkNextSigned = []\<rparr> empty_store) = Inr t \<and>
     \<not> IsForked t ''log'' \<and> length (forks t) = 1"
proof -
  let ?s = "RecordFork \<lparr>fkOrigin = ''log'', fkReason = ''x'', fkDetectedAt = 3, fkPrevSigned = [], fkNextSigned = []\<rparr> empty_store"
  obtain t where t: "RetractFork 9 ''log'' ''bug'' ?s = Inr t"
    by (simp add: RetractFork_def RecordFork_def empty_store_def)
  moreover have "length (forks ?s) = 1" by code_simp
  ultimately show ?thesis using RetractFork_effect[OF t] by simp
qed

text \<open>
  A log that is poisoned again after a retraction: the second retraction names the first
  finding, not the one it lifts.
\<close>

theorem second_retraction_cites_first:
  assumes "RecordFork f s = t" "\<not> IsForked s (fkOrigin f)"
    and "x \<in> set (forks s)" "fst (fst x) = fkOrigin f" "fkDetectedAt (snd x) < fkDetectedAt f"
    and "fst x \<noteq> (fkOrigin f, fkDetectedAt f)"
    and "RetractFork now (fkOrigin f) reason t = Inr u"
  shows "\<exists>r. retractions u (fkOrigin f) = Some r \<and> rtFork r \<noteq> f"
proof -
  have keep: "x \<in> set (bput k v b)" if "x \<in> set b" "fst x \<noteq> k" for k :: "string \<times> int" and v :: Fork and b
    using that by (induction k v b rule: bput.induct) auto
  have "x \<in> set (forks t)"
    using assms(1,2,3,6) keep by (auto simp: RecordFork_def IsForked_def)
  then show ?thesis
    using assms(4,5,7) earliest_min[of "fkOrigin f" "forks t" None]
    by (force simp: RetractFork_def split: if_splits option.splits)
qed

theorem second_retraction_cites_first_witness:
  "\<exists>r. retractions (case RetractFork 9 ''log'' ''again'' (RecordFork
         \<lparr>fkOrigin = ''log'', fkReason = ''y'', fkDetectedAt = 8, fkPrevSigned = [], fkNextSigned = []\<rparr>
         (empty_store\<lparr>forks := [((''log'', 3),
           \<lparr>fkOrigin = ''log'', fkReason = ''x'', fkDetectedAt = 3, fkPrevSigned = [], fkNextSigned = []\<rparr>)]\<rparr>)) of
       Inl e \<Rightarrow> empty_store | Inr u \<Rightarrow> u) ''log'' = Some r \<and>
     rtFork r \<noteq> \<lparr>fkOrigin = ''log'', fkReason = ''y'', fkDetectedAt = 8, fkPrevSigned = [], fkNextSigned = []\<rparr>"
proof -
  let ?f = "\<lparr>fkOrigin = ''log'', fkReason = ''y'', fkDetectedAt = 8, fkPrevSigned = [], fkNextSigned = []\<rparr>"
  let ?x = "((''log'', 3),
    \<lparr>fkOrigin = ''log'', fkReason = ''x'', fkDetectedAt = 3, fkPrevSigned = [], fkNextSigned = []\<rparr>)"
  let ?s = "empty_store\<lparr>forks := [?x]\<rparr>"
  obtain u where u: "RetractFork 9 (fkOrigin ?f) ''again'' (RecordFork ?f ?s) = Inr u"
    by (simp add: RetractFork_def RecordFork_def empty_store_def)
  have "\<exists>r. retractions u (fkOrigin ?f) = Some r \<and> rtFork r \<noteq> ?f"
    by (rule second_retraction_cites_first[OF refl _ _ _ _ _ u, of ?x])
      (simp_all add: IsForked_def empty_store_def)
  then show ?thesis using u by simp
qed

subsection \<open>Epoch commitments\<close>

text \<open>A sequence of sightings of epoch commitments; a contradiction is returned and changes nothing.\<close>

fun record_epochs :: "(int \<times> string \<times> int \<times> string \<times> int) list \<Rightarrow> Store \<Rightarrow> epoch_conflict list \<times> Store" where
  "record_epochs [] s = ([], s)"
| "record_epochs ((now, q, n, h, i) # es) s =
     (case RecordEpochCommitment now q n h i s of
        Inl c \<Rightarrow> (let (cs, t) = record_epochs es s in (c # cs, t))
      | Inr s' \<Rightarrow> record_epochs es s')"

lemma record_epochs_first:
  assumes "epochs s (q, n) = Some c" "(t, q, n, h, i) \<in> set es" "h \<noteq> ecChainHash c \<or> i \<noteq> ecIssuanceTime c"
  shows "\<exists>d. EpochConflict q c d \<in> set (fst (record_epochs es s)) \<and> ecEpochID d = n \<and> ecChainHash d = h \<and> ecIssuanceTime d = i"
  using assms
proof (induction es s rule: record_epochs.induct)
  case (2 now q' n' h' i' es s)
  show ?case
  proof (cases "RecordEpochCommitment now q' n' h' i' s")
    case (Inl e)
    then show ?thesis using 2
      by (auto simp: RecordEpochCommitment_def Let_def split: option.splits if_splits prod.splits)
  next
    case (Inr u)
    then have "epochs u (q, n) = Some c" "(t, q, n, h, i) \<in> set es"
      using 2(3-) by (auto simp: RecordEpochCommitment_def Let_def split: option.splits if_splits)
    then show ?thesis using 2(2)[OF Inr] 2(5) Inr by simp
  qed
qed simp

text \<open>Two sightings of one epoch that differ are always reported, whatever comes between them.\<close>

theorem epoch_contradiction_reported:
  assumes "epochs s (q, n) = None"
    and "(t, q, n, h, i) \<in> set es" "(t', q, n, h', i') \<in> set es" "h \<noteq> h' \<or> i \<noteq> i'"
  shows "\<exists>c d. EpochConflict q c d \<in> set (fst (record_epochs es s)) \<and> ecEpochID c = n \<and> ecEpochID d = n \<and>
    (ecChainHash c \<noteq> ecChainHash d \<or> ecIssuanceTime c \<noteq> ecIssuanceTime d)"
  using assms
proof (induction es s rule: record_epochs.induct)
  case (2 now q0 n0 h0 i0 es s)
  show ?case
  proof (cases "q0 = q \<and> n0 = n")
    case True
    define c where "c = \<lparr>ecEpochID = n, ecChainHash = h0, ecIssuanceTime = i0, ecFirstSeen = now\<rparr>"
    define u where "u = s\<lparr>epochs := (epochs s)((q, n) \<mapsto> c)\<rparr>"
    have step: "RecordEpochCommitment now q0 n0 h0 i0 s = Inr u"
      using True 2(3) by (simp add: RecordEpochCommitment_def u_def c_def)
    obtain t1 h1 i1 where m: "(t1, q, n, h1, i1) \<in> set es" "h1 \<noteq> h0 \<or> i1 \<noteq> i0"
      using 2(4-6) True by (cases "h = h0 \<and> i = i0") auto
    have "\<exists>d. EpochConflict q c d \<in> set (fst (record_epochs es u)) \<and> ecEpochID d = n \<and>
        ecChainHash d = h1 \<and> ecIssuanceTime d = i1"
      by (rule record_epochs_first[OF _ m(1)]) (use m(2) in \<open>auto simp: u_def c_def\<close>)
    then obtain d where d: "EpochConflict q c d \<in> set (fst (record_epochs es u))" "ecEpochID d = n"
      "ecChainHash d = h1" "ecIssuanceTime d = i1" by blast
    have "ecChainHash c \<noteq> ecChainHash d \<or> ecIssuanceTime c \<noteq> ecIssuanceTime d" "ecEpochID c = n"
      using m(2) d by (auto simp: c_def)
    then show ?thesis using d(1,2) step by auto
  next
    case False
    then have m: "(t, q, n, h, i) \<in> set es" "(t', q, n, h', i') \<in> set es" using 2(4,5) by auto
    show ?thesis
    proof (cases "RecordEpochCommitment now q0 n0 h0 i0 s")
      case (Inl e)
      then show ?thesis using 2(1)[OF Inl 2(3) m 2(6)] by (auto simp: Let_def case_prod_beta)
    next
      case (Inr u)
      then have "epochs u (q, n) = None"
        using False 2(3) by (auto simp: RecordEpochCommitment_def Let_def split: option.splits if_splits)
      then show ?thesis using 2(2)[OF Inr _ m 2(6)] Inr by auto
    qed
  qed
qed simp

theorem epoch_contradiction_reported_witness:
  "\<exists>c d. EpochConflict ''p'' c d \<in> set (fst (record_epochs
      [(1, ''p'', 4, ''aa'', 7), (2, ''p'', 5, ''cc'', 9), (3, ''p'', 4, ''bb'', 7)] empty_store))"
  using epoch_contradiction_reported[of empty_store "''p''" 4 1 "''aa''" 7
      "[(1, ''p'', 4, ''aa'', 7), (2, ''p'', 5, ''cc'', 9), (3, ''p'', 4, ''bb'', 7)]" 3 "''bb''" 7]
  by (auto simp: empty_store_def simp del: record_epochs.simps)

end
