(* ===== verification/Witness_Core.thy ===== *)
theory Witness_Core
  imports Head_Store
begin

text \<open>
  One verify-and-cosign round, \<open>internal/witness/witness.go\<close>: \<open>Process\<close> with its gates in
  the source's order, \<open>fork\<close>, and \<open>observePeers\<close>.  A log's \<open>Source\<close> is a record of its
  methods, the signer and the peer verifier are functions, and the clock readings of the
  round are an argument.  \<open>Process_plan\<close> is everything a round decides after its two reads
  of the store; \<open>Process\<close> is the whole round on one store, and the interleaving theorem
  runs the plans of many rounds against a store that other rounds change in between.
\<close>

record Head =
  hOrigin :: string
  hSize :: int
  hHash :: bytes
  hSigned :: bytes
  hNote :: bytes
  hCosigners :: "string list"
  hFetchedAt :: int

datatype fork_reason =
    PreviouslyForked
  | SourceSays string
  | NotAPrefix int int fork_reason
  | SplitView int bytes bytes

record ForkError =
  feOrigin :: string
  feReason :: fork_reason
  fePrev :: "Head option"
  feNext :: "Head option"

text \<open>An error of a source: a conclusive fork, or anything else.\<close>

datatype source_error = IsFork ForkError | OtherError string

datatype Tier = TierSignedHead | TierA | TierAPlus | TierB | TierBPlus

record Source =
  sOrigin :: string
  sTier :: Tier
  sDerivedHead :: bool
  sFetch :: "Head option \<Rightarrow> source_error + Head"
  sVerifyConsistency :: "Head option \<Rightarrow> Head option \<Rightarrow> source_error option"
  sRefreshNow :: "bool option"

record PeerObs =
  poOrigin :: string
  poWitness :: string
  poSize :: int
  poRoot :: string
  poTimestamp :: u64

record Peers =
  pUnverifiable :: "string \<Rightarrow> bytes \<Rightarrow> string list"
  pObserve :: "string \<Rightarrow> bytes \<Rightarrow> string + PeerObs list"

record Witness =
  wSign :: "bytes \<Rightarrow> string + bytes"
  wMaxSignDelay :: int
  wRefreshInterval :: int
  wPeers :: "Peers option"
  wReasonText :: "fork_reason \<Rightarrow> string"

record Outcome =
  ocOrigin :: string
  ocTier :: Tier
  ocSize :: int
  ocCosigned :: bool
  ocUnchanged :: bool
  ocRefreshed :: bool
  ocNote :: bytes

record Clock =
  tSeen :: int
  tRefresh :: int
  tFresh :: int
  tRecord :: int
  tFork :: int

datatype process_error =
    Forked ForkError
  | FetchError string
  | WrongOrigin string
  | DerivedRollback int int
  | RollbackUnknown int int string
  | StaleReplica int int
  | DerivedSplit int bytes bytes
  | Unproven string
  | ErrStale int
  | SignError string
  | Persist store_error

definition head_of :: "Record \<Rightarrow> Head" where
  "head_of r = \<lparr>hOrigin = rOrigin r, hSize = rSize r, hHash = rHash r, hSigned = rCosigned r,
     hNote = [], hCosigners = [], hFetchedAt = 0\<rparr>"

text \<open>What a round does to the store: nothing, fork evidence, or a new head.\<close>

datatype plan =
    Return "process_error + Outcome"
  | DoFork ForkError
  | Persist_head Record Outcome

definition gate1 :: "Witness \<Rightarrow> Source \<Rightarrow> Clock \<Rightarrow> Record option \<Rightarrow> Head \<Rightarrow> plan + bool" where
  "gate1 w src clk prevRec next =
     (case prevRec of
        None \<Rightarrow> Inr False
      | Some pr \<Rightarrow>
          (let prev = head_of pr; origin = sOrigin src
           in if hSize next < hSize prev then
                (if sDerivedHead src then Inl (Return (Inl (DerivedRollback (hSize prev) (hSize next))))
                 else case sVerifyConsistency src (Some next) (Some prev) of
                        Some (IsFork fe) \<Rightarrow>
                          Inl (DoFork \<lparr>feOrigin = origin,
                                 feReason = NotAPrefix (hSize prev) (hSize next) (feReason fe),
                                 fePrev = Some prev, feNext = Some next\<rparr>)
                      | Some (OtherError e) \<Rightarrow>
                          Inl (Return (Inl (RollbackUnknown (hSize prev) (hSize next) e)))
                      | None \<Rightarrow> Inl (Return (Inl (StaleReplica (hSize prev) (hSize next)))))
              else if hSize next = hSize prev \<and> hHash next \<noteq> hHash prev then
                (if sDerivedHead src
                 then Inl (Return (Inl (DerivedSplit (hSize prev) (hHash prev) (hHash next))))
                 else Inl (DoFork \<lparr>feOrigin = origin,
                        feReason = SplitView (hSize prev) (hHash prev) (hHash next),
                        fePrev = Some prev, feNext = Some next\<rparr>))
              else if hSize next = hSize prev then
                (let force = (case sRefreshNow src of Some b \<Rightarrow> b | None \<Rightarrow> False)
                 in if \<not> force \<and> (wRefreshInterval w \<le> 0 \<or>
                         tRefresh clk - rWitnessedAt pr < wRefreshInterval w)
                    then Inl (Return (Inr \<lparr>ocOrigin = origin, ocTier = sTier src, ocSize = hSize next,
                           ocCosigned = False, ocUnchanged = True, ocRefreshed = False, ocNote = []\<rparr>))
                    else Inr True)
              else Inr False))"

definition Process_plan :: "Witness \<Rightarrow> Source \<Rightarrow> Clock \<Rightarrow> bool \<Rightarrow> Record option \<Rightarrow> plan" where
  "Process_plan w src clk forked prevRec =
     (let origin = sOrigin src; prev = map_option head_of prevRec
      in if forked then
           Return (Inl (Forked \<lparr>feOrigin = origin, feReason = PreviouslyForked, fePrev = None, feNext = None\<rparr>))
         else case sFetch src prev of
           Inl (IsFork fe) \<Rightarrow> DoFork fe
         | Inl (OtherError e) \<Rightarrow> Return (Inl (FetchError e))
         | Inr next \<Rightarrow>
             if hOrigin next \<noteq> origin then Return (Inl (WrongOrigin (hOrigin next)))
             else case gate1 w src clk prevRec next of
               Inl p \<Rightarrow> p
             | Inr refresh \<Rightarrow>
                 (case (if refresh then None else sVerifyConsistency src prev (Some next)) of
                    Some (IsFork fe) \<Rightarrow> DoFork fe
                  | Some (OtherError e) \<Rightarrow> Return (Inl (Unproven e))
                  | None \<Rightarrow>
                      if wMaxSignDelay w > 0 \<and> tFresh clk - hFetchedAt next > wMaxSignDelay w
                      then Return (Inl (ErrStale (tFresh clk - hFetchedAt next)))
                      else case wSign w (hNote next) of
                        Inl e \<Rightarrow> Return (Inl (SignError e))
                      | Inr cosigned \<Rightarrow>
                          Persist_head
                            \<lparr>rOrigin = origin, rSize = hSize next, rHash = hHash next,
                             rCosigned = cosigned, rWitnessedAt = tRecord clk\<rparr>
                            \<lparr>ocOrigin = origin, ocTier = sTier src, ocSize = hSize next,
                             ocCosigned = True, ocUnchanged = False, ocRefreshed = refresh,
                             ocNote = cosigned\<rparr>))"

text \<open>\<open>fork\<close>: the evidence is written before the error is returned.\<close>

definition fork_evidence :: "Witness \<Rightarrow> Clock \<Rightarrow> ForkError \<Rightarrow> Fork" where
  "fork_evidence w clk fe =
     \<lparr>fkOrigin = feOrigin fe, fkReason = wReasonText w (feReason fe), fkDetectedAt = tFork clk,
      fkPrevSigned = (case fePrev fe of Some h \<Rightarrow> hSigned h | None \<Rightarrow> []),
      fkNextSigned = (case feNext fe of Some h \<Rightarrow> hSigned h | None \<Rightarrow> [])\<rparr>"

definition fork :: "Witness \<Rightarrow> Clock \<Rightarrow> ForkError \<Rightarrow> Store \<Rightarrow> Store \<times> process_error" where
  "fork w clk fe s = (RecordFork (fork_evidence w clk fe) s, Forked fe)"

text \<open>\<open>observePeers\<close>; the disagreements it finds are only reported, so they are its result.\<close>

definition record_names :: "string list \<Rightarrow> string \<Rightarrow> int \<Rightarrow> Store \<Rightarrow> Store" where
  "record_names names origin now s = foldl (\<lambda>s name. RecordSeenWitness name origin now s) s names"

fun record_obs :: "PeerObs list \<Rightarrow> Store \<Rightarrow> PeerAttestation list \<times> Store" where
  "record_obs [] s = ([], s)"
| "record_obs (ob # obs) s =
     (let (cs, s1) = RecordPeer \<lparr>paOrigin = poOrigin ob, paWitness = poWitness ob, paSize = poSize ob,
                        paRoot = poRoot ob, paTimestamp = poTimestamp ob\<rparr> s;
          (ds, s2) = record_obs obs s1
      in (cs @ ds, s2))"

definition observePeers :: "Witness \<Rightarrow> string \<Rightarrow> Head \<Rightarrow> int \<Rightarrow> Store \<Rightarrow> PeerAttestation list \<times> Store" where
  "observePeers w origin head now s =
     (let s = record_names (hCosigners head) origin now s
      in case wPeers w of
           None \<Rightarrow> ([], s)
         | Some p \<Rightarrow>
             if hSigned head = [] then ([], s)
             else (let s = record_names (pUnverifiable p origin (hSigned head)) origin now s
                   in case pObserve p origin (hSigned head) of
                        Inl e \<Rightarrow> ([], s)
                      | Inr obs \<Rightarrow> if obs = [] then ([], s) else record_obs obs s))"

text \<open>The whole round.  Peers are observed on every head that was fetched, before the gates.\<close>

definition Process :: "Witness \<Rightarrow> Source \<Rightarrow> Clock \<Rightarrow> Store \<Rightarrow> Store \<times> (process_error + Outcome)" where
  "Process w src clk s =
     (let forked = IsForked s (sOrigin src); prevRec = Get s (sOrigin src);
          s1 = (if forked then s
                else case sFetch src (map_option head_of prevRec) of
                       Inl _ \<Rightarrow> s
                     | Inr next \<Rightarrow> snd (observePeers w (sOrigin src) next (tSeen clk) s))
      in case Process_plan w src clk forked prevRec of
           Return r \<Rightarrow> (s1, r)
         | DoFork fe \<Rightarrow> (let (s2, e) = fork w clk fe s1 in (s2, Inl e))
         | Persist_head rec oc \<Rightarrow>
             (case CompareAndSet prevRec rec s1 of
                Inl e \<Rightarrow> (s1, Inl (Persist e))
              | Inr s2 \<Rightarrow> (s2, Inr oc)))"

subsection \<open>Reads and writes of a round\<close>

text \<open>Observing peers leaves heads, poison marks and evidence alone.\<close>

lemma record_names_frame:
  "heads (record_names ns q t s) = heads s \<and> poisoned (record_names ns q t s) = poisoned s \<and>
   forks (record_names ns q t s) = forks s"
  by (induction ns arbitrary: s) (auto simp: record_names_def RecordSeenWitness_def Let_def)

lemma record_obs_frame:
  "heads (snd (record_obs obs s)) = heads s \<and> poisoned (snd (record_obs obs s)) = poisoned s \<and>
   forks (snd (record_obs obs s)) = forks s"
  by (induction obs arbitrary: s) (simp_all add: RecordPeer_def Let_def case_prod_beta)

lemma observePeers_frame:
  "heads (snd (observePeers w q h t s)) = heads s \<and> poisoned (snd (observePeers w q h t s)) = poisoned s \<and>
   forks (snd (observePeers w q h t s)) = forks s"
  by (auto simp: observePeers_def Let_def record_names_frame record_obs_frame
      split: option.splits sum.splits)

text \<open>A planned head is proved from the head the round read, or is that head again.\<close>

definition proved_from :: "Record option \<Rightarrow> Record \<Rightarrow> bool" where
  "proved_from e r \<longleftrightarrow>
     (case e of None \<Rightarrow> True
      | Some p \<Rightarrow> rSize p < rSize r \<or> (rSize p = rSize r \<and> rHash p = rHash r))"

lemma plan_head:
  "Process_plan w src clk forked e = Persist_head r oc \<Longrightarrow>
   \<not> forked \<and> rOrigin r = sOrigin src \<and> proved_from e r \<and>
   (\<exists>next. sFetch src (map_option head_of e) = Inr next \<and> hOrigin next = sOrigin src \<and>
      rSize r = hSize next \<and> rHash r = hHash next \<and> wSign w (hNote next) = Inr (rCosigned r) \<and>
      (wMaxSignDelay w > 0 \<longrightarrow> tFresh clk - hFetchedAt next \<le> wMaxSignDelay w) \<and>
      (sVerifyConsistency src (map_option head_of e) (Some next) = None \<or>
       (\<exists>p. e = Some p \<and> rSize p = rSize r \<and> rHash p = rHash r)))"
  by (auto simp: Process_plan_def gate1_def proved_from_def Let_def head_of_def not_less
      split: if_splits sum.splits source_error.splits option.splits)

subsection \<open>Interleaved rounds\<close>

text \<open>
  A round that is about to commit: its source and clock, and what it read of the store at
  some earlier time.  Between the reads and the commit other rounds may have run.
\<close>

record pending =
  pdSource :: Source
  pdClock :: Clock
  pdForked :: bool
  pdPrev :: "Record option"

definition round_op :: "Witness \<Rightarrow> pending \<Rightarrow> (Record option \<times> Record + Fork) list" where
  "round_op w p = (case Process_plan w (pdSource p) (pdClock p) (pdForked p) (pdPrev p) of
     Return r \<Rightarrow> []
   | DoFork fe \<Rightarrow> [Inr (fork_evidence w (pdClock p) fe)]
   | Persist_head rec oc \<Rightarrow> [Inl (pdPrev p, rec)])"

fun commit_ops :: "(Record option \<times> Record + Fork) list \<Rightarrow> Store \<Rightarrow> Store" where
  "commit_ops [] s = s"
| "commit_ops (Inl (e, r) # ops) s =
     commit_ops ops (case CompareAndSet e r s of Inl _ \<Rightarrow> s | Inr t \<Rightarrow> t)"
| "commit_ops (Inr f # ops) s = commit_ops ops (RecordFork f s)"

fun heads_taken :: "string \<Rightarrow> (Record option \<times> Record + Fork) list \<Rightarrow> Store \<Rightarrow> Record list" where
  "heads_taken q [] s = []"
| "heads_taken q (Inl (e, r) # ops) s =
     (case CompareAndSet e r s of
        Inl _ \<Rightarrow> heads_taken q ops s
      | Inr t \<Rightarrow> (if rOrigin r = q then [r] else []) @ heads_taken q ops t)"
| "heads_taken q (Inr f # ops) s = heads_taken q ops (RecordFork f s)"

lemma commit_ops_hs: "commit_ops ops s = hs.run ops s"
  by (induction ops s rule: commit_ops.induct) auto

lemma heads_taken_hs: "heads_taken q ops s = hs.taken q ops s"
  by (induction q ops s rule: heads_taken.induct) (auto split: sum.splits)

text \<open>The proof a round of the list gave for a head, from a head of the same size and root.\<close>

definition round_proof :: "Witness \<Rightarrow> pending list \<Rightarrow> Record option \<Rightarrow> Record \<Rightarrow> bool" where
  "round_proof w ps a r \<longleftrightarrow>
     proved_from a r \<and>
     (\<exists>p\<in>set ps. \<exists>next. \<not> pdForked p \<and> sOrigin (pdSource p) = rOrigin r \<and> same_head a (pdPrev p) \<and>
        sFetch (pdSource p) (map_option head_of (pdPrev p)) = Inr next \<and>
        hSize next = rSize r \<and> hHash next = rHash r \<and>
        (sVerifyConsistency (pdSource p) (map_option head_of (pdPrev p)) (Some next) = None \<or>
         (\<exists>b. a = Some b \<and> rSize b = rSize r \<and> rHash b = rHash r)))"

lemma same_head_trans: "same_head a b \<Longrightarrow> same_head b c \<Longrightarrow> same_head a c"
  by (auto simp: same_head_def split: option.splits)

lemma same_head_refl [simp]: "same_head a a"
  by (auto simp: same_head_def split: option.splits)

lemma same_head_proved:
  assumes "same_head d e"
  shows "proved_from e r \<Longrightarrow> proved_from d r"
    and "(\<exists>b. e = Some b \<and> rSize b = n \<and> rHash b = h) \<Longrightarrow> (\<exists>b. d = Some b \<and> rSize b = n \<and> rHash b = h)"
  using assms by (auto simp: same_head_def proved_from_def split: option.splits)

lemma round_proof_same:
  assumes "same_head d e" "round_proof w ps e r"
  shows "round_proof w ps d r"
  using assms(2) same_head_proved[OF assms(1)] same_head_trans[OF assms(1)]
  unfolding round_proof_def by meson

text \<open>
C6. Whatever order concurrent rounds commit in, every head a log takes on in the store was
  proved by some round to extend the head that was in the store when it was written (or is
  that head again), and the stored head is the last one taken.
\<close>

theorem heads_proved_under_interleaving:
  "successively (\<lambda>a b. round_proof w ps (Some a) b) (heads_taken q (concat (map (round_op w) ps)) s) \<and>
   (heads_taken q (concat (map (round_op w) ps)) s \<noteq> [] \<longrightarrow>
      round_proof w ps (Get s q) (hd (heads_taken q (concat (map (round_op w) ps)) s))) \<and>
   (heads_taken q (concat (map (round_op w) ps)) s \<noteq> [] \<longrightarrow>
      Get (commit_ops (concat (map (round_op w) ps)) s) q =
        Some (last (heads_taken q (concat (map (round_op w) ps)) s)))"
proof -
  have "round_proof w ps e r" if m: "Inl (e, r) \<in> set (concat (map (round_op w) ps))" for e r
  proof -
    obtain p where p1: "p \<in> set ps" "Inl (e, r) \<in> set (round_op w p)"
      using m by auto
    then obtain oc where p: "p \<in> set ps" "e = pdPrev p"
      "Process_plan w (pdSource p) (pdClock p) (pdForked p) (pdPrev p) = Persist_head r oc"
      by (cases "Process_plan w (pdSource p) (pdClock p) (pdForked p) (pdPrev p)")
        (auto simp: round_op_def)
    show ?thesis unfolding round_proof_def
      using plan_head[OF p(3)] p(1,2) by (auto intro!: bexI[of _ p])
  qed
  then have "successively (\<lambda>a b. round_proof w ps (Some a) b) (hs.taken q (concat (map (round_op w) ps)) s) \<and>
    (hs.taken q (concat (map (round_op w) ps)) s \<noteq> [] \<longrightarrow>
       round_proof w ps (Get s q) (hd (hs.taken q (concat (map (round_op w) ps)) s)))"
    by (rule hs.taken_chain[OF _ round_proof_same])
  then show ?thesis
    using hs.get_run[of "concat (map (round_op w) ps)" s q] by (simp add: heads_taken_hs commit_ops_hs)
qed

text \<open>In particular the stored size never goes down and its root never changes.\<close>

subsection \<open>Poisoned logs\<close>

text \<open>
C26. A poisoned log stays poisoned under any list of concurrent rounds, and a round that
  starts on it changes nothing and returns a fork error.
\<close>

theorem poisoned_log_refused:
  assumes "IsForked s q"
  shows "IsForked (commit_ops (concat (map (round_op w) ps)) s) q \<and>
    (sOrigin src = q \<longrightarrow> fst (Process w src clk s) = s \<and> (\<exists>fe. snd (Process w src clk s) = Inl (Forked fe)))"
  using hs.forked_run[OF assms] assms
  by (auto simp: commit_ops_hs Process_def Process_plan_def Let_def)

subsection \<open>Contradictions are recorded\<close>

lemma RecordFork_new:
  assumes "\<not> IsForked s (fkOrigin f)"
  shows "IsForked (RecordFork f s) (fkOrigin f) \<and> f \<in> snd ` set (forks (RecordFork f s))"
proof -
  have "map_of (bput k v b) k = Some v" for k :: "string \<times> int" and v :: Fork and b by simp
  then have "(k, v) \<in> set (bput k v b)" for k :: "string \<times> int" and v :: Fork and b by (meson map_of_SomeD)
  then show ?thesis using assms by (force simp: RecordFork_def IsForked_def)
qed

text \<open>
C27. When a log that signs its heads serves a second root at the witnessed size, the round
  returns a fork error, leaves the heads alone, poisons the log and stores both signed heads
  as evidence.
\<close>

theorem split_view_recorded:
  assumes "\<not> IsForked s (sOrigin src)" "Get s (sOrigin src) = Some pr"
    and "sFetch src (Some (head_of pr)) = Inr next" "hOrigin next = sOrigin src"
    and "\<not> sDerivedHead src" "hSize next = rSize pr" "hHash next \<noteq> rHash pr"
  shows "case Process w src clk s of (t, r) \<Rightarrow>
    (\<exists>fe. r = Inl (Forked fe)) \<and> IsForked t (sOrigin src) \<and> heads t = heads s \<and>
    (\<exists>f\<in>snd ` set (forks t). fkOrigin f = sOrigin src \<and> fkPrevSigned f = rCosigned pr \<and>
       fkNextSigned f = hSigned next)"
proof -
  define s1 where "s1 = snd (observePeers w (sOrigin src) next (tSeen clk) s)"
  define fe where "fe = \<lparr>feOrigin = sOrigin src, feReason = SplitView (rSize pr) (rHash pr) (hHash next),
     fePrev = Some (head_of pr), feNext = Some next\<rparr>"
  have plan: "Process_plan w src clk False (Some pr) = DoFork fe"
    using assms(3-7) by (simp add: Process_plan_def gate1_def fe_def Let_def) (simp add: head_of_def)
  have f1: "\<not> IsForked s1 (sOrigin src)" "heads s1 = heads s"
    using assms(1) observePeers_frame by (simp_all add: s1_def IsForked_def)
  have "Process w src clk s = (RecordFork (fork_evidence w clk fe) s1, Inl (Forked fe))"
    using assms(1,2,3) plan by (simp add: Process_def s1_def fork_def Let_def)
  moreover have "heads (RecordFork (fork_evidence w clk fe) s1) = heads s"
    using f1 by (simp add: RecordFork_def)
  moreover have "fkOrigin (fork_evidence w clk fe) = sOrigin src"
    "fkPrevSigned (fork_evidence w clk fe) = rCosigned pr" "fkNextSigned (fork_evidence w clk fe) = hSigned next"
    by (simp_all add: fork_evidence_def fe_def head_of_def)
  moreover have "IsForked (RecordFork (fork_evidence w clk fe) s1) (sOrigin src)"
    "fork_evidence w clk fe \<in> snd ` set (forks (RecordFork (fork_evidence w clk fe) s1))"
    using RecordFork_new[of s1 "fork_evidence w clk fe"] f1(1) calculation(3) by simp_all
  ultimately show ?thesis
    by (auto intro!: bexI[of _ "fork_evidence w clk fe" "snd ` set (forks (RecordFork (fork_evidence w clk fe) s1))"]
        simp del: image_iff bex_simps)
qed

text \<open>And nothing else is: a log is accused only on its source's word or a split signed view.\<close>

text \<open>
C28. A round poisons a log only if its source reported a fork (while fetching or proving)
  or a signed head of the witnessed size carries another root; a derived head alone never
  does.
\<close>

theorem accusation_has_grounds:
  assumes "\<not> IsForked s (sOrigin src)" "IsForked (fst (Process w src clk s)) (sOrigin src)"
    and "\<And>prev fe. sFetch src prev = Inl (IsFork fe) \<Longrightarrow> feOrigin fe = sOrigin src"
  shows "(\<exists>fe. sFetch src (map_option head_of (Get s (sOrigin src))) = Inl (IsFork fe)) \<or>
    (\<exists>next fe. sFetch src (map_option head_of (Get s (sOrigin src))) = Inr next \<and>
       (sVerifyConsistency src (map_option head_of (Get s (sOrigin src))) (Some next) = Some (IsFork fe) \<or>
        (\<not> sDerivedHead src \<and>
          sVerifyConsistency src (Some next) (map_option head_of (Get s (sOrigin src))) = Some (IsFork fe)))) \<or>
    (\<exists>next pr. \<not> sDerivedHead src \<and> Get s (sOrigin src) = Some pr \<and>
       sFetch src (Some (head_of pr)) = Inr next \<and> hSize next = rSize pr \<and> hHash next \<noteq> rHash pr)"
proof -
  let ?e = "Get s (sOrigin src)"
  define s1 where "s1 = (case sFetch src (map_option head_of ?e) of Inl _ \<Rightarrow> s
     | Inr next \<Rightarrow> snd (observePeers w (sOrigin src) next (tSeen clk) s))"
  have p1: "poisoned s1 = poisoned s"
    by (auto simp: s1_def observePeers_frame split: sum.splits)
  have "\<exists>fe. Process_plan w src clk False ?e = DoFork fe"
  proof (cases "Process_plan w src clk False ?e")
    case (Return r)
    then show ?thesis using assms(1,2) p1
      by (simp add: Process_def s1_def[symmetric] IsForked_def Let_def)
  next
    case (Persist_head rec oc)
    then show ?thesis using assms(1,2) p1
      by (auto simp: Process_def s1_def[symmetric] IsForked_def Let_def CompareAndSet_def
          split: sum.splits option.splits if_splits)
  qed auto
  then show ?thesis
    by (auto simp: Process_plan_def gate1_def Let_def head_of_def
        split: if_splits sum.splits source_error.splits option.splits)
qed

subsection \<open>Concrete rounds\<close>

text \<open>A source that always gives the same head and finds nothing wrong, and a signer.\<close>

definition fixed_source :: "string \<Rightarrow> Head \<Rightarrow> Source" where
  "fixed_source q h = \<lparr>sOrigin = q, sTier = TierA, sDerivedHead = False, sFetch = (\<lambda>_. Inr h),
     sVerifyConsistency = (\<lambda>_ _. None), sRefreshNow = None\<rparr>"

definition plain_witness :: Witness where
  "plain_witness = \<lparr>wSign = (\<lambda>b. Inr (b @ [1])), wMaxSignDelay = 0, wRefreshInterval = 0,
     wPeers = None, wReasonText = (\<lambda>_. ''fork'')\<rparr>"

definition head_at :: "int \<Rightarrow> bytes \<Rightarrow> Head" where
  "head_at n h = \<lparr>hOrigin = ''log'', hSize = n, hHash = h, hSigned = [9], hNote = [9],
     hCosigners = [''w2''], hFetchedAt = 0\<rparr>"

definition store_at :: "int \<Rightarrow> bytes \<Rightarrow> Store" where
  "store_at n h = empty_store\<lparr>heads := [''log'' \<mapsto>
     \<lparr>rOrigin = ''log'', rSize = n, rHash = h, rCosigned = [7], rWitnessedAt = 0\<rparr>]\<rparr>"

definition clock0 :: Clock where
  "clock0 = \<lparr>tSeen = 1, tRefresh = 1, tFresh = 1, tRecord = 1, tFork = 1\<rparr>"

theorem poisoned_log_refused_witness:
  "IsForked (commit_ops (concat (map (round_op plain_witness)
      [\<lparr>pdSource = fixed_source ''log'' (head_at 6 [2]), pdClock = clock0, pdForked = False, pdPrev = None\<rparr>]))
    (RecordFork \<lparr>fkOrigin = ''log'', fkReason = ''x'', fkDetectedAt = 3, fkPrevSigned = [], fkNextSigned = []\<rparr>
      empty_store)) ''log''"
  by (rule poisoned_log_refused[THEN conjunct1])
    (simp add: RecordFork_def IsForked_def empty_store_def)

theorem split_view_recorded_witness:
  "case Process plain_witness (fixed_source ''log'' (head_at 5 [2])) clock0 (store_at 5 [1]) of (t, r) \<Rightarrow>
    (\<exists>fe. r = Inl (Forked fe)) \<and> IsForked t (sOrigin (fixed_source ''log'' (head_at 5 [2]))) \<and>
    heads t = heads (store_at 5 [1]) \<and>
    (\<exists>f\<in>snd ` set (forks t). fkOrigin f = sOrigin (fixed_source ''log'' (head_at 5 [2])) \<and>
       fkPrevSigned f = rCosigned (the (Get (store_at 5 [1]) ''log'')) \<and>
       fkNextSigned f = hSigned (head_at 5 [2]))"
  by (rule split_view_recorded)
    (simp_all add: IsForked_def Get_def store_at_def empty_store_def fixed_source_def head_at_def)

theorem accusation_has_grounds_witness:
  "\<exists>pr. Get (store_at 5 [1]) ''log'' = Some pr \<and> hSize (head_at 5 [2]) = rSize pr \<and>
     hHash (head_at 5 [2]) \<noteq> rHash pr"
proof -
  have "IsForked (fst (Process plain_witness (fixed_source ''log'' (head_at 5 [2])) clock0 (store_at 5 [1])))
      (sOrigin (fixed_source ''log'' (head_at 5 [2])))"
    by code_simp
  moreover have "\<not> IsForked (store_at 5 [1]) (sOrigin (fixed_source ''log'' (head_at 5 [2])))"
    by code_simp
  moreover have n: "sFetch (fixed_source ''log'' (head_at 5 [2])) e = Inr (head_at 5 [2])"
    "sVerifyConsistency (fixed_source ''log'' (head_at 5 [2])) e e' = None"
    "sOrigin (fixed_source ''log'' (head_at 5 [2])) = ''log''" for e e'
    by (simp_all add: fixed_source_def)
  ultimately show ?thesis
    using accusation_has_grounds[of "store_at 5 [1]" "fixed_source ''log'' (head_at 5 [2])" plain_witness clock0]
    unfolding n by auto
qed

definition two_rounds :: "pending list" where
  "two_rounds =
     [\<lparr>pdSource = fixed_source ''log'' (head_at 6 [2]), pdClock = clock0, pdForked = False, pdPrev = None\<rparr>,
      \<lparr>pdSource = fixed_source ''log'' (head_at 9 [3]), pdClock = clock0, pdForked = False, pdPrev = None\<rparr>]"

theorem heads_proved_under_interleaving_witness:
  "heads_taken ''log'' (concat (map (round_op plain_witness) two_rounds)) empty_store =
     [\<lparr>rOrigin = ''log'', rSize = 6, rHash = [2], rCosigned = [9, 1], rWitnessedAt = 1\<rparr>] \<and>
   Get (commit_ops (concat (map (round_op plain_witness) two_rounds)) empty_store) ''log'' =
     Some \<lparr>rOrigin = ''log'', rSize = 6, rHash = [2], rCosigned = [9, 1], rWitnessedAt = 1\<rparr>"
proof -
  have h: "heads_taken ''log'' (concat (map (round_op plain_witness) two_rounds)) empty_store =
     [\<lparr>rOrigin = ''log'', rSize = 6, rHash = [2], rCosigned = [9, 1], rWitnessedAt = 1\<rparr>]"
    by code_simp
  show ?thesis
    using heads_proved_under_interleaving[of plain_witness two_rounds "''log''" empty_store] unfolding h by simp
qed

end
