(* ===== verification/Audit_Store.thy ===== *)
theory Audit_Store
  imports Head_Store
begin

text \<open>
  The audit half of \<open>internal/store\<close>: decisions per epoch with their retention cap, progress
  marks, coverage queries, published history and its watermark, observed heads of other
  logs, and verified log entries (\<open>store.go\<close>, \<open>backoff.go\<close>, \<open>construction.go\<close>).

  A bucket scanned by origin prefix is, per origin, the list of its records in key order:
  epochs are written zero-padded, so for epochs from 0 up key order is numeric order.
  Origins are assumed free of the key separator.  The zero \<open>time.Time\<close> is \<open>None\<close>, a
  \<open>float64\<close> is its bit pattern, and times and durations are nanoseconds.
\<close>

record Audit =
  auOrigin :: string
  auEpoch :: int
  auSampled :: bool
  auRate :: u64
  auBeaconRound :: u64
  auBeaconSig :: string
  auBeaconRandom :: string
  auStrategy :: string
  auVerified :: bool
  auAttempts :: int
  auRetryAfter :: "int option"
  auKind :: string
  auError :: string
  auDurationMS :: int
  auBytes :: int
  auDecidedAt :: int

record History =
  hiOrigin :: string
  hiFrom :: int
  hiTo :: int
  hiEpochs :: int
  hiGaps :: "string list"
  hiVerifiedAt :: int
  hiEverFrom :: int
  hiFirstSeen :: "int option"

record AppHead =
  ahOrigin :: string
  ahTreeID :: u64
  ahApplication :: u64
  ahName :: string
  ahLogSize :: u64
  ahRevision :: u64
  ahRootHash :: string
  ahSigningKeyHash :: string
  ahFirstSeen :: int
  ahLastSeen :: int
  ahConflicts :: "string list"

text \<open>\<open>auditN\<close> is the in-memory count, lost when the store is reopened.\<close>

record AuditStore =
  audits :: "string \<Rightarrow> (int \<times> Audit) list"
  auditN :: "string \<rightharpoonup> int"
  progress :: "string \<rightharpoonup> int"
  histories :: "string \<rightharpoonup> History"
  apps :: "string \<times> u64 \<rightharpoonup> AppHead"
  entries :: "string \<Rightarrow> (u64 \<times> bytes) list"

definition empty_audits :: AuditStore where
  "empty_audits = \<lparr>audits = (\<lambda>_. []), auditN = Map.empty, progress = Map.empty,
     histories = Map.empty, apps = Map.empty, entries = (\<lambda>_. [])\<rparr>"

definition reopen :: "AuditStore \<Rightarrow> AuditStore" where
  "reopen s = s\<lparr>auditN := Map.empty\<rparr>"

text \<open>\<open>Put\<close> in a bucket kept in key order.\<close>

fun kput :: "'k::linorder \<Rightarrow> 'v \<Rightarrow> ('k \<times> 'v) list \<Rightarrow> ('k \<times> 'v) list" where
  "kput k v [] = [(k, v)]"
| "kput k v ((l, w) # b) =
     (if k < l then (k, v) # (l, w) # b else if k = l then (k, v) # b else (l, w) # kput k v b)"

definition in_order :: "('k::linorder \<times> 'v) list \<Rightarrow> bool" where
  "in_order b \<longleftrightarrow> sorted_wrt (<) (map fst b)"

lemma kput_keys: "fst ` set (kput k v b) = insert k (fst ` set b)"
  by (induction k v b rule: kput.induct) auto

lemma kput_set: "x \<in> set (kput k v b) \<Longrightarrow> x = (k, v) \<or> x \<in> set b"
  by (induction k v b rule: kput.induct) (auto split: if_splits)

lemma kput_in_order [intro]: "in_order b \<Longrightarrow> in_order (kput k v b)"
  unfolding in_order_def
proof (induction k v b rule: kput.induct)
  case (2 k v l w b)
  then show ?case using kput_keys[of k v b] by auto
qed simp

lemma in_order_distinct: "in_order b \<Longrightarrow> distinct (map fst b)"
  by (auto simp: in_order_def strict_sorted_iff)

lemma map_of_kput: "in_order b \<Longrightarrow> map_of (kput k v b) = (map_of b)(k \<mapsto> v)"
proof (induction k v b rule: kput.induct)
  case (2 k v l w b)
  have "map_of b k = None" if "k < l"
    using 2(2) that by (force simp: in_order_def map_of_eq_None_iff)
  then show ?case using 2 by (auto simp: in_order_def fun_eq_iff)
qed simp

lemma kput_length: "in_order b \<Longrightarrow> length (kput k v b) = length b + (if map_of b k = None then 1 else 0)"
proof (induction k v b rule: kput.induct)
  case (2 k v l w b)
  have "map_of b k = None" if "k < l"
    using 2(2) that by (force simp: in_order_def map_of_eq_None_iff)
  then show ?case using 2 by (auto simp: in_order_def)
qed simp

lemma in_order_drop [intro]: "in_order b \<Longrightarrow> in_order (drop n b)"
  by (simp add: in_order_def drop_map[symmetric] sorted_wrt_drop)

lemma in_order_take [intro]: "in_order b \<Longrightarrow> in_order (take n b)"
  by (simp add: in_order_def take_map[symmetric] sorted_wrt_take)

subsection \<open>Decisions\<close>

definition maxAuditsPerOrigin :: int where "maxAuditsPerOrigin = 750000"

definition setAuditCount :: "string \<Rightarrow> int \<Rightarrow> AuditStore \<Rightarrow> AuditStore" where
  "setAuditCount origin n s = s\<lparr>auditN := (auditN s)(origin \<mapsto> n)\<rparr>"

definition auditCount :: "string \<Rightarrow> AuditStore \<Rightarrow> int \<times> AuditStore" where
  "auditCount origin s =
     (let n = (case auditN s origin of Some n \<Rightarrow> n | None \<Rightarrow> int (length (audits s origin)));
          n = n + 1
      in (n, setAuditCount origin n s))"

definition trimAudits :: "string \<Rightarrow> int \<Rightarrow> AuditStore \<Rightarrow> AuditStore" where
  "trimAudits origin excess s =
     s\<lparr>audits := (audits s)(origin := drop (nat excess) (audits s origin))\<rparr>"

definition RecordAudit :: "Audit \<Rightarrow> AuditStore \<Rightarrow> AuditStore" where
  "RecordAudit a s =
     (let grew = (map_of (audits s (auOrigin a)) (auEpoch a) = None);
          s1 = s\<lparr>audits := (audits s)(auOrigin a := kput (auEpoch a) a (audits s (auOrigin a)))\<rparr>
      in if \<not> grew then s1
         else (let (n, s2) = auditCount (auOrigin a) s1
               in if n \<le> maxAuditsPerOrigin then s2
                  else setAuditCount (auOrigin a) maxAuditsPerOrigin
                         (trimAudits (auOrigin a) (n - maxAuditsPerOrigin) s2)))"

text \<open>
  \<open>AuditPopulation\<close> takes the mutex to look, lets it go, scans in a transaction of its own, and
  takes it again to store what it counted: three sections, between which others run.
\<close>

definition population_lookup :: "string \<Rightarrow> AuditStore \<Rightarrow> int option" where
  "population_lookup origin s = auditN s origin"

definition population_scan :: "string \<Rightarrow> AuditStore \<Rightarrow> int" where
  "population_scan origin s = int (length (audits s origin))"

definition AuditPopulation :: "string \<Rightarrow> AuditStore \<Rightarrow> int \<times> AuditStore" where
  "AuditPopulation origin s =
     (case population_lookup origin s of
        Some n \<Rightarrow> (n, s)
      | None \<Rightarrow> (let n = population_scan origin s in (n, setAuditCount origin n s)))"

definition Audits :: "string \<Rightarrow> int \<Rightarrow> AuditStore \<Rightarrow> Audit list" where
  "Audits origin limit s = take (nat limit) (rev (map snd (audits s origin)))"

definition GetAudit :: "string \<Rightarrow> int \<Rightarrow> AuditStore \<Rightarrow> Audit option" where
  "GetAudit origin epoch s = map_of (audits s origin) epoch"

definition RecordConstructionAudit :: "int \<Rightarrow> string \<Rightarrow> int \<Rightarrow> AuditStore \<Rightarrow> AuditStore" where
  "RecordConstructionAudit now origin index s =
     RecordAudit \<lparr>auOrigin = origin, auEpoch = index, auSampled = True, auRate = 0x3FF0000000000000,
       auBeaconRound = 0, auBeaconSig = [], auBeaconRandom = [], auStrategy = ''entries'',
       auVerified = True, auAttempts = 1, auRetryAfter = None, auKind = [], auError = [],
       auDurationMS = 0, auBytes = 0, auDecidedAt = now\<rparr> s"

subsection \<open>Progress marks\<close>

definition AuditProgress :: "string \<Rightarrow> AuditStore \<Rightarrow> int" where
  "AuditProgress origin s = (case progress s origin of None \<Rightarrow> 0 | Some n \<Rightarrow> n)"

definition SetAuditProgress :: "string \<Rightarrow> int \<Rightarrow> AuditStore \<Rightarrow> AuditStore" where
  "SetAuditProgress origin epoch s = s\<lparr>progress := (progress s)(origin \<mapsto> epoch)\<rparr>"

definition backProgressKey :: "string \<Rightarrow> string" where
  "backProgressKey origin = ''back|'' @ origin"

definition BackAuditProgress :: "string \<Rightarrow> AuditStore \<Rightarrow> int \<times> bool" where
  "BackAuditProgress origin s =
     (case progress s (backProgressKey origin) of None \<Rightarrow> (0, False) | Some n \<Rightarrow> (n, True))"

definition SetBackAuditProgress :: "string \<Rightarrow> int \<Rightarrow> AuditStore \<Rightarrow> AuditStore" where
  "SetBackAuditProgress origin epoch s = s\<lparr>progress := (progress s)(backProgressKey origin \<mapsto> epoch)\<rparr>"

subsection \<open>When a failed epoch may be tried again\<close>

definition MaxFetchAttempts :: int where "MaxFetchAttempts = 3"
definition hour :: int where "hour = 3600 * 10^9"
definition retryBackoffBase :: int where "retryBackoffBase = hour"
definition retryBackoffMax :: int where "retryBackoffMax = 7 * 24 * hour"

function backoff_loop :: "int \<Rightarrow> int \<Rightarrow> int \<Rightarrow> int" where
  "backoff_loop i attempts d =
     (if i < attempts \<and> d < retryBackoffMax then backoff_loop (i + 1) attempts (d * 2) else d)"
  by pat_completeness auto
termination by (relation "measure (\<lambda>(i, attempts, d). nat (attempts - i))") auto

declare backoff_loop.simps [simp del]

definition RetryAt :: "int \<Rightarrow> int \<Rightarrow> int option" where
  "RetryAt now attempts =
     (if attempts < MaxFetchAttempts then None
      else (let d = backoff_loop MaxFetchAttempts attempts retryBackoffBase;
                d = (if d > retryBackoffMax then retryBackoffMax else d)
            in Some (now + d)))"

subsection \<open>Coverage\<close>

definition in_range :: "int \<Rightarrow> int \<Rightarrow> Audit \<Rightarrow> bool" where
  "in_range from till a \<longleftrightarrow> \<not> (auEpoch a < from \<or> auEpoch a > till)"

definition AuditCoverage :: "string \<Rightarrow> int \<Rightarrow> int \<Rightarrow> AuditStore \<Rightarrow> int \<times> int" where
  "AuditCoverage origin from till s =
     foldl (\<lambda>(settled, verified) (_, a).
        if \<not> in_range from till a then (settled, verified)
        else (settled + 1, if auVerified a then verified + 1 else verified)) (0, 0) (audits s origin)"

fun holes_scan :: "int \<Rightarrow> int \<Rightarrow> int \<Rightarrow> int \<Rightarrow> (int \<times> Audit) list \<Rightarrow> int list \<Rightarrow> int list" where
  "holes_scan from till now limit [] out = out"
| "holes_scan from till now limit ((k, a) # b) out =
     (if int (length out) \<ge> limit then out
      else if auVerified a \<or> auEpoch a < from \<or> auEpoch a > till then holes_scan from till now limit b out
      else if auAttempts a < MaxFetchAttempts then holes_scan from till now limit b out
      else if (case auRetryAfter a of None \<Rightarrow> False | Some t \<Rightarrow> now < t) then holes_scan from till now limit b out
      else holes_scan from till now limit b (out @ [auEpoch a]))"

definition HolesDue :: "string \<Rightarrow> int \<Rightarrow> int \<Rightarrow> int \<Rightarrow> int \<Rightarrow> AuditStore \<Rightarrow> int list" where
  "HolesDue origin from till now limit s = holes_scan from till now limit (audits s origin) []"

text \<open>
  \<open>longestRun\<close> ranges over a Go map, in any order: the epochs are listed in the order the
  loop meets them.
\<close>

function run_end :: "int list \<Rightarrow> int \<Rightarrow> int" where
  "run_end verified e = (if e + 1 \<in> set verified then run_end verified (e + 1) else e)"
  by pat_completeness auto
termination
proof (relation "measure (\<lambda>(v, e). card {x \<in> set v. e < x})")
  fix v :: "int list" and e
  assume "e + 1 \<in> set v"
  then have "{x \<in> set v. e + 1 < x} \<subset> {x \<in> set v. e < x}" by force
  then show "((v, e + 1), (v, e)) \<in> measure (\<lambda>(v, e). card {x \<in> set v. e < x})"
    by (simp add: psubset_card_mono)
qed simp

declare run_end.simps [simp del]

fun run_step :: "int list \<Rightarrow> int \<Rightarrow> int \<times> int \<times> int \<Rightarrow> int \<times> int \<times> int" where
  "run_step verified epoch (lo, hi, run) =
     (if epoch - 1 \<in> set verified then (lo, hi, run)
      else (let end' = run_end verified epoch; n = end' - epoch + 1
            in if n > run then (epoch, end', n) else (lo, hi, run)))"

definition longestRun :: "int list \<Rightarrow> int \<times> int \<times> int" where
  "longestRun verified = fold (run_step verified) verified (0, 0, 0)"

record Coverage =
  cvSettled :: int
  cvVerified :: int
  cvHoles :: int
  cvFrom :: int
  cvTo :: int
  cvRun :: int

definition verified_epochs :: "string \<Rightarrow> int \<Rightarrow> int \<Rightarrow> AuditStore \<Rightarrow> int list" where
  "verified_epochs origin from till s =
     map (auEpoch \<circ> snd) (filter (\<lambda>(_, a). in_range from till a \<and> auVerified a) (audits s origin))"

definition CoverageOf :: "string \<Rightarrow> int \<Rightarrow> int \<Rightarrow> AuditStore \<Rightarrow> Coverage" where
  "CoverageOf origin from till s =
     (let (settled, verified, holes) = foldl (\<lambda>(st, vf, ho) (_, a).
            if \<not> in_range from till a then (st, vf, ho)
            else if auVerified a then (st + 1, vf + 1, ho) else (st + 1, vf, ho + 1))
            (0, 0, 0) (audits s origin);
          (lo, hi, run) = longestRun (verified_epochs origin from till s)
      in \<lparr>cvSettled = settled, cvVerified = verified, cvHoles = holes, cvFrom = lo, cvTo = hi, cvRun = run\<rparr>)"

definition VerifiedRegion :: "string \<Rightarrow> int \<Rightarrow> int \<Rightarrow> AuditStore \<Rightarrow> int \<times> int \<times> int \<times> int" where
  "VerifiedRegion origin from till s =
     (let holes = foldl (\<lambda>ho (_, a). if in_range from till a \<and> \<not> auVerified a then ho + 1 else ho)
                    0 (audits s origin);
          (lo, hi, run) = longestRun (verified_epochs origin from till s)
      in (lo, hi, run, holes))"

fun first_scan :: "int \<Rightarrow> int \<Rightarrow> (int \<times> Audit) list \<Rightarrow> int option" where
  "first_scan till want [] = (if want \<le> till then Some want else None)"
| "first_scan till want ((k, a) # b) =
     (if auEpoch a > till then (if want \<le> till then Some want else None)
      else if auEpoch a > want then Some want
      else if auEpoch a = want then (if \<not> auVerified a then Some want else first_scan till (want + 1) b)
      else first_scan till want b)"

definition FirstUnverified :: "string \<Rightarrow> int \<Rightarrow> int \<Rightarrow> AuditStore \<Rightarrow> int option" where
  "FirstUnverified origin from till s =
     (if from > till then None
      else first_scan till from (dropWhile (\<lambda>(k, a). k < from) (audits s origin)))"

definition ConstructionAuditedThrough :: "string \<Rightarrow> AuditStore \<Rightarrow> int \<times> bool" where
  "ConstructionAuditedThrough origin s =
     (let verified = map (auEpoch \<circ> snd) (filter (\<lambda>(_, a). auVerified a) (audits s origin))
      in if 0 \<notin> set verified then (0, False) else (run_end verified 0, True))"

subsection \<open>Published history\<close>

definition Expired :: "History \<Rightarrow> int" where
  "Expired h = (if hiEverFrom h = 0 \<or> hiFrom h \<le> hiEverFrom h then 0 else hiFrom h - hiEverFrom h)"

definition RecordHistory :: "History \<Rightarrow> AuditStore \<Rightarrow> AuditStore" where
  "RecordHistory h s =
     (let h = h\<lparr>hiEverFrom := hiFrom h, hiFirstSeen := Some (hiVerifiedAt h)\<rparr>;
          h = (case histories s (hiOrigin h) of
                 None \<Rightarrow> h
               | Some prev \<Rightarrow>
                   (let low = (if hiEverFrom prev = 0 then hiFrom prev else hiEverFrom prev);
                        h = (if low > 0 \<and> low < hiEverFrom h then h\<lparr>hiEverFrom := low\<rparr> else h)
                    in case hiFirstSeen prev of None \<Rightarrow> h | Some t \<Rightarrow> h\<lparr>hiFirstSeen := Some t\<rparr>))
      in s\<lparr>histories := (histories s)(hiOrigin h \<mapsto> h)\<rparr>)"

definition LowerHistoryWatermark :: "string \<Rightarrow> int \<Rightarrow> AuditStore \<Rightarrow> bool \<times> AuditStore" where
  "LowerHistoryWatermark origin everFrom s =
     (if everFrom \<le> 0 then (False, s)
      else case histories s origin of
             None \<Rightarrow> (False, s)
           | Some h \<Rightarrow>
               (let cur = (if hiEverFrom h = 0 then hiFrom h else hiEverFrom h)
                in if cur \<le> everFrom then (False, s)
                   else (True, s\<lparr>histories := (histories s)(origin \<mapsto> h\<lparr>hiEverFrom := everFrom\<rparr>)\<rparr>)))"

subsection \<open>Heads of other logs\<close>

definition maxAppHeadConflicts :: nat where "maxAppHeadConflicts = 32"

text \<open>\<open>%d\<close> of an unsigned number.\<close>

function dec :: "nat \<Rightarrow> string" where
  "dec n = (if n < 10 then [char_of (48 + n)] else dec (n div 10) @ [char_of (48 + n mod 10)])"
  by pat_completeness auto
termination by (relation "measure id") auto

declare dec.simps [simp del]

definition app_contradictions :: "AppHead \<Rightarrow> AppHead \<Rightarrow> string list" where
  "app_contradictions cur obs =
     (if ahRevision obs = ahRevision cur \<and> ahRootHash obs \<noteq> ahRootHash cur
      then [''revision '' @ dec (unat (ahRevision obs)) @ '' seen with two roots: '' @ ahRootHash cur @
            '' then '' @ ahRootHash obs] else []) @
     (if ahLogSize obs < ahLogSize cur
      then [''log size went backwards: '' @ dec (unat (ahLogSize cur)) @ '' then '' @ dec (unat (ahLogSize obs))]
      else []) @
     (if ahSigningKeyHash cur \<noteq> [] \<and> ahSigningKeyHash obs \<noteq> ahSigningKeyHash cur
      then [''signing key changed: '' @ ahSigningKeyHash cur @ '' then '' @ ahSigningKeyHash obs] else [])"

definition ObserveAppHead :: "int \<Rightarrow> AppHead \<Rightarrow> AuditStore \<Rightarrow> AppHead \<times> string list \<times> AuditStore" where
  "ObserveAppHead now obs s =
     (let key = (ahOrigin obs, ahTreeID obs);
          cur = (case apps s key of Some c \<Rightarrow> c | None \<Rightarrow> obs\<lparr>ahFirstSeen := now\<rparr>);
          found = app_contradictions cur obs;
          newConflicts = filter (\<lambda>c. c \<notin> set (ahConflicts cur)) found;
          cur = cur\<lparr>ahConflicts := take maxAppHeadConflicts (ahConflicts cur @ newConflicts)\<rparr>;
          cur = (if ahLogSize obs \<ge> ahLogSize cur
                 then cur\<lparr>ahLogSize := ahLogSize obs, ahRevision := ahRevision obs,
                          ahRootHash := ahRootHash obs, ahSigningKeyHash := ahSigningKeyHash obs\<rparr>
                 else cur);
          cur = cur\<lparr>ahName := ahName obs, ahApplication := ahApplication obs, ahTreeID := ahTreeID obs,
                    ahOrigin := ahOrigin obs, ahLastSeen := now\<rparr>
      in (cur, newConflicts, s\<lparr>apps := (apps s)(key \<mapsto> cur)\<rparr>))"

subsection \<open>Verified log entries\<close>

definition maxLogEntriesPerOrigin :: nat where "maxLogEntriesPerOrigin = 65536"

definition LogEntries :: "string \<Rightarrow> AuditStore \<Rightarrow> u64 \<rightharpoonup> bytes" where
  "LogEntries origin s = map_of (filter (\<lambda>(_, v). length v = 32) (entries s origin))"

definition PutLogEntries :: "string \<Rightarrow> (u64 \<times> bytes) list \<Rightarrow> AuditStore \<Rightarrow> AuditStore" where
  "PutLogEntries origin es s =
     (if es = [] then s
      else s\<lparr>entries := (entries s)(origin :=
             take maxLogEntriesPerOrigin (fold (\<lambda>(i, h). kput i h) es (entries s origin)))\<rparr>)"

subsection \<open>The record of decisions\<close>

definition audits_ok :: "AuditStore \<Rightarrow> bool" where
  "audits_ok s \<longleftrightarrow> (\<forall>q. in_order (audits s q) \<and> (\<forall>x\<in>set (audits s q). auEpoch (snd x) = fst x \<and> auOrigin (snd x) = q))"

lemma audits_RecordAudit:
  "audits (RecordAudit a s) q =
     (if q = auOrigin a then
        (let b = kput (auEpoch a) a (audits s q); n = fst (auditCount q (s\<lparr>audits := (audits s)(q := b)\<rparr>))
         in if map_of (audits s q) (auEpoch a) = None \<and> n > maxAuditsPerOrigin
            then drop (nat (n - maxAuditsPerOrigin)) b else b)
      else audits s q)"
  by (simp add: RecordAudit_def auditCount_def trimAudits_def setAuditCount_def Let_def)

lemma RecordAudit_ok: "audits_ok s \<Longrightarrow> audits_ok (RecordAudit a s)"
  unfolding audits_ok_def audits_RecordAudit Let_def
  by (auto dest!: in_set_dropD kput_set)

lemma empty_audits_ok [simp]: "audits_ok empty_audits"
  by (simp add: audits_ok_def empty_audits_def in_order_def)

text \<open>
  Recordings, the sections of any number of population queries (each by its number) and
  reopenings, in any order.  \<open>RecordAudit\<close> is one step: bolt serialises transactions, and a
  section that falls between its count and its commit acts as if it came before it or, when the
  recording stores a count of its own afterwards, as a query that failed.  \<open>slips\<close> counts, per
  origin, the new epochs recorded while a query stood between its scan and its store.
\<close>

record Counting =
  ctStore :: AuditStore
  ctPending :: "(nat \<times> string \<times> int option) list"
  slips :: "string \<Rightarrow> nat"

datatype audit_op = Record_op Audit | Lookup_op nat string | Scan_op nat | Store_op nat | Fail_op nat | Reopen_op

definition forget :: "nat \<Rightarrow> (nat \<times> 'a) list \<Rightarrow> (nat \<times> 'a) list" where
  "forget i ps = filter (\<lambda>x. fst x \<noteq> i) ps"

definition scanned :: "string \<Rightarrow> Counting \<Rightarrow> bool" where
  "scanned q c \<longleftrightarrow> list_ex (\<lambda>(i, o', m). o' = q \<and> m \<noteq> None) (ctPending c)"

fun audit_step :: "audit_op \<Rightarrow> Counting \<Rightarrow> Counting" where
  "audit_step (Record_op a) c =
     c\<lparr>ctStore := RecordAudit a (ctStore c),
       slips := (if map_of (audits (ctStore c) (auOrigin a)) (auEpoch a) = None \<and> scanned (auOrigin a) c
                 then (slips c)(auOrigin a := slips c (auOrigin a) + 1) else slips c)\<rparr>"
| "audit_step (Lookup_op i q) c =
     (if population_lookup q (ctStore c) = None then c\<lparr>ctPending := (i, q, None) # forget i (ctPending c)\<rparr> else c)"
| "audit_step (Scan_op i) c =
     (case map_of (ctPending c) i of
        Some (q, None) \<Rightarrow> c\<lparr>ctPending := (i, q, Some (population_scan q (ctStore c))) # forget i (ctPending c)\<rparr>
      | _ \<Rightarrow> c)"
| "audit_step (Store_op i) c =
     (case map_of (ctPending c) i of
        Some (q, Some n) \<Rightarrow> c\<lparr>ctStore := setAuditCount q n (ctStore c), ctPending := forget i (ctPending c)\<rparr>
      | _ \<Rightarrow> c)"
| "audit_step (Fail_op i) c = c\<lparr>ctPending := forget i (ctPending c)\<rparr>"
| "audit_step Reopen_op c = c\<lparr>ctStore := reopen (ctStore c), ctPending := []\<rparr>"

definition opened :: Counting where
  "opened = \<lparr>ctStore = empty_audits, ctPending = [], slips = (\<lambda>_. 0)\<rparr>"

text \<open>A count may be low by the slips, and when there are none it is right or one too high.\<close>

definition counts :: "nat \<Rightarrow> nat \<Rightarrow> int \<Rightarrow> bool" where
  "counts len slip n \<longleftrightarrow> int len \<le> n + int slip \<and> (slip = 0 \<longrightarrow> n \<le> int len + 1)"

definition count_ok :: "Counting \<Rightarrow> bool" where
  "count_ok c \<longleftrightarrow> audits_ok (ctStore c) \<and>
     (\<forall>q. int (length (audits (ctStore c) q)) \<le> maxAuditsPerOrigin + int (slips c q) \<and>
        (\<forall>n. auditN (ctStore c) q = Some n \<longrightarrow> counts (length (audits (ctStore c) q)) (slips c q) n) \<and>
        (\<forall>i n. (i, q, Some n) \<in> set (ctPending c) \<longrightarrow>
           int (length (audits (ctStore c) q)) \<le> n + int (slips c q) \<and>
           (slips c q = 0 \<longrightarrow> n = int (length (audits (ctStore c) q)))))"

text \<open>What a recording does to the length and the count of its origin.\<close>

lemma RecordAudit_grows:
  fixes a :: Audit and s :: AuditStore
  assumes "audits_ok s" "map_of (audits s (auOrigin a)) (auEpoch a) = None"
  defines "L \<equiv> int (length (audits s (auOrigin a)))"
    and "n \<equiv> (case auditN s (auOrigin a) of Some n \<Rightarrow> n | None \<Rightarrow> int (length (audits s (auOrigin a))) + 1) + 1"
  shows "auditN (RecordAudit a s) (auOrigin a) = Some (min n maxAuditsPerOrigin)"
    and "int (length (audits (RecordAudit a s) (auOrigin a))) = L + 1 - min (max 0 (n - maxAuditsPerOrigin)) (L + 1)"
    and "q \<noteq> auOrigin a \<Longrightarrow> audits (RecordAudit a s) q = audits s q \<and> auditN (RecordAudit a s) q = auditN s q"
proof -
  let ?b = "kput (auEpoch a) a (audits s (auOrigin a))"
  have len: "length ?b = length (audits s (auOrigin a)) + 1"
    using assms(1,2) kput_length[of "audits s (auOrigin a)" "auEpoch a" a] by (auto simp: audits_ok_def)
  have r: "RecordAudit a s =
      (if n \<le> maxAuditsPerOrigin then s\<lparr>audits := (audits s)(auOrigin a := ?b), auditN := (auditN s)(auOrigin a \<mapsto> n)\<rparr>
       else s\<lparr>audits := (audits s)(auOrigin a := drop (nat (n - maxAuditsPerOrigin)) ?b),
              auditN := (auditN s)(auOrigin a \<mapsto> maxAuditsPerOrigin)\<rparr>)"
    using assms(2) len by (cases "auditN s (auOrigin a)")
      (simp_all add: RecordAudit_def auditCount_def setAuditCount_def trimAudits_def n_def Let_def)
  show "auditN (RecordAudit a s) (auOrigin a) = Some (min n maxAuditsPerOrigin)" by (simp add: r)
  show "int (length (audits (RecordAudit a s) (auOrigin a))) = L + 1 - min (max 0 (n - maxAuditsPerOrigin)) (L + 1)"
    by (auto simp: r L_def len)
  show "q \<noteq> auOrigin a \<Longrightarrow> audits (RecordAudit a s) q = audits s q \<and> auditN (RecordAudit a s) q = auditN s q"
    by (simp add: r)
qed

lemma RecordAudit_replaces:
  assumes "audits_ok s" "map_of (audits s (auOrigin a)) (auEpoch a) \<noteq> None"
  shows "length (audits (RecordAudit a s) q) = length (audits s q)" "auditN (RecordAudit a s) = auditN s"
proof -
  have "length (kput (auEpoch a) a (audits s (auOrigin a))) = length (audits s (auOrigin a))"
    using assms kput_length[of "audits s (auOrigin a)" "auEpoch a" a] by (auto simp: audits_ok_def)
  then show "length (audits (RecordAudit a s) q) = length (audits s q)" "auditN (RecordAudit a s) = auditN s"
    using assms(2) by (auto simp: RecordAudit_def)
qed

lemma in_forget [simp]: "x \<in> set (forget i ps) \<longleftrightarrow> x \<in> set ps \<and> fst x \<noteq> i"
  by (auto simp: forget_def)

lemma maps_pending: "map_of ps i = Some x \<Longrightarrow> (i, x) \<in> set ps"
  by (rule map_of_SomeD)

lemma trimmed_length:
  fixes L n cap :: int and s :: nat
  assumes "0 \<le> L" "0 \<le> cap" "L \<le> n - 1 + int s" "s = 0 \<Longrightarrow> n \<le> L + 2"
    and "L' = L + 1 - min (max 0 (n - cap)) (L + 1)"
  shows "L' \<le> L + 1" "L' \<le> cap + int s" "L' \<le> min n cap + int s" "s = 0 \<Longrightarrow> min n cap \<le> L' + 1"
  using assms by linarith+

lemma record_step_ok:
  assumes "count_ok c"
  shows "count_ok (audit_step (Record_op a) c)"
proof -
  let ?s = "ctStore c" and ?o = "auOrigin a" and ?c = "audit_step (Record_op a) c"
  have ok: "audits_ok ?s" using assms by (simp add: count_ok_def)
  have ok': "audits_ok (ctStore ?c)" using RecordAudit_ok[OF ok] by simp
  show ?thesis
  proof (cases "map_of (audits ?s ?o) (auEpoch a) = None")
    case False
    then have e: "slips ?c = slips c" "ctPending ?c = ctPending c" "ctStore ?c = RecordAudit a ?s" by auto
    show ?thesis using assms ok' unfolding count_ok_def e RecordAudit_replaces[OF ok False] by blast
  next
    case True
    note g = RecordAudit_grows[OF ok True]
    have inv: "int (length (audits ?s q)) \<le> maxAuditsPerOrigin + int (slips c q)"
      "auditN ?s q = Some n \<Longrightarrow> counts (length (audits ?s q)) (slips c q) n"
      "(i, q, Some n) \<in> set (ctPending c) \<Longrightarrow> int (length (audits ?s q)) \<le> n + int (slips c q)"
      "(i, q, Some n) \<in> set (ctPending c) \<Longrightarrow> slips c q = 0 \<Longrightarrow> n = int (length (audits ?s q))" for q n i
      using assms by (auto simp: count_ok_def)
    have pend: "scanned ?o c" if "(i, ?o, Some n) \<in> set (ctPending c)" for i n
      using that by (auto simp: scanned_def list_ex_iff)
    have "int (length (audits (ctStore ?c) q)) \<le> maxAuditsPerOrigin + int (slips ?c q) \<and>
        (\<forall>n. auditN (ctStore ?c) q = Some n \<longrightarrow> counts (length (audits (ctStore ?c) q)) (slips ?c q) n) \<and>
        (\<forall>i n. (i, q, Some n) \<in> set (ctPending ?c) \<longrightarrow>
           int (length (audits (ctStore ?c) q)) \<le> n + int (slips ?c q) \<and>
           (slips ?c q = 0 \<longrightarrow> n = int (length (audits (ctStore ?c) q))))" for q
    proof (cases "q = ?o")
      case False
      then show ?thesis using g(3)[OF False] inv by auto
    next
      case q: True
      define L where "L = int (length (audits ?s ?o))"
      define n where "n = (case auditN ?s ?o of Some n \<Rightarrow> n | None \<Rightarrow> L + 1) + 1"
      define L' where "L' = int (length (audits (RecordAudit a ?s) ?o))"
      have L': "L' = L + 1 - min (max 0 (n - maxAuditsPerOrigin)) (L + 1)"
        and N': "auditN (RecordAudit a ?s) ?o = Some (min n maxAuditsPerOrigin)"
        unfolding L'_def n_def L_def by (rule g(2), rule g(1))
      have n1: "L \<le> n - 1 + int (slips c ?o)" "slips c ?o = 0 \<Longrightarrow> n \<le> L + 2"
        using inv(2)[of ?o] by (auto simp: n_def counts_def L_def split: option.splits)
      have nn: "0 \<le> L" "0 \<le> maxAuditsPerOrigin" by (simp_all add: L_def maxAuditsPerOrigin_def)
      note bounds = trimmed_length[OF nn n1 L']
      show ?thesis
      proof (cases "scanned ?o c")
        case True
        then have s: "slips ?c ?o = slips c ?o + 1" using \<open>map_of _ _ = None\<close> by simp
        have "L' \<le> m + int (slips c ?o + 1)" if "(i, ?o, Some m) \<in> set (ctPending c)" for i m
          using inv(3)[OF that] bounds(1) by (simp add: L_def)
        then show ?thesis using bounds(2,3) N' unfolding q s by (simp add: L'_def counts_def)
      next
        case False
        then have "slips ?c ?o = slips c ?o" "\<And>i m. (i, ?o, Some m) \<notin> set (ctPending c)" using pend by auto
        then show ?thesis using bounds(2-4) N' unfolding q by (simp add: L'_def counts_def)
      qed
    qed
    then show ?thesis using ok' unfolding count_ok_def by blast
  qed
qed

lemma audit_step_ok: "count_ok c \<Longrightarrow> count_ok (audit_step op c)"
proof (cases op)
  case (Record_op a)
  then show "count_ok c \<Longrightarrow> ?thesis" using record_step_ok by blast
next
  case (Store_op i)
  assume ok: "count_ok c"
  show ?thesis
  proof (cases "\<exists>q n. map_of (ctPending c) i = Some (q, Some n)")
    case True
    then obtain q n where m: "map_of (ctPending c) i = Some (q, Some n)" by blast
    have e: "audits (ctStore (audit_step op c)) = audits (ctStore c)" "slips (audit_step op c) = slips c"
      "auditN (ctStore (audit_step op c)) = (auditN (ctStore c))(q \<mapsto> n)"
      "set (ctPending (audit_step op c)) \<subseteq> set (ctPending c)"
      using m by (auto simp: Store_op setAuditCount_def)
    have "counts (length (audits (ctStore c) q)) (slips c q) n"
      using ok maps_pending[OF m] by (force simp: count_ok_def counts_def)
    then have "\<forall>q' n'. ((auditN (ctStore c))(q \<mapsto> n)) q' = Some n' \<longrightarrow> counts (length (audits (ctStore c) q')) (slips c q') n'"
      using ok by (simp add: count_ok_def)
    then show ?thesis using ok e(4) unfolding count_ok_def audits_ok_def e(1-3) by blast
  next
    case False
    then have "audit_step op c = c" unfolding Store_op by (auto split: option.splits)
    then show ?thesis using ok by simp
  qed
next
  case (Scan_op i)
  assume ok: "count_ok c"
  show ?thesis
  proof (cases "\<exists>q. map_of (ctPending c) i = Some (q, None)")
    case True
    then show ?thesis using ok unfolding Scan_op by (auto simp: count_ok_def population_scan_def)
  next
    case False
    then have "audit_step op c = c" unfolding Scan_op by (auto split: option.splits)
    then show ?thesis using ok by simp
  qed
qed (auto simp: count_ok_def reopen_def audits_ok_def)

lemma opened_ok: "count_ok opened"
  by (simp add: count_ok_def opened_def empty_audits_def audits_ok_def in_order_def maxAuditsPerOrigin_def)

lemma audit_steps_ok: "count_ok c \<Longrightarrow> count_ok (fold audit_step ops c)"
  by (induction ops arbitrary: c) (auto simp: audit_step_ok simp del: audit_step.simps)

text \<open>
C32. After any sequence of recordings, reopenings of the store and population queries,
  whose look at the count, scan and store of it are separate steps with others in between,
  the records of a log are in key order; there are at most 750,000 of them plus the
  recordings of an epoch with no record that were made while some query stood between its
  scan and its store; the reported population is low by at most that number, and when that
  number is 0 it is the true one or one more.
\<close>

theorem retention_bounded:
  fixes ops :: "audit_op list" and q :: string
  defines "c \<equiv> fold audit_step ops opened"
  defines "len \<equiv> int (length (audits (ctStore c) q))"
  shows "audits_ok (ctStore c) \<and> len \<le> maxAuditsPerOrigin + int (slips c q) \<and>
    len \<le> fst (AuditPopulation q (ctStore c)) + int (slips c q) \<and>
    (slips c q = 0 \<longrightarrow> fst (AuditPopulation q (ctStore c)) - len \<in> {0, 1})"
proof -
  have "count_ok c" unfolding c_def by (rule audit_steps_ok[OF opened_ok])
  then show ?thesis
    by (force simp: count_ok_def counts_def len_def AuditPopulation_def population_lookup_def population_scan_def Let_def
        split: option.splits)
qed

text \<open>The count taken from a scan includes the key that was just put, and then adds it again.\<close>

theorem first_count_after_reopen_is_high:
  assumes "audits_ok s" "map_of (audits s (auOrigin a)) (auEpoch a) = None"
    and "int (length (audits s (auOrigin a))) + 2 \<le> maxAuditsPerOrigin"
  shows "fst (AuditPopulation (auOrigin a) (RecordAudit a (reopen s))) =
    int (length (audits (RecordAudit a (reopen s)) (auOrigin a))) + 1"
proof -
  have "length (kput (auEpoch a) a (audits s (auOrigin a))) = length (audits s (auOrigin a)) + 1"
    using assms(1,2) kput_length[of "audits s (auOrigin a)" "auEpoch a" a] by (auto simp: audits_ok_def)
  then show ?thesis using assms(2,3)
    by (simp add: RecordAudit_def auditCount_def setAuditCount_def AuditPopulation_def population_lookup_def population_scan_def reopen_def Let_def)
qed

subsection \<open>What is left to audit\<close>

definition is_verified :: "string \<Rightarrow> AuditStore \<Rightarrow> int \<Rightarrow> bool" where
  "is_verified q s e \<longleftrightarrow> (case GetAudit q e s of None \<Rightarrow> False | Some a \<Rightarrow> auVerified a)"

lemma first_scan_spec:
  assumes "in_order b" "\<forall>x\<in>set b. auEpoch (snd x) = fst x" "\<forall>x\<in>set b. want \<le> fst x"
  shows "case first_scan till want b of
      None \<Rightarrow> \<forall>e. want \<le> e \<and> e \<le> till \<longrightarrow> (\<exists>a. map_of b e = Some a \<and> auVerified a)
    | Some f \<Rightarrow> want \<le> f \<and> f \<le> till \<and> \<not> (\<exists>a. map_of b f = Some a \<and> auVerified a) \<and>
        (\<forall>e. want \<le> e \<and> e < f \<longrightarrow> (\<exists>a. map_of b e = Some a \<and> auVerified a))"
  using assms
proof (induction till want b rule: first_scan.induct)
  case (2 till want k a b)
  have k: "auEpoch a = k" "want \<le> k" using 2(4,5) by auto
  have b: "in_order b" "\<forall>x\<in>set b. auEpoch (snd x) = fst x" "\<forall>x\<in>set b. k + 1 \<le> fst x"
    using 2(3,4) by (auto simp: in_order_def)
  have none: "map_of b e = None" if "e \<le> k" for e
    using b(3) that by (force simp: map_of_eq_None_iff)
  consider "till < k" | "k \<le> till" "want < k" | "k \<le> till" "k = want" "\<not> auVerified a"
    | "k \<le> till" "k = want" "auVerified a" using k by linarith
  then show ?case
  proof cases
    case 4
    then have ih: "case first_scan till (want + 1) b of
      None \<Rightarrow> \<forall>e. want + 1 \<le> e \<and> e \<le> till \<longrightarrow> (\<exists>a. map_of b e = Some a \<and> auVerified a)
    | Some f \<Rightarrow> want + 1 \<le> f \<and> f \<le> till \<and> \<not> (\<exists>a. map_of b f = Some a \<and> auVerified a) \<and>
        (\<forall>e. want + 1 \<le> e \<and> e < f \<longrightarrow> (\<exists>a. map_of b e = Some a \<and> auVerified a))"
      using 2(1) k b by simp
    then show ?thesis using 4 k(1) by (auto split: option.splits)
  qed (use k none in \<open>auto split: option.splits\<close>)
qed auto

lemma map_of_dropWhile_less:
  "in_order b \<Longrightarrow> from \<le> e \<Longrightarrow> map_of (dropWhile (\<lambda>(k, a). k < from) b) e = map_of b e"
  by (induction b) (auto simp: in_order_def)

lemma set_dropWhile_less: "in_order b \<Longrightarrow> x \<in> set (dropWhile (\<lambda>(k, a). k < from) b) \<Longrightarrow> from \<le> fst x"
  by (induction b) (auto simp: in_order_def split: if_splits)

lemma in_order_dropWhile: "in_order b \<Longrightarrow> in_order (dropWhile P b)"
  by (induction b) (auto simp: in_order_def)

lemma FirstUnverified_spec:
  assumes "audits_ok s"
  shows "case FirstUnverified q from till s of
      None \<Rightarrow> \<forall>e. from \<le> e \<and> e \<le> till \<longrightarrow> is_verified q s e
    | Some f \<Rightarrow> from \<le> f \<and> f \<le> till \<and> \<not> is_verified q s f \<and> (\<forall>e. from \<le> e \<and> e < f \<longrightarrow> is_verified q s e)"
proof (cases "from \<le> till")
  case True
  let ?b = "dropWhile (\<lambda>(k, a). k < from) (audits s q)"
  have ord: "in_order (audits s q)" using assms by (simp add: audits_ok_def)
  have v: "is_verified q s e \<longleftrightarrow> (\<exists>a. map_of ?b e = Some a \<and> auVerified a)" if "from \<le> e" for e
    using map_of_dropWhile_less[OF ord that] by (auto simp: is_verified_def GetAudit_def split: option.splits)
  have "case first_scan till from ?b of
      None \<Rightarrow> \<forall>e. from \<le> e \<and> e \<le> till \<longrightarrow> (\<exists>a. map_of ?b e = Some a \<and> auVerified a)
    | Some f \<Rightarrow> from \<le> f \<and> f \<le> till \<and> \<not> (\<exists>a. map_of ?b f = Some a \<and> auVerified a) \<and>
        (\<forall>e. from \<le> e \<and> e < f \<longrightarrow> (\<exists>a. map_of ?b e = Some a \<and> auVerified a))"
  proof (rule first_scan_spec)
    show "\<forall>x\<in>set ?b. auEpoch (snd x) = fst x"
      using assms set_dropWhileD unfolding audits_ok_def by fast
  qed (use set_dropWhile_less[OF ord] in_order_dropWhile[OF ord] in blast)+
  then show ?thesis using True v by (auto simp: FirstUnverified_def split: option.splits)
qed (auto simp: FirstUnverified_def)

text \<open>
C33. FirstUnverified returns the lowest epoch of the range without a verified record, and
  nothing only if all are verified.
\<close>

theorem FirstUnverified_correct:
  assumes "audits_ok s"
  shows "case FirstUnverified q from till s of
      None \<Rightarrow> \<forall>e. from \<le> e \<and> e \<le> till \<longrightarrow> is_verified q s e
    | Some f \<Rightarrow> from \<le> f \<and> f \<le> till \<and> \<not> is_verified q s f \<and> (\<forall>e. from \<le> e \<and> e < f \<longrightarrow> is_verified q s e)"
  using assms by (rule FirstUnverified_spec)

text \<open>Runs of verified epochs.\<close>

lemma run_end_spec:
  "e \<le> run_end v e \<and> {e<..run_end v e} \<subseteq> set v \<and> run_end v e + 1 \<notin> set v"
proof (induction v e rule: run_end.induct)
  case (1 v e)
  show ?case
  proof (cases "e + 1 \<in> set v")
    case True
    have "{e<..run_end v e} = insert (e + 1) {e + 1<..run_end v (e + 1)}"
      using 1[OF True] True by (subst run_end.simps) auto
    then show ?thesis using 1[OF True] True
      by (subst (1 3) run_end.simps) (auto simp: run_end.simps[of v e])
  qed (simp add: run_end.simps)
qed

fun run_ok :: "int list \<Rightarrow> int set \<Rightarrow> int \<times> int \<times> int \<Rightarrow> bool" where
  "run_ok v past (lo, hi, run) \<longleftrightarrow>
     0 \<le> run \<and> (0 < run \<longrightarrow> run = hi - lo + 1 \<and> {lo..hi} \<subseteq> set v) \<and>
     (\<forall>e\<in>past. e - 1 \<notin> set v \<longrightarrow> run_end v e - e + 1 \<le> run)"

lemma run_step_ok:
  assumes "run_ok v past (lo, hi, run)" "e \<in> set v"
  shows "run_ok v (insert e past) (run_step v e (lo, hi, run))"
proof -
  have e1: "e \<le> run_end v e" "{e<..run_end v e} \<subseteq> set v" using run_end_spec[of e v] by simp_all
  then have "{e..run_end v e} = insert e {e<..run_end v e}" by auto
  then have e: "{e..run_end v e} \<subseteq> set v" using e1(2) assms(2) by simp
  consider "e - 1 \<in> set v" | "e - 1 \<notin> set v" "run_end v e - e + 1 > run" | "e - 1 \<notin> set v" "run_end v e - e + 1 \<le> run"
    by linarith
  then show ?thesis
  proof cases
    case 2
    then have "run_step v e (lo, hi, run) = (e, run_end v e, run_end v e - e + 1)" by (simp add: Let_def)
    moreover have "\<forall>x\<in>past. x - 1 \<notin> set v \<longrightarrow> run_end v x - x + 1 \<le> run_end v e - e + 1"
      using assms(1) 2(2) by fastforce
    ultimately show ?thesis using e e1(1) by simp
  qed (use assms(1) in \<open>simp_all add: Let_def\<close>)
qed

lemma longestRun_ok:
  "set todo \<subseteq> set v \<Longrightarrow> run_ok v past r \<Longrightarrow> run_ok v (set todo \<union> past) (fold (run_step v) todo r)"
proof (induction todo arbitrary: past r)
  case (Cons e todo)
  obtain lo hi run where r: "r = (lo, hi, run)" by (cases r)
  have "run_ok v (insert e past) (run_step v e r)"
    using run_step_ok[of v past lo hi run e] Cons(2,3) by (simp only: r) simp
  from Cons(1)[OF _ this] Cons(2) show ?case by simp
qed simp

lemma block_start:
  assumes "finite S" "a \<in> S"
  shows "\<exists>b\<le>a. {b..a} \<subseteq> S \<and> b - 1 \<notin> (S :: int set)"
  using assms
proof (induction "card {x \<in> S. x < a}" arbitrary: a rule: less_induct)
  case less
  show ?case
  proof (cases "a - 1 \<in> S")
    case True
    have "{x \<in> S. x < a - 1} \<subset> {x \<in> S. x < a}" using True by force
    then have "card {x \<in> S. x < a - 1} < card {x \<in> S. x < a}"
      using less(2) by (intro psubset_card_mono) auto
    then obtain b where b: "b \<le> a - 1" "{b..a - 1} \<subseteq> S" "b - 1 \<notin> S" using less(1,2) True by blast
    have "{b..a} = insert a {b..a - 1}" using b(1) by auto
    then show ?thesis using b less(3) by (intro exI[of _ b]) auto
  next
    case False
    then show ?thesis using less(3) by (intro exI[of _ a]) auto
  qed
qed

lemma run_end_reaches: "c \<le> b \<Longrightarrow> {c..b} \<subseteq> set v \<Longrightarrow> b \<le> run_end v c"
proof (rule ccontr)
  assume a: "c \<le> b" "{c..b} \<subseteq> set v" "\<not> b \<le> run_end v c"
  then have "run_end v c + 1 \<in> {c..b}" using run_end_spec[of c v] by simp
  then show False using a(2) run_end_spec[of c v] by blast
qed

theorem longestRun_longest:
  "case longestRun vs of (lo, hi, run) \<Rightarrow>
     (run = 0 \<longleftrightarrow> vs = []) \<and> (vs \<noteq> [] \<longrightarrow> run = hi - lo + 1 \<and> {lo..hi} \<subseteq> set vs) \<and>
     (\<forall>a b. a \<le> b \<and> {a..b} \<subseteq> set vs \<longrightarrow> b - a + 1 \<le> run)"
proof -
  obtain lo hi run where r: "longestRun vs = (lo, hi, run)" by (cases "longestRun vs")
  have "run_ok vs (set vs \<union> {}) (longestRun vs)"
    unfolding longestRun_def by (rule longestRun_ok) auto
  then have ok: "0 \<le> run" "0 < run \<Longrightarrow> run = hi - lo + 1 \<and> {lo..hi} \<subseteq> set vs"
    "\<And>e. e \<in> set vs \<Longrightarrow> e - 1 \<notin> set vs \<Longrightarrow> run_end vs e - e + 1 \<le> run"
    by (auto simp: r)
  have best: "b - a + 1 \<le> run" if ab: "a \<le> b" "{a..b} \<subseteq> set vs" for a b
  proof -
    have "a \<in> set vs" using ab by auto
    then obtain c where c: "c \<le> a" "{c..a} \<subseteq> set vs" "c - 1 \<notin> set vs"
      using block_start[of "set vs" a] by auto
    have "{c..b} = {c..a} \<union> {a..b}" using c(1) ab(1) by auto
    then have "b \<le> run_end vs c" using c ab by (intro run_end_reaches) auto
    moreover have "run_end vs c - c + 1 \<le> run" using ok(3)[of c] c by auto
    ultimately show ?thesis using c(1) by simp
  qed
  have "vs \<noteq> [] \<longrightarrow> 0 < run"
  proof
    assume "vs \<noteq> []"
    then have "{hd vs..hd vs} \<subseteq> set vs" by simp
    then show "0 < run" using best[of "hd vs" "hd vs"] by simp
  qed
  moreover have "vs = [] \<longrightarrow> run = 0" using r by (auto simp: longestRun_def)
  ultimately have "run = 0 \<longleftrightarrow> vs = []" "vs \<noteq> [] \<longrightarrow> run = hi - lo + 1 \<and> {lo..hi} \<subseteq> set vs"
    using ok(1,2) by auto
  then show ?thesis using best by (simp add: r)
qed

text \<open>The backoff in closed form: an hour, doubled per further attempt, at most a week.\<close>

lemma backoff_loop_closed:
  "0 < d \<Longrightarrow> d \<le> 2 * retryBackoffMax \<Longrightarrow>
   min (backoff_loop i attempts d) retryBackoffMax = min (d * 2 ^ nat (attempts - i)) retryBackoffMax"
proof (induction i attempts d rule: backoff_loop.induct)
  case (1 i attempts d)
  show ?case
  proof (cases "i < attempts \<and> d < retryBackoffMax")
    case True
    then have "nat (attempts - i) = Suc (nat (attempts - (i + 1)))" by linarith
    then show ?thesis using 1 True by (subst backoff_loop.simps) (simp add: mult.assoc)
  next
    case False
    have "retryBackoffMax \<le> d * 2 ^ nat (attempts - i)" if "retryBackoffMax \<le> d"
      using that 1(2) mult_left_mono[of 1 "2 ^ nat (attempts - i)" d] by (simp add: order_trans)
    then show ?thesis using False by (subst backoff_loop.simps) (auto simp: min_def not_less)
  qed
qed

theorem RetryAt_doubles_to_a_week:
  "RetryAt now attempts =
     (if attempts < 3 then None else Some (now + min (hour * 2 ^ nat (attempts - 3)) (168 * hour)))"
  using backoff_loop_closed[of hour 3 attempts]
  by (simp add: RetryAt_def MaxFetchAttempts_def retryBackoffBase_def retryBackoffMax_def hour_def min_def
      split: if_splits)

text \<open>Holes.\<close>

definition is_due :: "int \<Rightarrow> int \<Rightarrow> int \<Rightarrow> Audit \<Rightarrow> bool" where
  "is_due from till now a \<longleftrightarrow> in_range from till a \<and> \<not> auVerified a \<and> auAttempts a \<ge> MaxFetchAttempts \<and>
     (case auRetryAfter a of None \<Rightarrow> True | Some t \<Rightarrow> t \<le> now)"

lemma holes_scan_Cons:
  "holes_scan from till now limit ((k, a) # b) out =
     (if int (length out) \<ge> limit then out
      else holes_scan from till now limit b (if is_due from till now a then out @ [auEpoch a] else out))"
  by (auto simp: is_due_def in_range_def split: option.splits)

lemma holes_scan_eq:
  "holes_scan from till now limit b out =
   out @ take (nat limit - length out) (map (auEpoch \<circ> snd) (filter (is_due from till now \<circ> snd) b))"
proof (induction b arbitrary: out)
  case (Cons x b)
  obtain k a where x: "x = (k, a)" by (cases x)
  show ?case
  proof (cases "int (length out) \<ge> limit")
    case False
    then have n: "nat limit - length out = Suc (nat limit - length (out @ [auEpoch a]))" by simp
    show ?thesis using False Cons[of out] Cons[of "out @ [auEpoch a]"] n
      by (simp add: x holes_scan_Cons del: holes_scan.simps)
  qed (simp add: x)
qed simp

theorem HolesDue_exact:
  "HolesDue q from till now limit s =
     take (nat limit) (map (auEpoch \<circ> snd) (filter (is_due from till now \<circ> snd) (audits s q)))"
  by (simp add: HolesDue_def holes_scan_eq)

text \<open>In a list in key order, the first \<open>m\<close> with a property are those with fewer than \<open>m\<close> before them.\<close>

lemma in_take_filter:
  "in_order xs \<Longrightarrow> (e, a) \<in> set xs \<Longrightarrow> P a \<Longrightarrow>
    e \<in> set (take m (map fst (filter (P \<circ> snd) xs))) \<longleftrightarrow> length (filter (\<lambda>(k, b). k < e \<and> P b) xs) < m"
proof (induction xs arbitrary: m)
  case (Cons x xs)
  obtain k b where x: "x = (k, b)" by (cases x)
  have later: "\<And>y. y \<in> set xs \<Longrightarrow> k < fst y" and ord: "in_order xs" using Cons.prems(1) by (auto simp: in_order_def x)
  show ?case
  proof (cases "k = e")
    case True
    then have "filter (\<lambda>(k', b'). k' < e \<and> P b') xs = []" using later by (fastforce simp: filter_empty_conv)
    moreover have "b = a" using Cons.prems(2) later True by (fastforce simp: x)
    ultimately show ?thesis using Cons.prems(3) True by (cases m) (simp_all add: x)
  next
    case False
    then have e: "(e, a) \<in> set xs" "k < e" using Cons.prems(2) later by (auto simp: x)
    show ?thesis using Cons.IH[OF ord e(1) Cons.prems(3)] e(2) False by (cases m) (auto simp: x)
  qed
qed simp

text \<open>
C34. An epoch of the range left unverified after at least three attempts, with its retry
  time from RetryAt, is offered by HolesDue exactly when that time has come, an hour doubled
  per further attempt and never more than a week, and fewer due epochs than the limit asked
  for lie below it.
\<close>

theorem hole_comes_due:
  assumes "audits_ok s" "GetAudit q e s = Some a" "from \<le> e" "e \<le> till" "\<not> auVerified a"
    and "auAttempts a \<ge> 3" "auRetryAfter a = RetryAt t (auAttempts a)"
  shows "(e \<in> set (HolesDue q from till now limit s) \<longleftrightarrow>
      t + min (hour * 2 ^ nat (auAttempts a - 3)) (168 * hour) \<le> now \<and>
      int (length (filter (\<lambda>(k, b). k < e \<and> is_due from till now b) (audits s q))) < limit)"
proof -
  have ea: "(e, a) \<in> set (audits s q)" using assms(2) by (simp add: GetAudit_def map_of_SomeD)
  have ord: "in_order (audits s q)" and keys: "\<And>x. x \<in> set (audits s q) \<Longrightarrow> auEpoch (snd x) = fst x"
    using assms(1) by (auto simp: audits_ok_def)
  have h: "HolesDue q from till now limit s =
      take (nat limit) (map fst (filter (is_due from till now \<circ> snd) (audits s q)))"
    unfolding HolesDue_exact using keys by (auto intro!: arg_cong[of _ _ "take (nat limit)"] map_cong)
  have due: "is_due from till now a \<longleftrightarrow> t + min (hour * 2 ^ nat (auAttempts a - 3)) (168 * hour) \<le> now"
    using assms(3-7) keys[OF ea] by (simp add: is_due_def in_range_def MaxFetchAttempts_def RetryAt_doubles_to_a_week)
  show ?thesis
  proof (cases "is_due from till now a")
    case True
    then show ?thesis using in_take_filter[OF ord ea, of "is_due from till now" "nat limit"] True due
      by (simp add: h zless_nat_conj) linarith
  next
    case False
    have "(k, b) \<in> set (audits s q) \<Longrightarrow> k = e \<Longrightarrow> b = a" for k b
      using ea in_order_distinct[OF ord] by (metis map_of_is_SomeI option.inject)
    then have "e \<notin> fst ` set (filter (is_due from till now \<circ> snd) (audits s q))" using False by auto
    then have "e \<notin> set (HolesDue q from till now limit s)" unfolding h by (auto dest!: in_set_takeD)
    then show ?thesis using due False by blast
  qed
qed

subsection \<open>The watermark\<close>

datatype history_op = Published History | Floor string int

fun history_step :: "history_op \<Rightarrow> AuditStore \<Rightarrow> AuditStore" where
  "history_step (Published h) s = RecordHistory h s"
| "history_step (Floor q n) s = snd (LowerHistoryWatermark q n s)"

definition low_mark :: "History \<Rightarrow> int" where
  "low_mark h = (if hiEverFrom h = 0 then hiFrom h else hiEverFrom h)"

lemma RecordHistory_mark:
  assumes "histories s (hiOrigin g) = Some h" "0 < low_mark h" "0 < hiFrom g"
  shows "\<exists>h'. histories (RecordHistory g s) (hiOrigin g) = Some h' \<and> low_mark h' = min (hiFrom g) (low_mark h)"
proof -
  have "histories (RecordHistory g s) (hiOrigin g) = Some (g
      \<lparr>hiEverFrom := (if low_mark h < hiFrom g then low_mark h else hiFrom g),
       hiFirstSeen := (case hiFirstSeen h of None \<Rightarrow> Some (hiVerifiedAt g) | Some t \<Rightarrow> Some t)\<rparr>)"
    using assms(1,2) unfolding RecordHistory_def low_mark_def[symmetric] Let_def
    by (simp split: option.split)
  then show ?thesis using assms(2,3) by (simp add: low_mark_def[of "g\<lparr>hiEverFrom := _, hiFirstSeen := _\<rparr>"])
qed

lemma RecordHistory_other: "q \<noteq> hiOrigin g \<Longrightarrow> histories (RecordHistory g s) q = histories s q"
  by (simp add: RecordHistory_def Let_def split: option.splits)

lemma LowerHistoryWatermark_mark:
  assumes "histories s q = Some h" "0 < low_mark h"
  shows "\<exists>h'. histories (snd (LowerHistoryWatermark p n s)) q = Some h' \<and> 0 < low_mark h' \<and> low_mark h' \<le> low_mark h"
proof (cases "n \<le> 0 \<or> p \<noteq> q \<or> low_mark h \<le> n")
  case True
  then have "histories (snd (LowerHistoryWatermark p n s)) q = Some h"
    using assms by (auto simp: LowerHistoryWatermark_def low_mark_def[symmetric] Let_def split: option.splits)
  then show ?thesis using assms(2) by simp
next
  case False
  then have "histories (snd (LowerHistoryWatermark p n s)) q = Some (h\<lparr>hiEverFrom := n\<rparr>)"
    using assms by (simp add: LowerHistoryWatermark_def low_mark_def[symmetric] Let_def)
  then show ?thesis using False by (simp add: low_mark_def)
qed

lemma history_step_mark:
  assumes "histories s q = Some h" "0 < low_mark h"
    and "\<And>h'. op = Published h' \<Longrightarrow> hiOrigin h' = q \<Longrightarrow> 0 < hiFrom h'"
  shows "\<exists>h'. histories (history_step op s) q = Some h' \<and> 0 < low_mark h' \<and> low_mark h' \<le> low_mark h"
proof (cases op)
  case (Published g)
  show ?thesis
  proof (cases "hiOrigin g = q")
    case True
    then obtain h' where "histories (RecordHistory g s) q = Some h'" "low_mark h' = min (hiFrom g) (low_mark h)"
      using RecordHistory_mark[of s g h] assms Published by auto
    then show ?thesis using Published assms(2) assms(3)[OF Published True] by simp
  next
    case False
    then show ?thesis using RecordHistory_other[of q g s] assms(1,2) Published by auto
  qed
next
  case (Floor p n)
  then show ?thesis using LowerHistoryWatermark_mark[OF assms(1,2)] by simp
qed

text \<open>
C35. Once a positive watermark of published history is stored, and as long as every window
  published for the log from then on begins above epoch 0, windows and floors only lower it,
  and the number of expired epochs reported is at least the distance from that watermark to
  the current window. A window that begins at epoch 0 is outside the claim: the mark it
  leaves is forgotten by the next one.
\<close>

theorem watermark_never_rises:
  assumes "histories s q = Some h" "0 < low_mark h"
    and "\<forall>h'. Published h' \<in> set ops \<and> hiOrigin h' = q \<longrightarrow> 0 < hiFrom h'"
  shows "\<exists>h'. histories (fold history_step ops s) q = Some h' \<and> 0 < low_mark h' \<and> low_mark h' \<le> low_mark h \<and>
    hiFrom h' - low_mark h \<le> Expired h'"
proof -
  have "\<exists>h'. histories (fold history_step ops s) q = Some h' \<and> 0 < low_mark h' \<and> low_mark h' \<le> low_mark h"
    using assms
  proof (induction ops arbitrary: s h)
    case (Cons op ops)
    obtain h1 where h1: "histories (history_step op s) q = Some h1" "0 < low_mark h1" "low_mark h1 \<le> low_mark h"
      using history_step_mark[OF Cons(2,3), of op] Cons(4) by auto
    show ?case using Cons(1)[OF h1(1,2)] Cons(4) h1(3) by fastforce
  qed auto
  then show ?thesis by (force simp: low_mark_def Expired_def split: if_splits)
qed

text \<open>
  A log whose history begins at epoch 0 has no watermark: zero means not recorded, and the
  next window forgets that the earlier epochs were offered.
\<close>

theorem watermark_of_epoch_zero_forgotten:
  assumes "hiOrigin h0 = q" "hiOrigin h1 = q" "hiFrom h0 = 0" "histories s q = None"
  shows "\<exists>h. histories (RecordHistory h1 (RecordHistory h0 s)) q = Some h \<and> Expired h = 0"
  using assms by (auto simp: RecordHistory_def Expired_def Let_def)

subsection \<open>Contradictions of observed heads\<close>

lemma ObserveAppHead_conflicts:
  assumes "apps s (ahOrigin obs, ahTreeID obs) = Some cur" "ObserveAppHead now obs s = (out, new, t)"
  shows "new = filter (\<lambda>c. c \<notin> set (ahConflicts cur)) (app_contradictions cur obs)"
    "ahConflicts out = take 32 (ahConflicts cur @ new)"
    "apps t (ahOrigin obs, ahTreeID obs) = Some out"
  using assms by (auto simp: ObserveAppHead_def maxAppHeadConflicts_def Let_def)

theorem conflicts_first_and_bounded:
  assumes "apps s (ahOrigin obs, ahTreeID obs) = Some cur" "length (ahConflicts cur) \<le> 32"
    and "ObserveAppHead now obs s = (out, new, t)"
  shows "length (ahConflicts out) \<le> 32 \<and> take (length (ahConflicts cur)) (ahConflicts out) = ahConflicts cur \<and>
    set new = set (app_contradictions cur obs) - set (ahConflicts cur) \<and>
    (length (ahConflicts cur) + length new \<le> 32 \<longrightarrow> set (app_contradictions cur obs) \<subseteq> set (ahConflicts out))"
  using ObserveAppHead_conflicts[OF assms(1,3)] assms(2) by auto

text \<open>Once the list is full a contradiction that is not on it is new at every scan.\<close>

theorem full_conflicts_reported_again:
  assumes "apps s (ahOrigin obs, ahTreeID obs) = Some cur" "length (ahConflicts cur) = 32"
    and "ahLogSize obs < ahLogSize cur" "c \<in> set (app_contradictions cur obs)" "c \<notin> set (ahConflicts cur)"
    and "ObserveAppHead now obs s = (out, new, t)"
  shows "c \<in> set new \<and> c \<in> set (fst (snd (ObserveAppHead later obs t)))"
proof -
  have e: "new = filter (\<lambda>c. c \<notin> set (ahConflicts cur)) (app_contradictions cur obs)"
    "ahConflicts out = ahConflicts cur" "apps t (ahOrigin obs, ahTreeID obs) = Some out"
    using ObserveAppHead_conflicts[OF assms(1,6)] assms(2) by simp_all
  have same: "ahLogSize out = ahLogSize cur" "ahRevision out = ahRevision cur" "ahRootHash out = ahRootHash cur"
    "ahSigningKeyHash out = ahSigningKeyHash cur"
    using assms(1,3,6) by (auto simp: ObserveAppHead_def Let_def)
  obtain o2 n2 t2 where o2: "ObserveAppHead later obs t = (o2, n2, t2)" by (cases "ObserveAppHead later obs t")
  have "n2 = filter (\<lambda>c. c \<notin> set (ahConflicts cur)) (app_contradictions out obs)"
    using ObserveAppHead_conflicts(1)[OF e(3) o2] e(2) by simp
  moreover have "app_contradictions out obs = app_contradictions cur obs"
    by (simp add: app_contradictions_def same)
  ultimately show ?thesis using e(1) assms(4,5) o2 by simp
qed

subsection \<open>Entries kept\<close>

lemma fold_kput:
  "in_order b \<Longrightarrow> distinct (map fst es) \<Longrightarrow>
   in_order (fold (\<lambda>(i, h). kput i h) es b) \<and> map_of (fold (\<lambda>(i, h). kput i h) es b) = map_of b ++ map_of es"
proof (induction es arbitrary: b)
  case (Cons x es)
  obtain i h where x: "x = (i, h)" by (cases x)
  have "map_of es i = None" using Cons(3) by (auto simp: x map_of_eq_None_iff)
  then have "(map_of b)(i \<mapsto> h) ++ map_of es = map_of b ++ (map_of es)(i \<mapsto> h)"
    by (auto simp: map_add_def fun_eq_iff split: option.splits)
  then show ?case using Cons(1)[of "kput i h b"] Cons(2,3)
    by (simp add: x map_of_kput kput_in_order fun_upd_def[symmetric])
qed simp

lemma map_of_take: "in_order b \<Longrightarrow> map_of (take n b) i = (if i \<in> fst ` set (take n b) then map_of b i else None)"
proof (induction b arbitrary: n)
  case (Cons x b)
  then show ?case by (cases n; cases x) (auto simp: in_order_def)
qed simp

theorem PutLogEntries_keeps_lowest:
  assumes "in_order (entries s q)" "distinct (map fst es)"
  shows "in_order (entries (PutLogEntries q es s) q) \<and>
    (map_of (entries (PutLogEntries q es s) q) i = None \<or>
     map_of (entries (PutLogEntries q es s) q) i = (map_of (entries s q) ++ map_of es) i) \<and>
    ((map_of (entries s q) ++ map_of es) i \<noteq> None \<longrightarrow> map_of (entries (PutLogEntries q es s) q) i = None \<longrightarrow>
       length (entries (PutLogEntries q es s) q) = maxLogEntriesPerOrigin \<and>
       (\<forall>j\<in>fst ` set (entries (PutLogEntries q es s) q). j < i))"
proof (cases "es = []")
  case False
  define b where "b = fold (\<lambda>(i, h). kput i h) es (entries s q)"
  let ?n = "maxLogEntriesPerOrigin"
  have b: "in_order b" "map_of b = map_of (entries s q) ++ map_of es"
    using fold_kput[OF assms] by (simp_all add: b_def)
  have t: "entries (PutLogEntries q es s) q = take ?n b" using False by (simp add: PutLogEntries_def b_def)
  have lost: "length (take ?n b) = ?n \<and> (\<forall>j\<in>fst ` set (take ?n b). j < i)"
    if "map_of b i \<noteq> None" "i \<notin> fst ` set (take ?n b)"
  proof -
    have "i \<in> fst ` set b" using that(1) by (auto simp: map_of_eq_None_iff)
    then have "i \<in> set (map fst (drop ?n b))"
      using that(2) by (metis UnE append_take_drop_id image_Un list.set_map set_append)
    moreover have "sorted_wrt (<) (map fst (take ?n b) @ map fst (drop ?n b))"
      using b(1) unfolding in_order_def by (metis append_take_drop_id map_append)
    moreover have "drop ?n b \<noteq> []" using calculation(1) by auto
    ultimately show ?thesis by (auto simp: sorted_wrt_append)
  qed
  show ?thesis unfolding t using in_order_take[OF b(1)] map_of_take[OF b(1)] b(2) lost by auto
qed (use assms in \<open>auto simp: PutLogEntries_def\<close>)

subsection \<open>Concrete stores\<close>

definition audit_at :: "int \<Rightarrow> bool \<Rightarrow> Audit" where
  "audit_at e v = \<lparr>auOrigin = ''log'', auEpoch = e, auSampled = True, auRate = 0, auBeaconRound = 0,
     auBeaconSig = [], auBeaconRandom = [], auStrategy = ''live'', auVerified = v,
     auAttempts = (if v then 1 else 4), auRetryAfter = (if v then None else RetryAt 0 4), auKind = [],
     auError = [], auDurationMS = 0, auBytes = 0, auDecidedAt = 0\<rparr>"

definition audited :: AuditStore where
  "audited = ctStore (fold audit_step (map (\<lambda>(e, v). Record_op (audit_at e v))
     [(2, True), (0, True), (3, False), (1, True), (5, True), (6, False)]) opened)"

lemma audited_ok: "audits_ok audited"
  using audit_steps_ok[OF opened_ok] unfolding audited_def count_ok_def by blast

theorem retention_bounded_witness:
  "fst (AuditPopulation ''log'' audited) - int (length (audits audited ''log'')) \<in> {0, 1} \<and>
   length (audits audited ''log'') = 6"
proof -
  let ?ops = "map (\<lambda>(e, v). Record_op (audit_at e v)) [(2, True), (0, True), (3, False), (1, True), (5, True), (6, False)]"
  have "slips (fold audit_step ?ops opened) ''log'' = 0" by code_simp
  then have "fst (AuditPopulation ''log'' audited) - int (length (audits audited ''log'')) \<in> {0, 1}"
    using retention_bounded[of ?ops "''log''"] unfolding audited_def by blast
  moreover have "length (audits audited ''log'') = 6" by code_simp
  ultimately show ?thesis by blast
qed

text \<open>
  A slip: a recording falls between the scan and the store of a query that found no count, and
  the store then leaves the count one low.
\<close>

lemma population_query_slips:
  "map (\<lambda>c. (auditN (ctStore c) ''log'', length (audits (ctStore c) ''log'')))
     [fold audit_step [Lookup_op 0 ''log'', Scan_op 0, Record_op (audit_at 1 True), Store_op 0] opened] = [(Some 0, 1)]"
  by code_simp

theorem first_count_after_reopen_is_high_witness:
  "fst (AuditPopulation ''log'' (RecordAudit (audit_at 7 True) (reopen audited))) = 8"
proof -
  have "fst (AuditPopulation (auOrigin (audit_at 7 True)) (RecordAudit (audit_at 7 True) (reopen audited))) =
      int (length (audits (RecordAudit (audit_at 7 True) (reopen audited)) (auOrigin (audit_at 7 True)))) + 1"
    by (rule first_count_after_reopen_is_high[OF audited_ok]) code_simp+
  moreover have "length (audits (RecordAudit (audit_at 7 True) (reopen audited)) (auOrigin (audit_at 7 True))) = 7"
    by code_simp
  ultimately show ?thesis by (simp add: audit_at_def)
qed

theorem FirstUnverified_correct_witness:
  "FirstUnverified ''log'' 0 5 audited = Some 3 \<and> is_verified ''log'' audited 2 \<and> \<not> is_verified ''log'' audited 3"
proof -
  have e: "FirstUnverified ''log'' 0 5 audited = Some 3" by code_simp
  show ?thesis using FirstUnverified_correct[OF audited_ok, of 0 5 "''log''"] by (simp add: e)
qed

theorem longestRun_longest_witness:
  "case longestRun [7, 3, 1, 2, 8] of (lo, hi, run) \<Rightarrow> run = 3 \<and> (\<forall>a b. a \<le> b \<and> {a..b} \<subseteq> set [7, 3, 1, 2, 8] \<longrightarrow> b - a + 1 \<le> run)"
proof -
  have e: "longestRun [7, 3, 1, 2, 8] = (1, 3, 3)" by code_simp
  show ?thesis using longestRun_longest[of "[7, 3, 1, 2, 8]"] unfolding e by simp
qed

theorem hole_comes_due_witness:
  "3 \<in> set (HolesDue ''log'' 0 9 (2 * hour) 1 audited) \<and> 3 \<notin> set (HolesDue ''log'' 0 9 hour 1 audited) \<and>
   6 \<notin> set (HolesDue ''log'' 0 9 (2 * hour) 1 audited)"
proof -
  have g: "GetAudit ''log'' 3 audited = Some (audit_at 3 False)" "GetAudit ''log'' 6 audited = Some (audit_at 6 False)"
    by code_simp+
  have d: "(e \<in> set (HolesDue ''log'' 0 9 now 1 audited) \<longleftrightarrow>
      0 + min (hour * 2 ^ nat (auAttempts (audit_at e False) - 3)) (168 * hour) \<le> now \<and>
      int (length (filter (\<lambda>(k, b). k < e \<and> is_due 0 9 now b) (audits audited ''log''))) < 1)"
    if "GetAudit ''log'' e audited = Some (audit_at e False)" "0 \<le> e" "e \<le> 9" for e now
    using that by (intro hole_comes_due[OF audited_ok]) (simp_all add: audit_at_def)
  have "length (filter (\<lambda>(k, b). k < 3 \<and> is_due 0 9 (2 * hour) b) (audits audited ''log'')) = 0"
    "length (filter (\<lambda>(k, b). k < 6 \<and> is_due 0 9 (2 * hour) b) (audits audited ''log'')) \<noteq> 0"
    by code_simp+
  then show ?thesis using d[OF g(1)] d[OF g(2)] by (simp add: audit_at_def hour_def)
qed

definition window :: "int \<Rightarrow> History" where
  "window from = \<lparr>hiOrigin = ''log'', hiFrom = from, hiTo = 99, hiEpochs = 10, hiGaps = [], hiVerifiedAt = 1,
     hiEverFrom = 0, hiFirstSeen = None\<rparr>"

theorem watermark_never_rises_witness:
  "\<exists>h. histories (fold history_step [Published (window 9), Floor ''log'' 2, Published (window 20)]
      (RecordHistory (window 5) empty_audits)) ''log'' = Some h \<and> low_mark h \<le> 5"
proof -
  have "histories (RecordHistory (window 5) empty_audits) ''log'' = Some (window 5\<lparr>hiEverFrom := 5, hiFirstSeen := Some 1\<rparr>)"
    by (simp add: RecordHistory_def window_def empty_audits_def)
  then have "\<exists>h. histories (fold history_step [Published (window 9), Floor ''log'' 2, Published (window 20)]
      (RecordHistory (window 5) empty_audits)) ''log'' = Some h \<and> 0 < low_mark h \<and>
      low_mark h \<le> low_mark (window 5\<lparr>hiEverFrom := 5, hiFirstSeen := Some 1\<rparr>) \<and>
      hiFrom h - low_mark (window 5\<lparr>hiEverFrom := 5, hiFirstSeen := Some 1\<rparr>) \<le> Expired h"
    by (rule watermark_never_rises) (auto simp: low_mark_def window_def)
  then show ?thesis by (auto simp: low_mark_def window_def)
qed

theorem watermark_of_epoch_zero_forgotten_witness:
  "\<exists>h. histories (RecordHistory (window 50) (RecordHistory (window 0) empty_audits)) ''log'' = Some h \<and> Expired h = 0"
  by (rule watermark_of_epoch_zero_forgotten) (simp_all add: window_def empty_audits_def)

definition seen_head :: "u64 \<Rightarrow> string list \<Rightarrow> AppHead" where
  "seen_head n cs = \<lparr>ahOrigin = ''log'', ahTreeID = 1, ahApplication = 2, ahName = ''a'', ahLogSize = n,
     ahRevision = 4, ahRootHash = ''aa'', ahSigningKeyHash = [], ahFirstSeen = 0, ahLastSeen = 0, ahConflicts = cs\<rparr>"

definition full_list :: AuditStore where
  "full_list = empty_audits\<lparr>apps := [(''log'', 1) \<mapsto> seen_head 9 (replicate 32 ''x'')]\<rparr>"

lemma seen_facts:
  "app_contradictions (seen_head 9 cs) (seen_head 3 []) = [''log size went backwards: 9 then 3'']"
  "apps full_list (ahOrigin (seen_head 3 []), ahTreeID (seen_head 3 [])) = Some (seen_head 9 (replicate 32 ''x''))"
  "length (ahConflicts (seen_head 9 (replicate 32 ''x''))) = 32"
  "''log size went backwards: 9 then 3'' \<notin> set (ahConflicts (seen_head 9 (replicate 32 ''x'')))"
proof -
  have "dec 9 = ''9''" "dec 3 = ''3''" by code_simp+
  then show "app_contradictions (seen_head 9 cs) (seen_head 3 []) = [''log size went backwards: 9 then 3'']"
    by (simp add: app_contradictions_def seen_head_def)
qed (simp_all add: full_list_def seen_head_def)

theorem full_conflicts_reported_again_witness:
  "case ObserveAppHead 5 (seen_head 3 []) full_list of (out, new, t) \<Rightarrow>
     ''log size went backwards: 9 then 3'' \<in> set new \<and>
     ''log size went backwards: 9 then 3'' \<in> set (fst (snd (ObserveAppHead 6 (seen_head 3 []) t)))"
proof -
  have c: "''log size went backwards: 9 then 3'' \<in>
      set (app_contradictions (seen_head 9 (replicate 32 ''x'')) (seen_head 3 []))"
    unfolding seen_facts(1) by (rule list.set_intros(1))
  have l: "ahLogSize (seen_head 3 []) < ahLogSize (seen_head 9 (replicate 32 ''x''))"
    by (simp add: seen_head_def)
  show ?thesis
  proof (rule prod_cases3[of "ObserveAppHead 5 (seen_head 3 []) full_list"])
    fix out new t
    assume o: "ObserveAppHead 5 (seen_head 3 []) full_list = (out, new, t)"
    show ?thesis unfolding o prod.case
      by (rule full_conflicts_reported_again[OF seen_facts(2,3) l c seen_facts(4) o])
  qed
qed

theorem conflicts_first_and_bounded_witness:
  "\<exists>out new t. ObserveAppHead 5 (seen_head 3 []) (empty_audits\<lparr>apps := [(''log'', 1) \<mapsto> seen_head 9 [''x'']]\<rparr>) =
      (out, new, t) \<and> length (ahConflicts out) \<le> 32 \<and> take 1 (ahConflicts out) = [''x'']"
proof -
  let ?s = "empty_audits\<lparr>apps := [(''log'', 1) \<mapsto> seen_head 9 [''x'']]\<rparr>"
  obtain out new t where o: "ObserveAppHead 5 (seen_head 3 []) ?s = (out, new, t)"
    by (cases "ObserveAppHead 5 (seen_head 3 []) ?s")
  show ?thesis using conflicts_first_and_bounded[OF _ _ o, of "seen_head 9 [''x'']"] o by (auto simp: seen_head_def)
qed

theorem PutLogEntries_keeps_lowest_witness:
  "map_of (entries (PutLogEntries ''log'' [(7, [1]), (3, [2])] empty_audits) ''log'') 3 = Some [2]"
proof -
  have "in_order (entries empty_audits ''log'')" "distinct (map fst [(7::u64, [1::byte]), (3, [2])])"
    by (simp_all add: empty_audits_def in_order_def)
  note PutLogEntries_keeps_lowest[OF this, of 3]
  moreover have "(map_of (entries empty_audits ''log'') ++ map_of [(7::u64, [1::byte]), (3, [2])]) 3 = Some [2]"
    by (simp add: empty_audits_def)
  moreover have "length (entries (PutLogEntries ''log'' [(7, [1]), (3, [2])] empty_audits) ''log'') \<noteq> maxLogEntriesPerOrigin"
    by (simp add: PutLogEntries_def empty_audits_def maxLogEntriesPerOrigin_def)
  ultimately show ?thesis by (metis option.distinct(1))
qed

end
