(* ===== verification/Work_Queue.thy ===== *)
theory Work_Queue
  imports Audit_Store
begin

text \<open>
  The work queue, \<open>internal/work/work.go\<close>, and the store-backed source of
  \<open>cmd/kt-witness/worksource.go\<close>.  The queue is in memory; a Go map that is only looked up
  is a map, and \<open>leased\<close>, which is ranged over, is a list in the order the loop meets it.
  The nonce of a hand-out (from \<open>crypto/rand\<close>) and the clock readings are arguments.
  Each function here is one critical section.  \<open>Lease\<close> gives up the lock while it asks the
  source, so it is two sections, \<open>lease_begin\<close> and \<open>lease_answer\<close>; \<open>Lease\<close> runs them in turn.
  An epoch key prints as the pair it stands for, and epochs are unbounded integers.
\<close>

record Assignment =
  asID :: string
  asOrigin :: string
  asFrom :: int
  asTo :: int
  asNonce :: string
  asNotBefore :: "int option"
  asDeadline :: int
  asWorker :: string

record Result =
  rsAssignmentID :: string
  rsNonce :: string
  rsOrigin :: string
  rsEpoch :: int
  rsComputedPrev :: string
  rsComputedCurr :: string
  rsVerified :: bool
  rsWorker :: string
  rsDurationMS :: int
  rsErr :: string

record Queue =
  leased :: "(string \<times> Assignment) list"
  origins :: "string list"
  rotation :: nat
  quiet :: "string \<rightharpoonup> int"
  cursor :: "string \<rightharpoonup> int"
  retry :: "Assignment list"
  reported :: "string \<rightharpoonup> int list"
  attempts :: "string \<times> int \<rightharpoonup> int"
  deferred :: "string \<times> int \<rightharpoonup> int"
  perEpoch :: "string \<rightharpoonup> int"
  minLease :: int
  nextSeq :: nat

datatype work_error =
    ErrNoWork
  | ErrUnknownID
  | ErrBadNonce
  | ErrLeaseExpired
  | OutsideAssignment int string int int

definition minute :: int where "minute = 60 * 10^9"
definition maxAttempts :: int where "maxAttempts = 3"
definition retryBase :: int where "retryBase = minute"
definition giveUpFor :: int where "giveUpFor = 24 * hour"
definition quietFor :: int where "quietFor = 30 * 10^9"
definition maxProbes :: nat where "maxProbes = 16"

definition NewQueue :: "int \<Rightarrow> string list \<Rightarrow> Queue" where
  "NewQueue lease os = \<lparr>leased = [], origins = os, rotation = 0, quiet = Map.empty, cursor = Map.empty,
     retry = [], reported = Map.empty, attempts = Map.empty, deferred = Map.empty, perEpoch = Map.empty,
     minLease = (if lease \<le> 0 then 2 * minute else lease), nextSeq = 0\<rparr>"

abbreviation at0 :: "('k \<rightharpoonup> int) \<Rightarrow> 'k \<Rightarrow> int" where
  "at0 m k \<equiv> (case m k of None \<Rightarrow> 0 | Some v \<Rightarrow> v)"

subsection \<open>Leases and their length\<close>

definition leaseForLocked :: "Queue \<Rightarrow> string \<Rightarrow> int \<Rightarrow> int" where
  "leaseForLocked q origin n =
     (let per = at0 (perEpoch q) origin
      in if per \<le> 0 then minLease q
         else (let d = n * per * 4 in if d < minLease q then minLease q else d))"

definition observeLocked :: "string \<Rightarrow> int \<Rightarrow> Queue \<Rightarrow> Queue" where
  "observeLocked origin d q =
     (if d \<le> 0 then q
      else (let cur = at0 (perEpoch q) origin
            in if cur > 0 then q\<lparr>perEpoch := (perEpoch q)(origin \<mapsto> (cur * 7 + d) div 8)\<rparr>
               else q\<lparr>perEpoch := (perEpoch q)(origin \<mapsto> d)\<rparr>))"

definition unlease :: "string \<Rightarrow> Queue \<Rightarrow> Queue" where
  "unlease k q = q\<lparr>leased := filter (\<lambda>(i, _). i \<noteq> k) (leased q)\<rparr>"

definition releaseLocked :: "Assignment \<Rightarrow> Queue \<Rightarrow> Queue" where
  "releaseLocked a q =
     (let q = unlease (asID a) q;
          q = q\<lparr>reported := (reported q)(asID a := None)\<rparr>;
          q = (if cursor q (asOrigin a) = None \<or> at0 (cursor q) (asOrigin a) > asFrom a
               then q\<lparr>cursor := (cursor q)(asOrigin a \<mapsto> asFrom a)\<rparr> else q)
      in q\<lparr>quiet := (quiet q)(asOrigin a := None)\<rparr>)"

definition reclaimLocked :: "int \<Rightarrow> Queue \<Rightarrow> Queue" where
  "reclaimLocked now q =
     foldl (\<lambda>q (_, a). if now > asDeadline a then releaseLocked a q else q) q (leased q)"

definition handOutLocked :: "Assignment \<Rightarrow> string \<Rightarrow> int \<Rightarrow> string \<Rightarrow> Queue \<Rightarrow> Assignment \<times> Queue" where
  "handOutLocked a worker now nonce q =
     (let n = asTo a - asFrom a + 1;
          a = a\<lparr>asNonce := nonce, asNotBefore := None,
                asDeadline := now + leaseForLocked q (asOrigin a) n, asWorker := worker\<rparr>
      in (a, q\<lparr>leased := bput (asID a) a (leased q), reported := (reported q)(asID a \<mapsto> [])\<rparr>))"

subsection \<open>Cutting a run to what is free\<close>

definition covers :: "Assignment \<Rightarrow> string \<Rightarrow> int \<Rightarrow> bool" where
  "covers a origin e \<longleftrightarrow> asOrigin a = origin \<and> asFrom a \<le> e \<and> e \<le> asTo a"

definition skip_pass :: "(string \<times> Assignment) list \<Rightarrow> string \<Rightarrow> int \<Rightarrow> int \<times> bool" where
  "skip_pass ls origin from =
     foldl (\<lambda>(from, moved) (_, a). if covers a origin from then (asTo a + 1, True) else (from, moved))
       (from, False) ls"

lemma skip_pass_mono:
  "(case foldl (\<lambda>(from, moved) (_, a). if covers a origin from then (asTo a + 1, True) else (from, moved)) (from, m) ls
    of (f, m') \<Rightarrow> from \<le> f \<and> (m' \<and> \<not> m \<longrightarrow> from < f))"
proof (induction ls arbitrary: "from" m)
  case (Cons x ls)
  then show ?case
    using Cons[of "asTo (snd x) + 1" True] Cons[of "from" m]
    by (cases x) (auto simp: covers_def split: prod.splits)
qed simp

function skip_leased :: "(string \<times> Assignment) list \<Rightarrow> string \<Rightarrow> int \<Rightarrow> int \<Rightarrow> int" where
  "skip_leased ls origin from till =
     (let (f, moved) = skip_pass ls origin from
      in if f > till then f else if moved then skip_leased ls origin f till else f)"
  by pat_completeness auto
termination
proof (relation "measure (\<lambda>(ls, origin, from, till). nat (till + 1 - from))")
  fix ls :: "(string \<times> Assignment) list" and origin "from" till x f moved
  assume "x = skip_pass ls origin from" "(f, moved) = x" "\<not> f > till" "moved"
  then show "((ls, origin, f, till), (ls, origin, from, till)) \<in>
      measure (\<lambda>(ls, origin, from, till). nat (till + 1 - from))"
    using skip_pass_mono[of "from" False origin ls] by (auto simp: skip_pass_def split: prod.splits)
qed simp

declare skip_leased.simps [simp del]

definition trimLeasedLocked :: "Queue \<Rightarrow> string \<Rightarrow> int \<Rightarrow> int \<Rightarrow> int \<times> int \<times> bool \<times> int" where
  "trimLeasedLocked q origin from till =
     (let from = skip_leased (leased q) origin from till
      in if from > till then (0, 0, False, from)
         else (let till = foldl (\<lambda>till (_, a). if asOrigin a = origin \<and> asFrom a > from \<and> asFrom a \<le> till
                                  then asFrom a - 1 else till) till (leased q)
               in (from, till, from \<le> till, till + 1)))"

definition is_deferred :: "Queue \<Rightarrow> string \<Rightarrow> int \<Rightarrow> int \<Rightarrow> bool" where
  "is_deferred q origin now e \<longleftrightarrow> (case deferred q (origin, e) of None \<Rightarrow> False | Some t \<Rightarrow> now < t)"

function first_where :: "(int \<Rightarrow> bool) \<Rightarrow> int \<Rightarrow> int \<Rightarrow> int" where
  "first_where P e till = (if e \<le> till \<and> \<not> P e then first_where P (e + 1) till else e)"
  by pat_completeness auto
termination by (relation "measure (\<lambda>(P, e, till). nat (till + 1 - e))") auto

declare first_where.simps [simp del]

definition trimDeferredLocked :: "Queue \<Rightarrow> string \<Rightarrow> int \<Rightarrow> int \<Rightarrow> int \<Rightarrow> int \<times> int \<times> bool" where
  "trimDeferredLocked q origin from till now =
     (let from = first_where (\<lambda>e. \<not> is_deferred q origin now e) from till;
          e = first_where (is_deferred q origin now) from till
      in if e \<le> till then (from, e - 1, from \<le> e - 1) else (from, till, from \<le> till))"

subsection \<open>Lease\<close>

type_synonym source = "string \<Rightarrow> int \<Rightarrow> int \<Rightarrow> (int \<times> int) option"

definition scanFor :: "source \<Rightarrow> string \<Rightarrow> int \<Rightarrow> int \<Rightarrow> (int \<times> int) option" where
  "scanFor src origin at want =
     (case src origin at want of
        Some r \<Rightarrow> Some r
      | None \<Rightarrow> if at = 0 then None else src origin 0 want)"

text \<open>
  Where a call to \<open>Lease\<close> stands when it does not hold the lock: about to ask the source for
  an origin, from a place, on its n-th probe, with the origins left and the time it last read.
\<close>

datatype lease_pc = Ask string int nat "string list" int | Leased Assignment | NoWork

fun pick_origin :: "string list \<Rightarrow> Queue \<Rightarrow> string list \<Rightarrow> int \<Rightarrow> lease_pc" where
  "pick_origin can q [] now = NoWork"
| "pick_origin can q (o' # os) now =
     (if can \<noteq> [] \<and> o' \<notin> set can then pick_origin can q os now
      else if (case quiet q o' of None \<Rightarrow> False | Some t \<Rightarrow> now < t) then pick_origin can q os now
      else Ask o' (at0 (cursor q) o') 0 os now)"

fun take_retry :: "string list \<Rightarrow> int \<Rightarrow> Assignment list \<Rightarrow> (Assignment \<times> Assignment list) option" where
  "take_retry can now [] = None"
| "take_retry can now (a # as) =
     (if (can \<noteq> [] \<and> asOrigin a \<notin> set can) \<or> (case asNotBefore a of None \<Rightarrow> False | Some t \<Rightarrow> now < t)
      then map_option (\<lambda>(b, rest). (b, a # rest)) (take_retry can now as)
      else Some (a, as))"

definition lease_order :: "(string \<Rightarrow> int) option \<Rightarrow> nat \<Rightarrow> string list \<Rightarrow> string list" where
  "lease_order waiting r try =
     (let order = map (\<lambda>i. try ! ((r + i) mod length try)) [0..<length try]
      in case waiting of None \<Rightarrow> order | Some depth \<Rightarrow> sort_key (\<lambda>o'. - depth o') order)"

definition lease_begin ::
    "bool \<Rightarrow> (string \<Rightarrow> int) option \<Rightarrow> string \<Rightarrow> string list \<Rightarrow> int \<Rightarrow> string \<Rightarrow> Queue \<Rightarrow> lease_pc \<times> Queue" where
  "lease_begin has_source waiting worker can now nonce q =
     (let q = reclaimLocked now q
      in case take_retry can now (retry q) of
           Some (a, rest) \<Rightarrow>
             (let (a, q) = handOutLocked a worker now nonce (q\<lparr>retry := rest\<rparr>) in (Leased a, q))
         | None \<Rightarrow>
             if \<not> has_source then (NoWork, q)
             else (let try = (if can = [] then origins q else can)
                   in if try = [] then (NoWork, q)
                      else (pick_origin can q (lease_order waiting (rotation q) try) now, q)))"

definition lease_answer ::
    "string \<Rightarrow> string list \<Rightarrow> int \<Rightarrow> string \<Rightarrow> string \<Rightarrow> int \<Rightarrow> nat \<Rightarrow> string list \<Rightarrow> int \<Rightarrow>
     (int \<times> int) option \<Rightarrow> Queue \<Rightarrow> lease_pc \<times> Queue" where
  "lease_answer worker can clock nonce origin at probe rest now ans q =
     (case ans of
        None \<Rightarrow> (let q = q\<lparr>quiet := (quiet q)(origin \<mapsto> clock + quietFor)\<rparr> in (pick_origin can q rest now, q))
      | Some (from, till) \<Rightarrow>
          (let now = clock;
               (f, t, free, next) = trimLeasedLocked q origin from till;
               (f, t, free) = (if free then trimDeferredLocked q origin f t now else (f, t, False))
           in if free then
                (let q = q\<lparr>cursor := (cursor q)(origin \<mapsto> t + 1), rotation := rotation q + 1,
                           nextSeq := nextSeq q + 1\<rparr>;
                     (a, q) = handOutLocked
                       \<lparr>asID = origin @ ''#'' @ dec (nextSeq q), asOrigin = origin, asFrom = f, asTo = t,
                        asNonce = [], asNotBefore = None, asDeadline = 0, asWorker = []\<rparr>
                       worker now nonce q
                 in (Leased a, q))
              else
                (let at = (if next \<le> at then till + 1 else next);
                     q = (if at > at0 (cursor q) origin then q\<lparr>cursor := (cursor q)(origin \<mapsto> at)\<rparr> else q)
                 in if probe + 1 < maxProbes then (Ask origin at (probe + 1) rest now, q)
                    else (pick_origin can q rest now, q))))"

text \<open>A call with no other call in between: the source answers at once and the clock stands.\<close>

fun pc_size :: "lease_pc \<Rightarrow> nat" where
  "pc_size (Ask _ _ probe rest _) = length rest * (maxProbes + 1) + (maxProbes - probe) + 1"
| "pc_size _ = 0"

lemma pick_origin_size: "pc_size (pick_origin can q rest now) \<le> length rest * (maxProbes + 1)"
  by (induction rest) (auto simp: maxProbes_def)

lemma pick_origin_probe: "pick_origin can q os now = Ask o' at n rest now' \<Longrightarrow> n = 0"
  by (induction os) (auto split: if_splits)

lemma lease_answer_size:
  "pc_size (fst (lease_answer worker can clock nonce origin at probe rest now ans q)) < pc_size (Ask origin at probe rest now)"
proof -
  have p: "pc_size (pick_origin can q' rest t) < pc_size (Ask origin at probe rest now)" for q' t
    using pick_origin_size[of can q' rest t] by simp
  show ?thesis
    using p by (auto simp: lease_answer_def Let_def maxProbes_def simp del: pc_size.simps(1)
        split: option.splits prod.splits) (auto simp: maxProbes_def)
qed

function lease_loop :: "source \<Rightarrow> string \<Rightarrow> string list \<Rightarrow> int \<Rightarrow> int \<Rightarrow> string \<Rightarrow> lease_pc \<times> Queue \<Rightarrow>
    (work_error + Assignment) \<times> Queue" where
  "lease_loop src worker can want now nonce (Leased a, q) = (Inr a, q)"
| "lease_loop src worker can want now nonce (NoWork, q) = (Inl ErrNoWork, q)"
| "lease_loop src worker can want now nonce (Ask origin at probe rest t, q) =
     lease_loop src worker can want now nonce
       (lease_answer worker can now nonce origin at probe rest t (scanFor src origin at want) q)"
  by pat_completeness auto
termination
  by (relation "measure (\<lambda>(src, worker, can, want, now, nonce, pc, q). pc_size pc)")
    (simp_all del: pc_size.simps add: lease_answer_size case_prod_beta)

definition Lease :: "source option \<Rightarrow> (string \<Rightarrow> int) option \<Rightarrow> string \<Rightarrow> string list \<Rightarrow> int \<Rightarrow> int \<Rightarrow> string \<Rightarrow> Queue \<Rightarrow>
    (work_error + Assignment) \<times> Queue" where
  "Lease src waiting worker can want now nonce q =
     lease_loop (case src of None \<Rightarrow> (\<lambda>_ _ _. None) | Some s \<Rightarrow> s) worker can (if want < 1 then 1 else want) now nonce
       (lease_begin (src \<noteq> None) waiting worker can now nonce q)"

subsection \<open>Results\<close>

definition Accept :: "int \<Rightarrow> Result \<Rightarrow> Queue \<Rightarrow> (work_error + unit) \<times> Queue" where
  "Accept now r q =
     (case map_of (leased q) (rsAssignmentID r) of
        None \<Rightarrow> (Inl ErrUnknownID, q)
      | Some a \<Rightarrow>
          if asNonce a \<noteq> rsNonce r then (Inl ErrBadNonce, q)
          else if now > asDeadline a then (Inl ErrLeaseExpired, releaseLocked a q)
          else if rsEpoch r < asFrom a \<or> rsEpoch r > asTo a
          then (Inl (OutsideAssignment (rsEpoch r) (asID a) (asFrom a) (asTo a)), q)
          else (let seen = (case reported q (rsAssignmentID r) of None \<Rightarrow> [] | Some s \<Rightarrow> s);
                    seen = List.insert (rsEpoch r) seen;
                    q = q\<lparr>reported := (reported q)(rsAssignmentID r \<mapsto> seen)\<rparr>;
                    q = (if rsErr r = []
                         then (let q = observeLocked (rsOrigin r) (rsDurationMS r * 10^6) q
                               in q\<lparr>deferred := (deferred q)((rsOrigin r, rsEpoch r) := None)\<rparr>)
                         else q);
                    q = (if int (length seen) = asTo a - asFrom a + 1
                         then (let q = unlease (rsAssignmentID r) q
                               in q\<lparr>reported := (reported q)(rsAssignmentID r := None)\<rparr>)
                         else q);
                    q = (if rsErr r = [] then q\<lparr>attempts := (attempts q)((rsOrigin r, rsEpoch r) := None)\<rparr> else q)
                in (Inr (), q)))"

definition Reschedule :: "int \<Rightarrow> string \<Rightarrow> int \<Rightarrow> Queue \<Rightarrow> (int \<times> bool) \<times> Queue" where
  "Reschedule now origin epoch q =
     (let k = (origin, epoch); n = at0 (attempts q) k + 1
      in if n \<ge> maxAttempts
         then ((n, False), q\<lparr>attempts := (attempts q)(k := None), deferred := (deferred q)(k \<mapsto> now + giveUpFor)\<rparr>)
         else (let q = q\<lparr>attempts := (attempts q)(k \<mapsto> n), nextSeq := nextSeq q + 1\<rparr>;
                   notBefore = now + retryBase * 2 ^ nat (n - 1)
               in ((n, True),
                   q\<lparr>deferred := (deferred q)(k \<mapsto> notBefore),
                     retry := retry q @
                       [\<lparr>asID = origin @ ''#'' @ dec (nextSeq q) @ ''-retry'' @ dec (nat n), asOrigin = origin,
                         asFrom = epoch, asTo = epoch, asNonce = [], asNotBefore = Some notBefore,
                         asDeadline = 0, asWorker = []\<rparr>]\<rparr>)))"

subsection \<open>Queries\<close>

definition Finished :: "string \<Rightarrow> Queue \<Rightarrow> bool" where
  "Finished k q \<longleftrightarrow> map_of (leased q) k = None"

definition Done :: "string \<Rightarrow> Queue \<Rightarrow> Queue" where
  "Done k q = unlease k q"

definition LeasedEpochs :: "int \<Rightarrow> string \<Rightarrow> Queue \<Rightarrow> int \<times> Queue" where
  "LeasedEpochs now origin q =
     (let q = reclaimLocked now q
      in (foldl (\<lambda>n (_, a). if asOrigin a = origin then n + (asTo a - asFrom a + 1) else n) 0 (leased q), q))"

definition is_pending :: "int \<Rightarrow> Assignment \<Rightarrow> bool" where
  "is_pending now a \<longleftrightarrow> (case asNotBefore a of None \<Rightarrow> True | Some t \<Rightarrow> \<not> now < t)"

definition Stats :: "int \<Rightarrow> Queue \<Rightarrow> (nat \<times> nat) \<times> Queue" where
  "Stats now q = (let q = reclaimLocked now q in ((length (filter (is_pending now) (retry q)), length (leased q)), q))"

definition StatsFor :: "int \<Rightarrow> string \<Rightarrow> Queue \<Rightarrow> (nat \<times> nat) \<times> Queue" where
  "StatsFor now origin q =
     (let q = reclaimLocked now q
      in ((length (filter (\<lambda>a. asOrigin a = origin \<and> is_pending now a) (retry q)),
           length (filter (\<lambda>(_, a). asOrigin a = origin) (leased q))), q))"

definition Depth :: "int \<Rightarrow> Queue \<Rightarrow> ((string \<Rightarrow> nat) \<times> (string \<Rightarrow> nat)) \<times> Queue" where
  "Depth now q =
     (let q = reclaimLocked now q
      in (((\<lambda>o'. length (filter (\<lambda>a. is_pending now a \<and> asOrigin a = o') (retry q))),
           (\<lambda>o'. length (filter (\<lambda>(_, a). asOrigin a = o') (leased q)))), q))"

definition LeasedBy :: "int \<Rightarrow> string \<Rightarrow> string \<Rightarrow> int \<Rightarrow> Queue \<Rightarrow> bool \<times> Queue" where
  "LeasedBy now worker origin epoch q =
     (let q = reclaimLocked now q
      in (list_ex (\<lambda>(_, a). asWorker a = worker \<and> asOrigin a = origin \<and> asFrom a \<le> epoch \<and> epoch \<le> asTo a) (leased q), q))"

subsection \<open>The store as a source\<close>

definition storeSource :: "AuditStore \<Rightarrow> source" where
  "storeSource s origin after n =
     (case histories s origin of
        None \<Rightarrow> None
      | Some h \<Rightarrow>
          if hiTo h \<le> hiFrom h then None
          else (let after = (if after < hiFrom h then hiFrom h else after)
                in case FirstUnverified origin after (hiTo h) s of
                     None \<Rightarrow> None
                   | Some from \<Rightarrow>
                       (let to' = from + n - 1; to' = (if to' > hiTo h then hiTo h else to') in Some (from, to'))))"

subsection \<open>What a cut run contains\<close>

abbreviation lease_at :: "Queue \<Rightarrow> string \<rightharpoonup> Assignment" where
  "lease_at q \<equiv> map_of (leased q)"

definition busy :: "Queue \<Rightarrow> string \<Rightarrow> int \<Rightarrow> bool" where
  "busy q origin e \<longleftrightarrow> (\<exists>x\<in>set (leased q). covers (snd x) origin e)"

lemma skip_pass_fold:
  "(case foldl (\<lambda>(from, moved) (_, a). if covers a origin from then (asTo a + 1, True) else (from, moved)) (from, m) ls
    of (f, m') \<Rightarrow> from \<le> f \<and> (\<forall>e. from \<le> e \<and> e < f \<longrightarrow> (\<exists>x\<in>set ls. covers (snd x) origin e)) \<and>
      (\<not> m' \<longrightarrow> f = from \<and> \<not> m \<and> (\<forall>x\<in>set ls. \<not> covers (snd x) origin from)))"
proof (induction ls arbitrary: "from" m)
  case (Cons x ls)
  obtain i a where x: "x = (i, a)" by (cases x)
  show ?case
  proof (cases "covers a origin from")
    case True
    obtain f m' where r: "foldl (\<lambda>(from, moved) (_, a). if covers a origin from then (asTo a + 1, True) else (from, moved))
        (asTo a + 1, True) ls = (f, m')" by fastforce
    have "asTo a + 1 \<le> f \<and> (\<forall>e. asTo a + 1 \<le> e \<and> e < f \<longrightarrow> (\<exists>x\<in>set ls. covers (snd x) origin e)) \<and> m'"
      using Cons[of "asTo a + 1" True] r by auto
    moreover have "covers a origin e" if "from \<le> e" "e < asTo a + 1" for e
      using True that by (simp add: covers_def)
    moreover have "from \<le> asTo a" using True by (simp add: covers_def)
    ultimately have "from \<le> f \<and> (\<forall>e. from \<le> e \<and> e < f \<longrightarrow> (\<exists>x\<in>set (x # ls). covers (snd x) origin e)) \<and> m'"
      unfolding x by (metis insertCI le_less_linear less_le_trans linorder_not_le list.set(2) not_less_iff_gr_or_eq
          order_trans snd_conv zle_add1_eq_le)
    then show ?thesis using r True by (simp add: x)
  next
    case False
    then show ?thesis using Cons[of "from" m] by (simp add: x) (auto split: prod.splits)
  qed
qed simp

lemma skip_leased_spec:
  "from \<le> skip_leased ls origin from till \<and>
   (\<forall>e. from \<le> e \<and> e < skip_leased ls origin from till \<longrightarrow> (\<exists>x\<in>set ls. covers (snd x) origin e)) \<and>
   (skip_leased ls origin from till \<le> till \<longrightarrow>
      (\<forall>x\<in>set ls. \<not> covers (snd x) origin (skip_leased ls origin from till)))"
proof (induction ls origin "from" till rule: skip_leased.induct)
  case (1 ls origin "from" till)
  obtain f m where p: "skip_pass ls origin from = (f, m)" by fastforce
  have s: "from \<le> f" "\<forall>e. from \<le> e \<and> e < f \<longrightarrow> (\<exists>x\<in>set ls. covers (snd x) origin e)"
    "\<not> m \<longrightarrow> f = from \<and> (\<forall>x\<in>set ls. \<not> covers (snd x) origin from)"
    using skip_pass_fold[of "from" ls origin False] p by (auto simp: skip_pass_def)
  show ?case
  proof (cases "f > till \<or> \<not> m")
    case True
    then have "skip_leased ls origin from till = f" by (subst skip_leased.simps) (auto simp: p)
    then show ?thesis using s True by auto
  next
    case False
    then have e: "skip_leased ls origin from till = skip_leased ls origin f till"
      by (subst skip_leased.simps) (simp add: p)
    have "f \<le> skip_leased ls origin f till \<and>
     (\<forall>e. f \<le> e \<and> e < skip_leased ls origin f till \<longrightarrow> (\<exists>x\<in>set ls. covers (snd x) origin e)) \<and>
     (skip_leased ls origin f till \<le> till \<longrightarrow> (\<forall>x\<in>set ls. \<not> covers (snd x) origin (skip_leased ls origin f till)))"
      using 1[OF p[symmetric]] False by auto
    then show ?thesis unfolding e using s(1,2) by (meson le_less_linear order_trans)
  qed
qed

lemma stop_before_spec:
  "from \<le> till \<Longrightarrow>
   (let t = foldl (\<lambda>till (_, a). if asOrigin a = origin \<and> asFrom a > from \<and> asFrom a \<le> till
                       then asFrom a - 1 else till) till ls
    in from \<le> t \<and> t \<le> till \<and> (\<forall>x\<in>set ls. \<not> (asOrigin (snd x) = origin \<and> from < asFrom (snd x) \<and> asFrom (snd x) \<le> t)) \<and>
       (t < till \<longrightarrow> (\<exists>x\<in>set ls. asOrigin (snd x) = origin \<and> asFrom (snd x) = t + 1)))"
proof (induction ls arbitrary: till)
  case (Cons x ls)
  obtain i a where x: "x = (i, a)" by (cases x)
  let ?c = "asOrigin a = origin \<and> asFrom a > from \<and> asFrom a \<le> till"
  let ?t = "if ?c then asFrom a - 1 else till"
  have ih: "(let t = foldl (\<lambda>till (_, a). if asOrigin a = origin \<and> asFrom a > from \<and> asFrom a \<le> till
                       then asFrom a - 1 else till) ?t ls
    in from \<le> t \<and> t \<le> ?t \<and> (\<forall>x\<in>set ls. \<not> (asOrigin (snd x) = origin \<and> from < asFrom (snd x) \<and> asFrom (snd x) \<le> t)) \<and>
       (t < ?t \<longrightarrow> (\<exists>x\<in>set ls. asOrigin (snd x) = origin \<and> asFrom (snd x) = t + 1)))"
    using Cons by (intro Cons.IH) auto
  show ?case
  proof (cases ?c)
    case True
    then show ?thesis using ih unfolding Let_def x by auto
  next
    case False
    then show ?thesis using ih unfolding Let_def x by auto
  qed
qed simp

lemma trimLeased_spec:
  assumes "from \<le> till" "\<forall>x\<in>set (leased q). asFrom (snd x) \<le> asTo (snd x)"
  shows "case trimLeasedLocked q origin from till of (f, t, free, next) \<Rightarrow>
    if free then from \<le> f \<and> f \<le> t \<and> t \<le> till \<and> next = t + 1 \<and>
      (\<forall>e. from \<le> e \<and> e < f \<longrightarrow> busy q origin e) \<and> (\<forall>e. f \<le> e \<and> e \<le> t \<longrightarrow> \<not> busy q origin e) \<and>
      (t < till \<longrightarrow> busy q origin (t + 1))
    else till < next \<and> (\<forall>e. from \<le> e \<and> e \<le> till \<longrightarrow> busy q origin e)"
proof -
  define f where "f = skip_leased (leased q) origin from till"
  have f: "from \<le> f" "\<forall>e. from \<le> e \<and> e < f \<longrightarrow> busy q origin e"
    "f \<le> till \<longrightarrow> \<not> busy q origin f"
    using skip_leased_spec[of "from" "leased q" origin till] by (auto simp: f_def busy_def)
  show ?thesis
  proof (cases "f > till")
    case True
    then show ?thesis using f by (simp add: trimLeasedLocked_def f_def[symmetric] Let_def)
  next
    case False
    define t where "t = foldl (\<lambda>till (_, a). if asOrigin a = origin \<and> asFrom a > f \<and> asFrom a \<le> till
                                  then asFrom a - 1 else till) till (leased q)"
    have t: "f \<le> t" "t \<le> till" "\<forall>x\<in>set (leased q). \<not> (asOrigin (snd x) = origin \<and> f < asFrom (snd x) \<and> asFrom (snd x) \<le> t)"
      "t < till \<longrightarrow> (\<exists>x\<in>set (leased q). asOrigin (snd x) = origin \<and> asFrom (snd x) = t + 1)"
      using stop_before_spec[of f till origin "leased q"] False by (simp_all add: t_def Let_def)
    have r: "trimLeasedLocked q origin from till = (f, t, True, t + 1)"
      using False t(1) by (simp add: trimLeasedLocked_def f_def[symmetric] t_def[symmetric] Let_def)
    have "\<not> busy q origin e" if "f \<le> e" "e \<le> t" for e
    proof
      assume "busy q origin e"
      then obtain x where x: "x \<in> set (leased q)" "covers (snd x) origin e" by (auto simp: busy_def)
      have "\<not> covers (snd x) origin f" using f(3) False x(1) by (auto simp: busy_def)
      then show False using x t(3) that by (auto simp: covers_def)
    qed
    moreover have "t < till \<longrightarrow> busy q origin (t + 1)"
      using t(4) assms(2) by (auto simp: busy_def covers_def) (metis order_refl snd_conv)
    ultimately show ?thesis using r f t by simp
  qed
qed

text \<open>
C29. trimLeasedLocked returns the first block of the run that no lease touches, cut where
  the next lease starts, whatever order the leases are met in; it reports nothing free only
  if every epoch of the run is leased.
\<close>

theorem trimLeasedLocked_exact:
  assumes "from \<le> till" "\<forall>x\<in>set (leased q). asFrom (snd x) \<le> asTo (snd x)"
  shows "case trimLeasedLocked q origin from till of (f, t, free, next) \<Rightarrow>
    if free then from \<le> f \<and> f \<le> t \<and> t \<le> till \<and> next = t + 1 \<and>
      (\<forall>e. from \<le> e \<and> e < f \<longrightarrow> busy q origin e) \<and> (\<forall>e. f \<le> e \<and> e \<le> t \<longrightarrow> \<not> busy q origin e) \<and>
      (t < till \<longrightarrow> busy q origin (t + 1))
    else till < next \<and> (\<forall>e. from \<le> e \<and> e \<le> till \<longrightarrow> busy q origin e)"
  using trimLeased_spec[OF assms] .

lemma first_where_spec:
  "e \<le> first_where P e till \<and> (\<forall>x. e \<le> x \<and> x < first_where P e till \<longrightarrow> \<not> P x) \<and>
   (first_where P e till \<le> till \<longrightarrow> P (first_where P e till)) \<and> (e \<le> till + 1 \<longrightarrow> first_where P e till \<le> till + 1)"
proof (induction P e till rule: first_where.induct)
  case (1 P e till)
  show ?case
  proof (cases "e \<le> till \<and> \<not> P e")
    case True
    then have s: "first_where P e till = first_where P (e + 1) till" by (subst first_where.simps) simp
    have "\<not> P x" if "e \<le> x" "x < first_where P (e + 1) till" for x
      using 1 True that by (cases "x = e") auto
    then show ?thesis unfolding s using 1 True by auto
  next
    case False
    then have "first_where P e till = e" by (subst first_where.simps) auto
    then show ?thesis using False by auto
  qed
qed

lemma trimDeferredLocked_exact:
  assumes "from \<le> till"
  shows "case trimDeferredLocked q origin from till now of (f, t, free) \<Rightarrow>
    if free then from \<le> f \<and> f \<le> t \<and> t \<le> till \<and> (\<forall>e. f \<le> e \<and> e \<le> t \<longrightarrow> \<not> is_deferred q origin now e) \<and>
      (\<forall>e. from \<le> e \<and> e < f \<longrightarrow> is_deferred q origin now e)
    else (\<forall>e. from \<le> e \<and> e \<le> till \<longrightarrow> is_deferred q origin now e)"
proof -
  define f where "f = first_where (\<lambda>e. \<not> is_deferred q origin now e) from till"
  define e where "e = first_where (is_deferred q origin now) f till"
  have f: "from \<le> f" "\<forall>x. from \<le> x \<and> x < f \<longrightarrow> is_deferred q origin now x" "f \<le> till \<longrightarrow> \<not> is_deferred q origin now f"
    "f \<le> till + 1"
    using first_where_spec[of "from" "\<lambda>e. \<not> is_deferred q origin now e" till] assms by (auto simp: f_def)
  have e: "f \<le> e" "\<forall>x. f \<le> x \<and> x < e \<longrightarrow> \<not> is_deferred q origin now x" "e \<le> till \<longrightarrow> is_deferred q origin now e"
    using first_where_spec[of f "is_deferred q origin now" till] by (auto simp: e_def)
  have "e \<noteq> f" if "e \<le> till" using e f that by auto
  then show ?thesis using f e
    by (auto simp: trimDeferredLocked_def f_def[symmetric] e_def[symmetric] Let_def)
qed

subsection \<open>The invariant of the queue\<close>

lemma map_of_unlease [simp]: "lease_at (unlease k q) = (lease_at q)(k := None)"
proof -
  have "map_of (filter (\<lambda>(i, _). i \<noteq> k) xs) = (map_of xs)(k := None)" for xs :: "(string \<times> Assignment) list"
    by (induction xs) (auto simp: fun_eq_iff)
  then show ?thesis by (simp add: unlease_def)
qed

lemma distinct_bput: "distinct (map fst b) \<Longrightarrow> distinct (map fst (bput k v b))"
proof (induction k v b rule: bput.induct)
  case (2 k v l w b)
  have "fst ` set (bput k v b) = insert k (fst ` set b)"
    by (induction k v b rule: bput.induct) auto
  then show ?case using 2 by (auto simp: image_iff)
qed simp

lemma unlease_other [simp]:
  "reported (unlease k q) = reported q" "retry (unlease k q) = retry q" "attempts (unlease k q) = attempts q"
  "cursor (unlease k q) = cursor q" "quiet (unlease k q) = quiet q" "deferred (unlease k q) = deferred q"
  by (simp_all add: unlease_def)

lemma releaseLocked_facts [simp]:
  "lease_at (releaseLocked a q) = (lease_at q)(asID a := None)"
  "reported (releaseLocked a q) = (reported q)(asID a := None)"
  "retry (releaseLocked a q) = retry q" "attempts (releaseLocked a q) = attempts q"
  "leased (releaseLocked a q) = leased (unlease (asID a) q)"
  by (simp_all add: releaseLocked_def Let_def flip: map_of_unlease)

definition ranges_meet :: "Assignment \<Rightarrow> Assignment \<Rightarrow> bool" where
  "ranges_meet a b \<longleftrightarrow> asOrigin a = asOrigin b \<and> asFrom a \<le> asTo b \<and> asFrom b \<le> asTo a"

text \<open>\<open>R\<close> is the identifiers that were handed out from the retry list.\<close>

definition queue_ok :: "Queue \<Rightarrow> string set \<Rightarrow> bool" where
  "queue_ok q R \<longleftrightarrow>
     distinct (map fst (leased q)) \<and>
     (\<forall>i a. lease_at q i = Some a \<longrightarrow> asID a = i \<and> asFrom a \<le> asTo a \<and>
        (\<exists>seen. reported q i = Some seen \<and> distinct seen \<and> set seen \<subset> {asFrom a..asTo a})) \<and>
     (\<forall>i a j b. lease_at q i = Some a \<and> lease_at q j = Some b \<and> i \<noteq> j \<and> ranges_meet a b \<longrightarrow> i \<in> R \<or> j \<in> R) \<and>
     (\<forall>a\<in>set (retry q). asFrom a = asTo a) \<and>
     (\<forall>k n. attempts q k = Some n \<longrightarrow> n \<in> {1, 2})"

lemma queue_okI:
  assumes "distinct (map fst (leased q))"
    and "\<And>i a. lease_at q i = Some a \<Longrightarrow> asID a = i \<and> asFrom a \<le> asTo a \<and>
        (\<exists>seen. reported q i = Some seen \<and> distinct seen \<and> set seen \<subset> {asFrom a..asTo a})"
    and "\<And>i a j b. lease_at q i = Some a \<Longrightarrow> lease_at q j = Some b \<Longrightarrow> i \<noteq> j \<Longrightarrow> ranges_meet a b \<Longrightarrow> i \<in> R \<or> j \<in> R"
    and "\<And>a. a \<in> set (retry q) \<Longrightarrow> asFrom a = asTo a"
    and "\<And>k n. attempts q k = Some n \<Longrightarrow> n \<in> {1, 2}"
  shows "queue_ok q R"
  using assms unfolding queue_ok_def by blast

lemma queue_okD:
  assumes "queue_ok q R"
  shows "distinct (map fst (leased q))"
    and "lease_at q i = Some a \<Longrightarrow> asID a = i \<and> asFrom a \<le> asTo a \<and>
        (\<exists>seen. reported q i = Some seen \<and> distinct seen \<and> set seen \<subset> {asFrom a..asTo a})"
    and "lease_at q i = Some a \<Longrightarrow> lease_at q j = Some b \<Longrightarrow> i \<noteq> j \<Longrightarrow> ranges_meet a b \<Longrightarrow> i \<in> R \<or> j \<in> R"
    and "a \<in> set (retry q) \<Longrightarrow> asFrom a = asTo a"
    and "attempts q k = Some n \<Longrightarrow> n \<in> {1, 2}"
  using assms unfolding queue_ok_def by blast+

text \<open>A state with some of the leases of another.\<close>

definition shrunk :: "Queue \<Rightarrow> Queue \<Rightarrow> bool" where
  "shrunk p q \<longleftrightarrow> distinct (map fst (leased p)) \<and>
     (\<forall>i. lease_at p i = None \<or> lease_at p i = lease_at q i \<and> reported p i = reported q i) \<and>
     set (retry p) \<subseteq> set (retry q) \<and> (\<forall>k n. attempts p k = Some n \<longrightarrow> attempts q k = Some n)"

lemma shrunk_ok:
  assumes "shrunk p q" "queue_ok q R"
  shows "queue_ok p R"
proof -
  have s: "lease_at q i = Some a \<and> reported p i = reported q i" if "lease_at p i = Some a" for i a
    using assms(1) that unfolding shrunk_def by (metis option.distinct(1))
  have p: "distinct (map fst (leased p))" "set (retry p) \<subseteq> set (retry q)"
    "\<And>k n. attempts p k = Some n \<Longrightarrow> attempts q k = Some n"
    using assms(1) unfolding shrunk_def by blast+
  note q = queue_okD[OF assms(2)]
  show ?thesis
  proof (rule queue_okI[OF p(1)])
    fix i a
    assume "lease_at p i = Some a"
    then show "asID a = i \<and> asFrom a \<le> asTo a \<and>
        (\<exists>seen. reported p i = Some seen \<and> distinct seen \<and> set seen \<subset> {asFrom a..asTo a})"
      using s[of i a] q(2)[of i a] by metis
  next
    fix i a j b
    assume "lease_at p i = Some a" "lease_at p j = Some b" "i \<noteq> j" "ranges_meet a b"
    then show "i \<in> R \<or> j \<in> R" using s q(3) by blast
  qed (use p(2,3) q(4,5) in blast)+
qed

lemma queue_ok_distinct: "queue_ok q R \<Longrightarrow> distinct (map fst (leased q))"
  by (simp add: queue_ok_def)

lemma distinct_unlease: "distinct (map fst (leased q)) \<Longrightarrow> distinct (map fst (leased (unlease k q)))"
  by (auto simp: unlease_def distinct_map intro: inj_on_subset)

lemma shrunk_refl: "distinct (map fst (leased q)) \<Longrightarrow> shrunk q q"
  by (simp add: shrunk_def)

lemma shrunk_trans:
  assumes "shrunk p q" "shrunk q r"
  shows "shrunk p r"
proof -
  have "lease_at p i = None \<or> lease_at p i = lease_at r i \<and> reported p i = reported r i" for i
    using assms unfolding shrunk_def by metis
  then show ?thesis using assms unfolding shrunk_def by (simp add: subset_iff)
qed

lemma releaseLocked_shrunk: "distinct (map fst (leased q)) \<Longrightarrow> shrunk (releaseLocked a q) q"
  by (simp add: shrunk_def distinct_unlease)

lemma reclaim_fold_shrunk:
  "shrunk p q \<Longrightarrow> shrunk (foldl (\<lambda>q (_, a). if now > asDeadline a then releaseLocked a q else q) p xs) q"
proof (induction xs arbitrary: p)
  case (Cons x xs)
  obtain i a where x: "x = (i, a)" by (cases x)
  have "distinct (map fst (leased p))" using Cons(2) by (simp add: shrunk_def)
  then have "shrunk (releaseLocked a p) q"
    using releaseLocked_shrunk Cons(2) shrunk_trans by blast
  then show ?case using Cons(1)[of p] Cons(1)[of "releaseLocked a p"] Cons(2) by (simp add: x)
qed simp

lemma reclaimLocked_shrunk: "distinct (map fst (leased q)) \<Longrightarrow> shrunk (reclaimLocked now q) q"
  unfolding reclaimLocked_def by (rule reclaim_fold_shrunk[OF shrunk_refl])

text \<open>After a reclaim exactly the leases that have not expired are left.\<close>

lemma reclaimLocked_leases:
  assumes "queue_ok q R"
  shows "lease_at (reclaimLocked now q) i = (case lease_at q i of None \<Rightarrow> None | Some a \<Rightarrow> if now > asDeadline a then None else Some a)"
proof -
  have fl: "lease_at (foldl (\<lambda>q (_, a). if now > asDeadline a then releaseLocked a q else q) p xs) i =
      (if \<exists>x\<in>set xs. now > asDeadline (snd x) \<and> asID (snd x) = i then None else lease_at p i)" for p and xs :: "(string \<times> Assignment) list"
    by (induction xs arbitrary: p) (auto split: if_splits)
  have "lease_at (reclaimLocked now q) i =
      (if \<exists>x\<in>set (leased q). now > asDeadline (snd x) \<and> asID (snd x) = i then None else lease_at q i)"
    unfolding reclaimLocked_def by (rule fl)
  moreover have "(\<exists>x\<in>set (leased q). now > asDeadline (snd x) \<and> asID (snd x) = i) \<longleftrightarrow>
      (\<exists>a. lease_at q i = Some a \<and> now > asDeadline a)"
  proof
    assume "\<exists>x\<in>set (leased q). now > asDeadline (snd x) \<and> asID (snd x) = i"
    then obtain k a where "(k, a) \<in> set (leased q)" "now > asDeadline a" "asID a = i" by auto
    moreover from this have "lease_at q k = Some a" using assms by (simp add: queue_ok_def)
    moreover from this have "asID a = k" using assms by (simp add: queue_ok_def)
    ultimately show "\<exists>a. lease_at q i = Some a \<and> now > asDeadline a" by auto
  next
    assume "\<exists>a. lease_at q i = Some a \<and> now > asDeadline a"
    then obtain a where a: "lease_at q i = Some a" "now > asDeadline a" by auto
    moreover have "asID a = i" using assms a by (simp add: queue_ok_def)
    ultimately show "\<exists>x\<in>set (leased q). now > asDeadline (snd x) \<and> asID (snd x) = i"
      by (intro bexI[of _ "(i, a)"]) (auto dest: map_of_SomeD)
  qed
  ultimately show ?thesis by (auto split: option.splits)
qed

theorem LeasedBy_exact:
  assumes "queue_ok q R"
  shows "fst (LeasedBy now worker origin e q) \<longleftrightarrow>
    (\<exists>i a. lease_at q i = Some a \<and> asWorker a = worker \<and> covers a origin e \<and> now \<le> asDeadline a)"
proof -
  let ?p = "reclaimLocked now q"
  have d: "distinct (map fst (leased ?p))" using reclaimLocked_shrunk[OF queue_ok_distinct[OF assms]] by (simp add: shrunk_def)
  have "fst (LeasedBy now worker origin e q) \<longleftrightarrow>
      (\<exists>i a. lease_at ?p i = Some a \<and> asWorker a = worker \<and> covers a origin e)"
    using d by (fastforce simp: LeasedBy_def Let_def list_ex_iff covers_def)
  moreover have "lease_at ?p i = Some a \<longleftrightarrow> lease_at q i = Some a \<and> now \<le> asDeadline a" for i a
    by (auto simp: reclaimLocked_leases[OF assms] split: option.splits)
  ultimately show ?thesis by auto
qed

subsection \<open>Hand-outs\<close>

lemma handOut_ok:
  assumes "queue_ok q R" "asFrom a \<le> asTo a"
    and "asID a \<in> S \<or> (\<forall>i b. lease_at q i = Some b \<longrightarrow> \<not> ranges_meet b a)" "R \<subseteq> S"
  shows "queue_ok (snd (handOutLocked a w now nonce q)) S"
proof -
  obtain a' where a': "snd (handOutLocked a w now nonce q) =
      q\<lparr>leased := bput (asID a) a' (leased q), reported := (reported q)(asID a \<mapsto> [])\<rparr>"
    "asID a' = asID a" "asOrigin a' = asOrigin a" "asFrom a' = asFrom a" "asTo a' = asTo a"
    by (simp add: handOutLocked_def Let_def)
  define p where "p = snd (handOutLocked a w now nonce q)"
  have at: "lease_at p i = (if i = asID a then Some a' else lease_at q i)" for i
    by (simp add: p_def a'(1))
  have m: "ranges_meet b a' = ranges_meet b a" "ranges_meet a' b = ranges_meet b a" for b
    using a'(3-5) by (auto simp: ranges_meet_def)
  note q = queue_okD[OF assms(1)]
  have "retry p = retry q" "attempts p = attempts q" by (simp_all add: p_def a'(1))
  moreover have "distinct (map fst (leased p))" using q(1) by (simp add: p_def a'(1) distinct_bput)
  moreover have "i \<in> S \<or> j \<in> S"
    if "lease_at p i = Some b" "lease_at p j = Some c" "i \<noteq> j" "ranges_meet b c" for i j b c
  proof (cases "i = asID a \<or> j = asID a")
    case True
    then show ?thesis using that assms(3) m unfolding at by (metis option.inject)
  next
    case False
    then show ?thesis using that q(3)[of i b j c] assms(4) unfolding at by auto
  qed
  moreover have "asID b = i \<and> asFrom b \<le> asTo b \<and>
      (\<exists>seen. reported p i = Some seen \<and> distinct seen \<and> set seen \<subset> {asFrom b..asTo b})"
    if "lease_at p i = Some b" for i b
  proof (cases "i = asID a")
    case True
    then show ?thesis using that assms(2) a' unfolding at by (auto simp: p_def)
  next
    case False
    then show ?thesis using that q(2)[of i b] unfolding at by (simp add: p_def a'(1))
  qed
  ultimately show ?thesis unfolding p_def[symmetric] by (intro queue_okI) (use q(4,5) in auto)
qed

lemma take_retry_mem: "take_retry can now as = Some (a, rest) \<Longrightarrow> a \<in> set as \<and> set rest \<subseteq> set as"
  by (induction as arbitrary: rest) (auto split: if_splits)

lemma queue_ok_frame:
  assumes "queue_ok q R" "leased p = leased q" "reported p = reported q" "set (retry p) \<subseteq> set (retry q)" "attempts p = attempts q"
  shows "queue_ok p R"
  using assms(1,4) unfolding queue_ok_def assms(2,3,5) by blast

lemma lease_begin_ok:
  assumes "queue_ok q R" "lease_begin has_source waiting worker can now nonce q = (pc, p)"
  shows "queue_ok p (case pc of Leased a \<Rightarrow> insert (asID a) R | _ \<Rightarrow> R)"
proof -
  let ?q = "reclaimLocked now q"
  have ok: "queue_ok ?q R" using shrunk_ok[OF reclaimLocked_shrunk[OF queue_ok_distinct] assms(1)] assms(1) by blast
  show ?thesis
  proof (cases "take_retry can now (retry ?q)")
    case None
    have "pick_origin can ?q os now \<noteq> Leased b" for os b by (induction os) auto
    then show ?thesis using assms(2) None ok
      by (auto simp: lease_begin_def Let_def split: if_splits lease_pc.splits)
  next
    case (Some ar)
    obtain a rest where ar: "ar = (a, rest)" by (cases ar)
    let ?p = "?q\<lparr>retry := rest\<rparr>"
    have mem: "a \<in> set (retry ?q)" "set rest \<subseteq> set (retry ?q)" using take_retry_mem[OF Some[unfolded ar]] by auto
    have "queue_ok ?p R" by (rule queue_ok_frame[OF ok]) (use mem in auto)
    moreover have "asFrom a \<le> asTo a" using ok mem(1) by (simp add: queue_ok_def)
    ultimately have "queue_ok (snd (handOutLocked a worker now nonce ?p)) (insert (asID a) R)"
      by (intro handOut_ok) auto
    moreover have "(pc, p) = (Leased (fst (handOutLocked a worker now nonce ?p)), snd (handOutLocked a worker now nonce ?p))"
      using assms(2) Some by (simp add: lease_begin_def ar Let_def case_prod_beta)
    moreover have "asID (fst (handOutLocked a worker now nonce ?p)) = asID a" by (simp add: handOutLocked_def Let_def)
    ultimately show ?thesis by simp
  qed
qed

lemma lease_answer_ok:
  assumes "queue_ok q R" "\<And>f t. ans = Some (f, t) \<Longrightarrow> f \<le> t"
  shows "queue_ok (snd (lease_answer worker can clock nonce origin at probe rest now ans q)) R"
proof (cases ans)
  case None
  then show ?thesis using queue_ok_frame[OF assms(1)] by (simp add: lease_answer_def Let_def)
next
  case (Some ft)
  obtain from0 till where ft: "ft = (from0, till)" by (cases ft)
  obtain f t free nxt where tl: "trimLeasedLocked q origin from0 till = (f, t, free, nxt)" by (cases "trimLeasedLocked q origin from0 till")
  obtain f2 t2 free2 where td: "(if free then trimDeferredLocked q origin f t clock else (f, t, False)) = (f2, t2, free2)"
    by (cases "if free then trimDeferredLocked q origin f t clock else (f, t, False)")
  have le: "from0 \<le> till" using assms(2) Some ft by simp
  have wf: "\<forall>x\<in>set (leased q). asFrom (snd x) \<le> asTo (snd x)"
    using assms(1) by (auto simp: queue_ok_def)
  show ?thesis
  proof (cases free2)
    case False
    then show ?thesis using queue_ok_frame[OF assms(1)]
      by (auto simp: lease_answer_def Let_def Some ft tl td)
  next
    case True
    then have fr: free using td by (cases free) auto
    then have td2: "trimDeferredLocked q origin f t clock = (f2, t2, True)" using td True by simp
    have x: "f \<le> t" "\<forall>e. f \<le> e \<and> e \<le> t \<longrightarrow> \<not> busy q origin e"
      using trimLeased_spec[OF le wf, of origin] fr by (simp_all add: tl)
    have y: "f \<le> f2" "f2 \<le> t2" "t2 \<le> t"
      using trimDeferredLocked_exact[OF x(1), of q origin clock] fr True td by simp_all
    define p where "p = q\<lparr>cursor := (cursor q)(origin \<mapsto> t2 + 1), rotation := rotation q + 1, nextSeq := nextSeq q + 1\<rparr>"
    define a where "a = \<lparr>asID = origin @ ''#'' @ dec (nextSeq p), asOrigin = origin, asFrom = f2, asTo = t2,
                        asNonce = [], asNotBefore = None, asDeadline = 0, asWorker = []\<rparr>"
    have "lease_answer worker can clock nonce origin at probe rest now ans q =
        (Leased (fst (handOutLocked a worker clock nonce p)), snd (handOutLocked a worker clock nonce p))"
      using True by (simp add: lease_answer_def Let_def Some ft tl td2 fr a_def p_def case_prod_beta)
    moreover have "queue_ok (snd (handOutLocked a worker clock nonce p)) R"
    proof (rule handOut_ok)
      show "queue_ok p R" using queue_ok_frame[OF assms(1)] by (simp add: p_def)
      have "\<not> ranges_meet b a" if "lease_at p i = Some b" for i b
      proof
        assume m: "ranges_meet b a"
        have b: "(i, b) \<in> set (leased q)" "asFrom b \<le> asTo b"
          using that wf by (force simp: p_def dest: map_of_SomeD)+
        then have "covers b origin (max f2 (asFrom b))" "max f2 (asFrom b) \<le> t2"
          using m y by (auto simp: ranges_meet_def covers_def a_def)
        moreover have "busy q origin (max f2 (asFrom b))"
          unfolding busy_def by (rule bexI[OF _ b(1)]) (use calculation in simp)
        ultimately show False using x(2) y by (meson max.cobounded1 order_trans)
      qed
      then show "asID a \<in> R \<or> (\<forall>i b. lease_at p i = Some b \<longrightarrow> \<not> ranges_meet b a)" by blast
    qed (use y in \<open>simp_all add: a_def\<close>)
    ultimately show ?thesis by simp
  qed
qed

subsection \<open>Results and retries\<close>

lemma insert_full:
  "set sofar \<subset> {a..b::int} \<Longrightarrow> distinct sofar \<Longrightarrow> e \<in> {a..b} \<Longrightarrow>
   (int (length (List.insert e sofar)) = b - a + 1 \<longleftrightarrow> set (List.insert e sofar) = {a..b}) \<and>
   set (List.insert e sofar) \<subseteq> {a..b}"
proof -
  assume a: "set sofar \<subset> {a..b}" "distinct sofar" "e \<in> {a..b}"
  have s: "set (List.insert e sofar) \<subseteq> {a..b}" using a by auto
  have d: "distinct (List.insert e sofar)" using a(2) by simp
  have "int (length (List.insert e sofar)) = int (card (set (List.insert e sofar)))"
    using distinct_card[OF d] by simp
  moreover have "int (card {a..b}) = b - a + 1" using a(3) by simp
  moreover have "card (set (List.insert e sofar)) = card {a..b} \<longleftrightarrow> set (List.insert e sofar) = {a..b}"
    using card_subset_eq[OF _ s] by auto
  ultimately show ?thesis using s by linarith
qed

text \<open>The result a lease accepts: the leases, the epochs seen, nothing else of the lease table.\<close>

definition accepted :: "Result \<Rightarrow> Assignment \<Rightarrow> Queue \<Rightarrow> Queue \<Rightarrow> bool" where
  "accepted r a q p \<longleftrightarrow>
     (let k = rsAssignmentID r; sofar = List.insert (rsEpoch r) (case reported q k of None \<Rightarrow> [] | Some s \<Rightarrow> s)
      in retry p = retry q \<and> (\<forall>k n. attempts p k = Some n \<longrightarrow> attempts q k = Some n) \<and>
         (if int (length sofar) = asTo a - asFrom a + 1
          then leased p = leased (unlease k q) \<and> reported p = (reported q)(k := None)
          else leased p = leased q \<and> reported p = (reported q)(k \<mapsto> sofar)))"

lemma observeLocked_facts [simp]:
  "leased (observeLocked w d q) = leased q" "reported (observeLocked w d q) = reported q"
  "retry (observeLocked w d q) = retry q" "attempts (observeLocked w d q) = attempts q"
  by (simp_all add: observeLocked_def Let_def)

lemma Accept_cases:
  obtains (refused) e where "Accept now r q = (Inl e, q)"
    | (expired) a where "lease_at q (rsAssignmentID r) = Some a" "Accept now r q = (Inl ErrLeaseExpired, releaseLocked a q)"
    | (taken) a p where "Accept now r q = (Inr (), p)" "lease_at q (rsAssignmentID r) = Some a" "rsNonce r = asNonce a"
        "now \<le> asDeadline a" "asFrom a \<le> rsEpoch r" "rsEpoch r \<le> asTo a" "accepted r a q p"
proof (cases "lease_at q (rsAssignmentID r)")
  case None
  then show thesis using refused by (simp add: Accept_def)
next
  case (Some a)
  consider "asNonce a \<noteq> rsNonce r" | "asNonce a = rsNonce r" "now > asDeadline a"
    | "asNonce a = rsNonce r" "now \<le> asDeadline a" "rsEpoch r < asFrom a \<or> rsEpoch r > asTo a"
    | "asNonce a = rsNonce r" "now \<le> asDeadline a" "asFrom a \<le> rsEpoch r" "rsEpoch r \<le> asTo a"
    by linarith
  then show thesis
  proof cases
    case 1
    then show thesis using refused Some by (simp add: Accept_def)
  next
    case 2
    then show thesis using expired Some by (simp add: Accept_def)
  next
    case 3
    then show thesis using refused Some by (simp add: Accept_def not_less)
  next
    case 4
    have "fst (Accept now r q) = Inr ()" using 4 Some by (simp add: Accept_def not_less Let_def)
    then obtain p where p: "Accept now r q = (Inr (), p)" by (cases "Accept now r q") auto
    have "accepted r a q p"
      using p 4 Some by (auto simp: Accept_def accepted_def Let_def not_less unlease_def split: if_splits)
    then show thesis using taken[OF p Some] 4 by simp
  qed
qed

lemma Accept_ok:
  assumes "queue_ok q R"
  shows "queue_ok (snd (Accept now r q)) R"
proof (cases rule: Accept_cases[of now r q])
  case (refused e)
  then show ?thesis using assms by simp
next
  case (expired a)
  then show ?thesis using shrunk_ok[OF releaseLocked_shrunk assms] queue_okD(1)[OF assms] by simp
next
  case (taken a p)
  let ?k = "rsAssignmentID r"
  note q = queue_okD[OF assms]
  obtain sofar where sofar: "reported q ?k = Some sofar" "distinct sofar" "set sofar \<subset> {asFrom a..asTo a}"
    using q(2)[OF taken(2)] by auto
  let ?s = "List.insert (rsEpoch r) sofar"
  have f: "int (length ?s) = asTo a - asFrom a + 1 \<longleftrightarrow> set ?s = {asFrom a..asTo a}" "set ?s \<subseteq> {asFrom a..asTo a}"
    using insert_full[OF sofar(3,2), of "rsEpoch r"] taken(5,6) by auto
  have c: "retry p = retry q" "\<And>k n. attempts p k = Some n \<Longrightarrow> attempts q k = Some n"
    "if int (length ?s) = asTo a - asFrom a + 1
     then leased p = leased (unlease ?k q) \<and> reported p = (reported q)(?k := None)
     else leased p = leased q \<and> reported p = (reported q)(?k \<mapsto> ?s)"
    using taken(7) unfolding accepted_def Let_def sofar(1) option.case by blast+
  show ?thesis
  proof (cases "int (length ?s) = asTo a - asFrom a + 1")
    case True
    then have "shrunk p q" using c q(1) distinct_unlease[of q ?k] by (simp add: shrunk_def)
    then show ?thesis using shrunk_ok assms taken(1) by simp
  next
    case False
    then have l: "leased p = leased q" "reported p = (reported q)(?k \<mapsto> ?s)" using c(3) by simp_all
    have "queue_ok p R"
    proof (rule queue_okI)
      fix i b
      assume "lease_at p i = Some b"
      then have b: "lease_at q i = Some b" by (simp only: l)
      show "asID b = i \<and> asFrom b \<le> asTo b \<and>
        (\<exists>sofar. reported p i = Some sofar \<and> distinct sofar \<and> set sofar \<subset> {asFrom b..asTo b})"
      proof (cases "i = ?k")
        case True
        then have "b = a" using b taken(2) by simp
        then show ?thesis using q(2)[OF b] f False sofar(2) True by (simp add: l) auto
      next
        case False
        then show ?thesis using q(2)[OF b] by (simp add: l)
      qed
    next
      fix i b j d
      assume "lease_at p i = Some b" "lease_at p j = Some d" "i \<noteq> j" "ranges_meet b d"
      then show "i \<in> R \<or> j \<in> R" unfolding l(1) by (rule q(3))
    next
      fix k n
      assume "attempts p k = Some n"
      then show "n \<in> {1, 2}" using c(2) q(5) by blast
    next
      show "distinct (map fst (leased p))" using q(1) by (simp only: l)
    qed (use q(4) c(1) in simp)
    then show ?thesis using taken(1) by simp
  qed
qed

lemma Reschedule_ok:
  assumes "queue_ok q R"
  shows "queue_ok (snd (Reschedule now origin e q)) R"
proof -
  note q = queue_okD[OF assms]
  let ?n = "at0 (attempts q) (origin, e) + 1" and ?p = "snd (Reschedule now origin e q)"
  have n: "1 \<le> ?n" using q(5)[of "(origin, e)"] by (auto split: option.splits)
  have l: "leased ?p = leased q" "reported ?p = reported q" by (simp_all add: Reschedule_def Let_def)
  have k: "k = (origin, e) \<and> m = ?n \<and> ?n < 3 \<or> attempts q k = Some m" if "attempts ?p k = Some m" for k m
    using that by (auto simp: Reschedule_def maxAttempts_def Let_def split: if_splits)
  have att: "m \<in> {1, 2}" if "attempts ?p k = Some m" for k m using k[OF that] n q(5)[of k m] by auto
  have ret: "asFrom a = asTo a" if "a \<in> set (retry ?p)" for a
    using that q(4)[of a] by (auto simp: Reschedule_def Let_def split: if_splits)
  show ?thesis
    by (rule queue_okI) (unfold l, fact q(1), fact q(2), fact q(3), fact ret, fact att)
qed

lemma Done_ok: "queue_ok q R \<Longrightarrow> queue_ok (Done k q) R"
  using shrunk_ok[of "Done k q" q R] queue_okD(1)[of q R] distinct_unlease[of q k] by (simp add: Done_def shrunk_def)

lemma NewQueue_ok: "queue_ok (NewQueue d os) {}"
  by (simp add: queue_ok_def NewQueue_def)

subsection \<open>All interleavings\<close>

text \<open>
  The states the queue can be in, with calls of any number of workers interleaved at every
  point where the lock is free.  Each rule is one critical section; the answer of a source
  is any run that is not empty.
\<close>

inductive queue_reach :: "Queue \<Rightarrow> string set \<Rightarrow> bool" where
  start: "queue_reach (NewQueue d os) {}"
| lease: "queue_reach q R \<Longrightarrow> lease_begin has_source waiting worker can now nonce q = (pc, p) \<Longrightarrow>
    (\<And>a. pc \<noteq> Leased a) \<Longrightarrow> queue_reach p R"
| lease_retry: "queue_reach q R \<Longrightarrow> lease_begin has_source waiting worker can now nonce q = (Leased a, p) \<Longrightarrow>
    queue_reach p (insert (asID a) R)"
| answer: "queue_reach q R \<Longrightarrow> (\<And>f t. ans = Some (f, t) \<Longrightarrow> f \<le> t) \<Longrightarrow>
    queue_reach (snd (lease_answer worker can clock nonce origin at probe rest now ans q)) R"
| result: "queue_reach q R \<Longrightarrow> queue_reach (snd (Accept now r q)) R"
| failed: "queue_reach q R \<Longrightarrow> queue_reach (snd (Reschedule now origin e q)) R"
| reclaim: "queue_reach q R \<Longrightarrow> queue_reach (reclaimLocked now q) R"
| finish: "queue_reach q R \<Longrightarrow> queue_reach (Done k q) R"

lemma queue_reach_ok: "queue_reach q R \<Longrightarrow> queue_ok q R"
proof (induction rule: queue_reach.induct)
  case (lease q R has_source waiting worker can now nonce pc p)
  then show ?case using lease_begin_ok[OF lease(4,2)] by (cases pc) auto
next
  case (lease_retry q R has_source waiting worker can now nonce a p)
  then show ?case using lease_begin_ok[OF lease_retry(3,2)] by simp
next
  case (reclaim q R now)
  then show ?case using shrunk_ok[OF reclaimLocked_shrunk] queue_okD(1) by blast
qed (simp_all add: NewQueue_ok lease_answer_ok Accept_ok Reschedule_ok Done_ok)

text \<open>
C7. In every reachable state of the work queue, with the calls of all workers interleaved
  wherever the lock is free, two live leases of one log that were handed out from a source
  cover disjoint epochs; only a retry can overlap another lease.
\<close>

theorem leases_disjoint:
  assumes "queue_reach q R" "lease_at q i = Some a" "lease_at q j = Some b" "i \<noteq> j"
    and "i \<notin> R" "j \<notin> R" "asOrigin a = asOrigin b"
  shows "asTo a < asFrom b \<or> asTo b < asFrom a"
  using queue_okD(3)[OF queue_reach_ok[OF assms(1)] assms(2,3,4)] assms(5,6,7)
  unfolding ranges_meet_def by linarith

text \<open>
C31. In every reachable state a failed epoch is rescheduled as the attempt after the one
  counted, which is 1, 2 or 3. At 1 and 2 exactly one entry for that epoch is put at the end
  of the retry list, not to be handed out before one or two minutes have passed, and the
  count is kept; at 3 the retry list stays as it is, the count is forgotten and the epoch is
  left alone for a day. The store backoff computed from the attempt number is one hour at
  the third attempt and none before.
\<close>

theorem attempts_bounded:
  assumes "queue_reach q R"
  shows "case fst (Reschedule now origin e q) of (n, again) \<Rightarrow>
    n = (case attempts q (origin, e) of None \<Rightarrow> 1 | Some k \<Rightarrow> k + 1) \<and>
    n \<in> {1, 2, 3} \<and> (again \<longleftrightarrow> n < 3) \<and>
    deferred (snd (Reschedule now origin e q)) (origin, e) =
      Some (now + (if again then n * minute else 24 * hour)) \<and>
    (RetryAt now n = (if again then None else Some (now + hour))) \<and>
    (again \<longrightarrow> (\<exists>a. retry (snd (Reschedule now origin e q)) = retry q @ [a] \<and> asOrigin a = origin \<and> asFrom a = e \<and>
      asTo a = e \<and> asNotBefore a = Some (now + n * minute))) \<and>
    (\<not> again \<longrightarrow> retry (snd (Reschedule now origin e q)) = retry q) \<and>
    attempts (snd (Reschedule now origin e q)) (origin, e) = (if again then Some n else None)"
proof -
  let ?n = "at0 (attempts q) (origin, e) + 1"
  have e: "(case attempts q (origin, e) of None \<Rightarrow> 1 | Some k \<Rightarrow> k + 1) = ?n" by (simp split: option.split)
  have "?n = 1 \<or> ?n = 2 \<or> ?n = 3"
    using queue_okD(5)[OF queue_reach_ok[OF assms], of "(origin, e)"] by (auto split: option.splits)
  then show ?thesis unfolding e
    by (auto simp: Reschedule_def maxAttempts_def retryBase_def giveUpFor_def RetryAt_doubles_to_a_week
        hour_def Let_def simp del: One_nat_def)
qed

text \<open>A range is released by its last epoch, in whatever order and however often its epochs come in.\<close>

lemma Accept_once_gone: "lease_at q k = None \<Longrightarrow> rsAssignmentID r = k \<Longrightarrow> snd (Accept now r q) = q"
  by (simp add: Accept_def)

text \<open>
C30. A leased range is released exactly when every one of its epochs has been reported, in
  any order and with any repeats.
\<close>

theorem range_finished_when_all_in:
  assumes "queue_ok q R" "lease_at q k = Some a" "reported q k = Some sofar"
    and "\<forall>(t, r)\<in>set rs. rsAssignmentID r = k \<and> rsNonce r = asNonce a \<and> t \<le> asDeadline a \<and>
      asFrom a \<le> rsEpoch r \<and> rsEpoch r \<le> asTo a"
  shows "Finished k (fold (\<lambda>(t, r) q. snd (Accept t r q)) rs q) \<longleftrightarrow>
    set sofar \<union> (\<lambda>(t, r). rsEpoch r) ` set rs = {asFrom a..asTo a}"
  using assms
proof (induction rs arbitrary: q sofar)
  case Nil
  then show ?case using queue_okD(2)[OF Nil(1,2)] by (auto simp: Finished_def)
next
  case (Cons x rs)
  obtain t r where x: "x = (t, r)" by (cases x)
  have r: "rsAssignmentID r = k" "rsNonce r = asNonce a" "t \<le> asDeadline a" "asFrom a \<le> rsEpoch r" "rsEpoch r \<le> asTo a"
    using Cons(5) by (simp_all add: x)
  have s: "set sofar \<subset> {asFrom a..asTo a}" "distinct sofar" using queue_okD(2)[OF Cons(2,3)] Cons(4) by auto
  let ?s = "List.insert (rsEpoch r) sofar"
  have f: "int (length ?s) = asTo a - asFrom a + 1 \<longleftrightarrow> set ?s = {asFrom a..asTo a}" "set ?s \<subseteq> {asFrom a..asTo a}"
    using insert_full[OF s, of "rsEpoch r"] r(4,5) by auto
  have u: "set sofar \<union> (\<lambda>(t, r). rsEpoch r) ` set (x # rs) = set ?s \<union> (\<lambda>(t, r). rsEpoch r) ` set rs"
    by (auto simp: x)
  have sub: "(\<lambda>(t, r). rsEpoch r) ` set rs \<subseteq> {asFrom a..asTo a}" using Cons(5) by auto
  obtain p where p: "Accept t r q = (Inr (), p)" "accepted r a q p"
  proof (cases rule: Accept_cases[of t r q])
    case (refused e)
    then show thesis using r Cons(3) by (simp add: Accept_def Let_def split: if_splits)
  next
    case (expired b)
    then show thesis using r Cons(3) by (simp add: Accept_def Let_def split: if_splits)
  next
    case (taken b p)
    then show thesis using that[of p] r(1) Cons(3) by simp
  qed
  have ok: "queue_ok p R" using Accept_ok[OF Cons(2), of t r] p(1) by simp
  show ?case
  proof (cases "set ?s = {asFrom a..asTo a}")
    case True
    then have "lease_at p k = None"
      using p(2) f(1) Cons(4) r(1) map_of_unlease[of k q] by (simp add: accepted_def Let_def)
    then have "lease_at (fold (\<lambda>(t, r) q. snd (Accept t r q)) rs p) k = None"
      using Cons(5) by (induction rs) (auto simp: Accept_once_gone)
    then show ?thesis using True sub u p(1) by (auto simp: x Finished_def)
  next
    case False
    then have "leased p = leased q" "reported p k = Some ?s"
      using p(2) f(1) Cons(4) r(1) by (simp_all add: accepted_def Let_def)
    then show ?thesis using Cons(1)[OF ok _ _, of ?s] Cons(3,5) u p(1) by (simp add: x)
  qed
qed

text \<open>What a result is checked against: never the origin, never the worker it came from.\<close>

theorem Accept_ignores_origin_and_worker:
  "fst (Accept now (r\<lparr>rsOrigin := other, rsWorker := someone\<rparr>) q) = fst (Accept now r q) \<and>
   leased (snd (Accept now (r\<lparr>rsOrigin := other, rsWorker := someone\<rparr>) q)) = leased (snd (Accept now r q)) \<and>
   reported (snd (Accept now (r\<lparr>rsOrigin := other, rsWorker := someone\<rparr>) q)) = reported (snd (Accept now r q))"
  by (auto simp: Accept_def Let_def unlease_def split: option.splits)

subsection \<open>Leases from a source\<close>

lemma lease_answer_leased:
  assumes "lease_answer worker can clock nonce origin at probe rest now ans q = (Leased a, p)"
    and "\<And>f t. ans = Some (f, t) \<Longrightarrow> f \<le> t" "\<forall>x\<in>set (leased q). asFrom (snd x) \<le> asTo (snd x)"
  shows "\<exists>from till. ans = Some (from, till) \<and> from \<le> asFrom a \<and> asFrom a \<le> asTo a \<and> asTo a \<le> till \<and>
    asOrigin a = origin \<and> asWorker a = worker \<and> lease_at p (asID a) = Some a \<and>
    (\<forall>e. asFrom a \<le> e \<and> e \<le> asTo a \<longrightarrow> \<not> busy q origin e \<and> \<not> is_deferred q origin clock e)"
proof -
  have np: "pick_origin can r os t \<noteq> Leased b" for r os t b by (induction os) auto
  obtain ft where ft: "ans = Some ft" using assms(1) np by (cases ans) (auto simp: lease_answer_def Let_def)
  obtain from0 till where fts: "ft = (from0, till)" by (cases ft)
  obtain f t free nxt where tl: "trimLeasedLocked q origin from0 till = (f, t, free, nxt)" by (cases "trimLeasedLocked q origin from0 till")
  obtain f2 t2 free2 where td: "(if free then trimDeferredLocked q origin f t clock else (f, t, False)) = (f2, t2, free2)"
    by (cases "if free then trimDeferredLocked q origin f t clock else (f, t, False)")
  have free2: free2
    using assms(1) np by (rule_tac ccontr) (auto simp: lease_answer_def Let_def ft fts tl td split: if_splits)
  then have fr: free using td by (cases free) auto
  then have td2: "trimDeferredLocked q origin f t clock = (f2, t2, True)" using td free2 by simp
  have le: "from0 \<le> till" using assms(2) ft fts by simp
  have x: "from0 \<le> f" "f \<le> t" "t \<le> till" "\<forall>e. f \<le> e \<and> e \<le> t \<longrightarrow> \<not> busy q origin e"
    using trimLeased_spec[OF le assms(3), of origin] fr by (simp_all add: tl)
  have y: "f \<le> f2" "f2 \<le> t2" "t2 \<le> t" "\<forall>e. f2 \<le> e \<and> e \<le> t2 \<longrightarrow> \<not> is_deferred q origin clock e"
    using trimDeferredLocked_exact[OF x(2), of q origin clock] by (simp_all add: td2)
  have a: "asFrom a = f2" "asTo a = t2" "asOrigin a = origin" "asWorker a = worker" "lease_at p (asID a) = Some a"
    using assms(1) by (auto simp: lease_answer_def Let_def ft fts tl td2 fr handOutLocked_def)
  then show ?thesis using ft fts x y by (intro exI[of _ from0] exI[of _ till]) auto
qed

lemma lease_answer_keeps:
  assumes "lease_answer worker can clock nonce origin at probe rest now ans q = (pc, p)" "\<And>b. pc \<noteq> Leased b"
  shows "leased p = leased q"
proof (cases ans)
  case None
  then show ?thesis using assms(1) by (auto simp: lease_answer_def Let_def)
next
  case (Some ft)
  obtain from0 till where fts: "ft = (from0, till)" by (cases ft)
  obtain f t free nxt where tl: "trimLeasedLocked q origin from0 till = (f, t, free, nxt)" by (cases "trimLeasedLocked q origin from0 till")
  obtain f2 t2 free2 where td: "(if free then trimDeferredLocked q origin f t clock else (f, t, False)) = (f2, t2, free2)"
    by (cases "if free then trimDeferredLocked q origin f t clock else (f, t, False)")
  show ?thesis
  proof (cases free2)
    case False
    then show ?thesis using assms(1) by (auto simp: lease_answer_def Let_def Some fts tl td split: if_splits)
  next
    case True
    then have fr: free using td by (cases free) auto
    then have td2: "trimDeferredLocked q origin f t clock = (f2, t2, True)" using td True by simp
    have "\<exists>b. pc = Leased b"
      using assms(1) by (auto simp: lease_answer_def Let_def Some fts tl td2 fr handOutLocked_def)
    then show ?thesis using assms(2) by blast
  qed
qed

locale work_source =
  fixes src :: source
  assumes run: "1 \<le> n \<Longrightarrow> src origin after n = Some (f, t) \<Longrightarrow> after \<le> f \<and> f \<le> t \<and> t < f + n"
begin

lemma scan_run:
  assumes "1 \<le> n" "scanFor src origin at n = Some (f, t)"
  shows "f \<le> t \<and> t < f + n"
proof -
  have "src origin at n = Some (f, t) \<or> src origin 0 n = Some (f, t)"
    using assms(2) by (auto simp: scanFor_def split: option.splits if_splits)
  then show ?thesis using run[OF assms(1)] by metis
qed

lemma lease_loop_fits:
  assumes "fst (lease_loop src worker can want now nonce (pc, q)) = Inr a" "1 \<le> want"
    and "\<forall>x\<in>set (leased q). asFrom (snd x) \<le> asTo (snd x)"
    and "\<And>b. pc = Leased b \<Longrightarrow> asFrom b \<le> asTo b \<and> asTo b - asFrom b < want"
  shows "asFrom a \<le> asTo a \<and> asTo a - asFrom a < want"
  using assms
proof (induction "pc_size pc" arbitrary: pc q rule: less_induct)
  case less
  show ?case
  proof (cases pc)
    case (Ask origin at probe rest t)
    let ?ans = "scanFor src origin at want"
    obtain pc' p where a: "lease_answer worker can now nonce origin at probe rest t ?ans q = (pc', p)" by fastforce
    have r: "f \<le> g \<and> g < f + want" if "?ans = Some (f, g)" for f g using scan_run[OF less(3) that] .
    have fits: "asFrom b \<le> asTo b \<and> asTo b - asFrom b < want" if pb: "pc' = Leased b" for b
    proof -
      obtain f g where fg: "?ans = Some (f, g)" "f \<le> asFrom b" "asFrom b \<le> asTo b" "asTo b \<le> g"
        using lease_answer_leased[OF a[unfolded pb] _ less(4)] r by blast
      then show ?thesis using r[OF fg(1)] by linarith
    qed
    have loop: "fst (lease_loop src worker can want now nonce (pc', p)) = Inr a" using less(2) Ask by (simp add: a)
    show ?thesis
    proof (cases "\<exists>b. pc' = Leased b")
      case True
      then obtain b where b: "pc' = Leased b" by blast
      then show ?thesis using fits[OF b] loop by simp
    next
      case False
      then have "leased p = leased q" using lease_answer_keeps[OF a] by blast
      then have inv: "\<forall>x\<in>set (leased p). asFrom (snd x) \<le> asTo (snd x)" using less(4) by (simp only:)
      have sz: "pc_size pc' < pc_size pc"
        using lease_answer_size[of worker can now nonce origin at probe rest t ?ans q]
        unfolding a fst_conv Ask .
      show ?thesis by (rule less(1)[OF sz loop less(3) inv fits])
    qed
  next
    case (Leased b)
    then show ?thesis using less(2,5) by simp
  next
    case NoWork
    then show ?thesis using less(2) by simp
  qed
qed

lemma Lease_fits:
  assumes "fst (Lease (Some src) waiting worker can want now nonce q) = Inr a" "queue_ok q R"
  shows "asFrom a \<le> asTo a \<and> asTo a - asFrom a < max 1 want"
proof -
  obtain pc p where b: "lease_begin True waiting worker can now nonce q = (pc, p)" by fastforce
  have ok: "queue_ok p (case pc of Leased a \<Rightarrow> insert (asID a) R | _ \<Rightarrow> R)" by (rule lease_begin_ok[OF assms(2) b])
  have rc: "queue_ok (reclaimLocked now q) R"
    using shrunk_ok[OF reclaimLocked_shrunk assms(2)] queue_okD(1)[OF assms(2)] by simp
  have np: "pick_origin can r os t \<noteq> Leased c" for r os t c by (induction os) auto
  have one: "asFrom c \<le> asTo c \<and> asTo c - asFrom c < (if want < 1 then 1 else want)" if pc: "pc = Leased c" for c
  proof -
    obtain d rest where d: "take_retry can now (retry (reclaimLocked now q)) = Some (d, rest)"
      using b np pc by (auto simp: lease_begin_def Let_def split: option.splits if_splits)
    then have "asFrom d = asTo d" using queue_okD(4)[OF rc] take_retry_mem by blast
    moreover have "asFrom c = asFrom d \<and> asTo c = asTo d"
      using b pc d by (auto simp: lease_begin_def Let_def handOutLocked_def)
    ultimately show ?thesis by simp
  qed
  have "\<forall>x\<in>set (leased p). asFrom (snd x) \<le> asTo (snd x)"
    using queue_okD(1,2)[OF ok] by fastforce
  then have "asFrom a \<le> asTo a \<and> asTo a - asFrom a < (if want < 1 then 1 else want)"
    by (rule lease_loop_fits[rotated 2]) (use assms(1) b one in \<open>simp_all add: Lease_def\<close>)
  then show ?thesis by (simp add: max_def split: if_splits)
qed

end

lemma first_scan_bounds: "first_scan till want b = Some f \<Longrightarrow> want \<le> f \<and> f \<le> till"
  by (induction till want b rule: first_scan.induct) (auto split: if_splits)

interpretation store_source: work_source "storeSource s" for s
proof
  fix n after f t :: int and origin
  assume n: "1 \<le> n" "storeSource s origin after n = Some (f, t)"
  obtain h where hs: "histories s origin = Some h" using n(2) by (auto simp: storeSource_def split: option.splits)
  have h: "FirstUnverified origin (if after < hiFrom h then hiFrom h else after) (hiTo h) s = Some f"
    "t = (if f + n - 1 > hiTo h then hiTo h else f + n - 1)"
    using n(2) by (auto simp: storeSource_def hs Let_def split: option.splits if_splits)
  have "(if after < hiFrom h then hiFrom h else after) \<le> f" "f \<le> hiTo h"
    using first_scan_bounds h(1) by (auto simp: FirstUnverified_def split: if_splits)
  then show "after \<le> f \<and> f \<le> t \<and> t < f + n" using n(1) h(2) by (auto split: if_splits)
qed

theorem fresh_lease_is_free:
  assumes "queue_reach q R" "\<forall>f t. ans = Some (f, t) \<longrightarrow> f \<le> t"
    and "lease_answer worker can clock nonce origin at probe rest now ans q = (Leased a, p)"
  shows "\<exists>from till. ans = Some (from, till) \<and> from \<le> asFrom a \<and> asFrom a \<le> asTo a \<and> asTo a \<le> till \<and>
    asOrigin a = origin \<and> asWorker a = worker \<and> lease_at p (asID a) = Some a \<and>
    (\<forall>e. asFrom a \<le> e \<and> e \<le> asTo a \<longrightarrow> \<not> busy q origin e \<and> \<not> is_deferred q origin clock e)"
proof -
  have "\<forall>x\<in>set (leased q). asFrom (snd x) \<le> asTo (snd x)"
    using queue_okD(1,2)[OF queue_reach_ok[OF assms(1)]] by fastforce
  then show ?thesis using lease_answer_leased[OF assms(3)] assms(2) by blast
qed

theorem store_lease_fits:
  assumes "queue_reach q R" "fst (Lease (Some (storeSource s)) waiting worker can want now nonce q) = Inr a"
  shows "asFrom a \<le> asTo a \<and> asTo a - asFrom a < max 1 want"
  by (rule store_source.Lease_fits[OF assms(2) queue_reach_ok[OF assms(1)]])

subsection \<open>Concrete runs\<close>

definition demo_source :: source where
  "demo_source origin after n =
     (if after \<le> 10 then Some (10, 20) else if after \<le> 20 then Some (after, 20) else None)"

definition demo_lease :: "string \<Rightarrow> int \<Rightarrow> int \<Rightarrow> Assignment" where
  "demo_lease k f t = \<lparr>asID = k, asOrigin = ''log'', asFrom = f, asTo = t, asNonce = ''n'', asNotBefore = None,
     asDeadline = 1000, asWorker = ''w''\<rparr>"

text \<open>
  The scan has wrapped: the cursor is past the run the source answers with.  The lease at
  its middle moves the search to the end of the run, past the three free epochs behind it,
  on every probe; a worker is told there is no work.
\<close>

definition wrapped_queue :: Queue where
  "wrapped_queue = (NewQueue 0 [''log''])\<lparr>cursor := [''log'' \<mapsto> 100],
     leased := [(''a'', demo_lease ''a'' 15 17)], reported := [''a'' \<mapsto> []],
     deferred := [(''log'', 10) \<mapsto> 500, (''log'', 11) \<mapsto> 500, (''log'', 12) \<mapsto> 500, (''log'', 13) \<mapsto> 500,
       (''log'', 14) \<mapsto> 500]\<rparr>"

theorem wrapped_scan_misses_free_epochs:
  "fst (Lease (Some demo_source) None ''v'' [] 11 0 ''m'' wrapped_queue) = Inl ErrNoWork \<and>
   demo_source ''log'' 18 11 = Some (18, 20) \<and>
   \<not> busy wrapped_queue ''log'' 18 \<and> \<not> busy wrapped_queue ''log'' 19 \<and> \<not> busy wrapped_queue ''log'' 20 \<and>
   \<not> is_deferred wrapped_queue ''log'' 0 18 \<and> \<not> is_deferred wrapped_queue ''log'' 0 19 \<and>
   \<not> is_deferred wrapped_queue ''log'' 0 20"
proof -
  have "fst (Lease (Some demo_source) None ''v'' [] 11 0 ''m'' wrapped_queue) = Inl ErrNoWork" by code_simp
  moreover have "demo_source ''log'' 18 11 = Some (18, 20)" by (simp add: demo_source_def)
  moreover have "\<not> busy wrapped_queue ''log'' e \<and> \<not> is_deferred wrapped_queue ''log'' 0 e" if "18 \<le> e" "e \<le> 20" for e
    using that by (auto simp: busy_def covers_def is_deferred_def wrapped_queue_def demo_lease_def NewQueue_def)
  ultimately show ?thesis by simp
qed

text \<open>
  A failed epoch comes back on the retry list while the rest of its range is still out; the
  retry is handed to another worker, and both hold a live lease on the epoch.
\<close>

definition first_lease :: "Assignment \<times> Queue" where
  "first_lease = (case lease_answer ''v'' [] 0 ''m'' ''log'' 0 0 [] 0 (Some (5, 6)) (NewQueue 0 [''log'']) of
     (pc, q) \<Rightarrow> (case pc of Leased a \<Rightarrow> (a, q) | _ \<Rightarrow> (demo_lease [] 0 0, q)))"

definition after_failure :: Queue where
  "after_failure = snd (Reschedule 0 ''log'' 5 (snd (Accept 0
     \<lparr>rsAssignmentID = asID (fst first_lease), rsNonce = ''m'', rsOrigin = ''log'', rsEpoch = 5, rsComputedPrev = [],
      rsComputedCurr = [], rsVerified = False, rsWorker = ''v'', rsDurationMS = 1, rsErr = ''gone''\<rparr>
     (snd first_lease))))"

definition retried :: Queue where
  "retried = snd (lease_begin False None ''u'' [] minute ''k'' after_failure)"

theorem retry_meets_live_lease:
  "fst (LeasedBy minute ''v'' ''log'' 5 retried) \<and> fst (LeasedBy minute ''u'' ''log'' 5 retried)"
  by code_simp

lemma first_lease_reach: "queue_reach (snd first_lease) {}"
proof -
  have "snd first_lease = snd (lease_answer ''v'' [] 0 ''m'' ''log'' 0 0 [] 0 (Some (5, 6)) (NewQueue 0 [''log'']))"
    by (simp add: first_lease_def split: prod.split lease_pc.split)
  also have "queue_reach \<dots> {}" by (rule queue_reach.answer[OF queue_reach.start]) simp
  finally show ?thesis .
qed

lemma after_failure_reach: "queue_reach after_failure {}"
  unfolding after_failure_def by (intro queue_reach.failed queue_reach.result first_lease_reach)

text \<open>Two leases of one log, side by side.\<close>

definition two_leases :: Queue where
  "two_leases = snd (lease_answer ''u'' [] 0 ''k'' ''log'' 0 0 [] 0 (Some (5, 9)) (snd first_lease))"

theorem leases_disjoint_witness:
  "asTo (the (lease_at two_leases ''log#1'')) < asFrom (the (lease_at two_leases ''log#2'')) \<or>
   asTo (the (lease_at two_leases ''log#2'')) < asFrom (the (lease_at two_leases ''log#1''))"
proof (rule leases_disjoint)
  show "queue_reach two_leases {}"
    unfolding two_leases_def by (rule queue_reach.answer[OF first_lease_reach]) simp
  show "lease_at two_leases ''log#1'' = Some (the (lease_at two_leases ''log#1''))" by code_simp
  show "lease_at two_leases ''log#2'' = Some (the (lease_at two_leases ''log#2''))" by code_simp
  show "asOrigin (the (lease_at two_leases ''log#1'')) = asOrigin (the (lease_at two_leases ''log#2''))" by code_simp
qed simp_all

theorem fresh_lease_is_free_witness:
  "\<exists>a p. lease_answer ''u'' [] 0 ''k'' ''log'' 0 0 [] 0 (Some (5, 9)) (snd first_lease) = (Leased a, p) \<and>
     asFrom a = 7 \<and> \<not> busy (snd first_lease) ''log'' 7"
proof -
  have e: "fst (lease_answer ''u'' [] 0 ''k'' ''log'' 0 0 [] 0 (Some (5, 9)) (snd first_lease)) =
      Leased \<lparr>asID = ''log#2'', asOrigin = ''log'', asFrom = 7, asTo = 9, asNonce = ''k'', asNotBefore = None,
        asDeadline = 2 * minute, asWorker = ''u''\<rparr>" by code_simp
  then obtain a p where a: "lease_answer ''u'' [] 0 ''k'' ''log'' 0 0 [] 0 (Some (5, 9)) (snd first_lease) = (Leased a, p)"
    "asFrom a = 7" "asTo a = 9" by (metis (no_types, lifting) Assignment.select_convs(3,4) prod.collapse)
  show ?thesis using fresh_lease_is_free[OF first_lease_reach _ a(1)] a by force
qed

theorem trimLeasedLocked_exact_witness:
  "trimLeasedLocked wrapped_queue ''log'' 10 20 = (10, 14, True, 15) \<and> busy wrapped_queue ''log'' 15 \<and>
   \<not> busy wrapped_queue ''log'' 14"
proof -
  have e: "trimLeasedLocked wrapped_queue ''log'' 10 20 = (10, 14, True, 15)" by code_simp
  have "\<forall>x\<in>set (leased wrapped_queue). asFrom (snd x) \<le> asTo (snd x)"
    by (simp add: wrapped_queue_def demo_lease_def)
  from trimLeasedLocked_exact[OF _ this, of 10 20 "''log''"] show ?thesis by (simp add: e)
qed

theorem attempts_bounded_witness:
  "fst (Reschedule minute ''log'' 5 after_failure) = (2, True) \<and>
   (\<exists>a. retry (snd (Reschedule minute ''log'' 5 after_failure)) = retry after_failure @ [a] \<and> asFrom a = 5 \<and>
     asNotBefore a = Some (3 * minute))"
proof -
  have n: "fst (Reschedule minute ''log'' 5 after_failure) = (2, True)" by code_simp
  then show ?thesis
    using attempts_bounded[OF after_failure_reach, where now = minute and origin = "''log''" and e = 5] by auto
qed

definition demo_result :: "int \<Rightarrow> Result" where
  "demo_result e = \<lparr>rsAssignmentID = ''log#1'', rsNonce = ''m'', rsOrigin = ''log'', rsEpoch = e, rsComputedPrev = [],
      rsComputedCurr = [], rsVerified = False, rsWorker = ''v'', rsDurationMS = 1, rsErr = []\<rparr>"

theorem range_finished_when_all_in_witness:
  "Finished ''log#1'' (fold (\<lambda>(t, r) q. snd (Accept t r q)) [(0, demo_result 6), (1, demo_result 6), (2, demo_result 5)]
     (snd first_lease))"
proof -
  have l: "lease_at (snd first_lease) ''log#1'' = Some \<lparr>asID = ''log#1'', asOrigin = ''log'', asFrom = 5, asTo = 6,
      asNonce = ''m'', asNotBefore = None, asDeadline = 2 * minute, asWorker = ''v''\<rparr>" by code_simp
  have r: "reported (snd first_lease) ''log#1'' = Some []" by code_simp
  have "{6::int, 5} = {5..6}" by auto
  then show ?thesis
    using range_finished_when_all_in[OF queue_reach_ok[OF first_lease_reach] l r,
        of "[(0, demo_result 6), (1, demo_result 6), (2, demo_result 5)]"]
    by (simp add: demo_result_def minute_def insert_absorb del: fold_simps)
qed

theorem LeasedBy_exact_witness: "fst (LeasedBy 0 ''v'' ''log'' 6 (snd first_lease))"
proof -
  have l: "lease_at (snd first_lease) ''log#1'' = Some \<lparr>asID = ''log#1'', asOrigin = ''log'', asFrom = 5, asTo = 6,
      asNonce = ''m'', asNotBefore = None, asDeadline = 2 * minute, asWorker = ''v''\<rparr>" by code_simp
  show ?thesis
    unfolding LeasedBy_exact[OF queue_reach_ok[OF first_lease_reach]]
    by (intro exI conjI, rule l) (simp_all add: covers_def minute_def)
qed

text \<open>The store names a run by its first epoch only: what follows may be verified already.\<close>

definition windowed :: AuditStore where
  "windowed = RecordHistory (window 0) audited"

theorem store_source_repeats_verified:
  "storeSource windowed ''log'' 0 5 = Some (3, 7) \<and> is_verified ''log'' windowed 5"
  by code_simp

theorem store_lease_fits_witness:
  "case Lease (Some (storeSource windowed)) None ''v'' [''log''] 5 0 ''m'' (NewQueue 0 [''log'']) of (r, _) \<Rightarrow>
     (case r of Inl _ \<Rightarrow> False | Inr a \<Rightarrow> asFrom a = 3 \<and> asTo a - asFrom a < max 1 5)"
proof -
  let ?L = "Lease (Some (storeSource windowed)) None ''v'' [''log''] 5 0 ''m'' (NewQueue 0 [''log''])"
  have "(case fst ?L of Inl _ \<Rightarrow> False | Inr a \<Rightarrow> asFrom a = 3)" by code_simp
  then obtain a where a: "fst ?L = Inr a" "asFrom a = 3" by (auto split: sum.splits)
  have "asTo a - asFrom a < max 1 5" using store_lease_fits[OF queue_reach.start a(1)] by simp
  then show ?thesis using a by (simp add: case_prod_beta)
qed

end
