(* ===== verification/Akd_Tree.thy ===== *)
theory Akd_Tree
  imports KT_Prelude "HOL-Library.List_Lexorder" "HOL-Library.Product_Lexorder" "HOL-Library.Multiset"
begin

text \<open>
  The append-only verifier of AKD logs, \<open>internal/akdtree/verify.go\<close>: a compressed binary
  trie over node labels, hashed bottom-up from one sorted slice, and the check that an
  epoch's proof takes the previous root to the current one.

  BLAKE3 is a parameter \<open>b3\<close>; \<open>[32]byte\<close> values are byte lists of length 32, a length
  field stays a 32-bit word, and the bit positions computed from it, which never pass
  256 without a panic, are natural numbers.  An index out of a label's 32 bytes is the
  error \<open>IndexPanic\<close>.
\<close>

subsection \<open>Elements and hashes\<close>

record Element =
  Label :: bytes
  Len :: u32
  Value :: bytes

text \<open>\<open>copy(buf[:n], a)\<close> into a buffer of zeros.\<close>

definition copy_into :: "nat \<Rightarrow> bytes \<Rightarrow> bytes" where
  "copy_into n a = take n a @ replicate (n - length a) 0"

lemma copy_into_exact [simp]: "length a = n \<Longrightarrow> copy_into n a = a"
  by (simp add: copy_into_def)

lemma length_copy_into [simp, len_simps]: "length (copy_into n a) = n"
  by (simp add: copy_into_def)

definition hash2 :: "(bytes \<Rightarrow> bytes) \<Rightarrow> bytes \<Rightarrow> bytes \<Rightarrow> bytes" where
  "hash2 b3 a b = b3 (copy_into 32 a @ copy_into 32 b)"

definition emptyLabelVal :: bytes where
  "emptyLabelVal = replicate 32 1"

definition labelValue :: "(bytes \<Rightarrow> bytes) \<Rightarrow> bytes \<Rightarrow> u32 \<Rightarrow> bytes" where
  "labelValue b3 label l = b3 (be32 l @ label)"

definition parentHash :: "(bytes \<Rightarrow> bytes) \<Rightarrow> bytes \<Rightarrow> bytes \<Rightarrow> bytes \<Rightarrow> bytes \<Rightarrow> bytes" where
  "parentHash b3 lv ll rv rl = hash2 b3 (hash2 b3 lv ll) (hash2 b3 rv rl)"

definition HashLeafWithCommitment :: "(bytes \<Rightarrow> bytes) \<Rightarrow> bytes \<Rightarrow> u64 \<Rightarrow> bytes" where
  "HashLeafWithCommitment b3 v epoch = b3 (copy_into 32 v @ be64 epoch)"

definition emptyRootValueV :: "(bytes \<Rightarrow> bytes) \<Rightarrow> bytes" where
  "emptyRootValueV b3 = b3 [0]"

definition emptyLabelValueV :: "(bytes \<Rightarrow> bytes) \<Rightarrow> bytes" where
  "emptyLabelValueV b3 = labelValue b3 emptyLabelVal 0"

definition emptyNodeHashV :: "(bytes \<Rightarrow> bytes) \<Rightarrow> bytes" where
  "emptyNodeHashV b3 = hash2 b3 (b3 [0]) (labelValue b3 emptyLabelVal 0)"

definition rootLabelValueV :: "(bytes \<Rightarrow> bytes) \<Rightarrow> bytes" where
  "rootLabelValueV b3 = labelValue b3 (replicate 32 0) 0"

subsection \<open>Labels as bit strings\<close>

text \<open>Bit \<open>i\<close>, most significant bit of byte 0 first; callers check \<open>i < 256\<close>.\<close>

definition bitAt :: "bytes \<Rightarrow> nat \<Rightarrow> nat" where
  "bitAt label i = of_bool (bit (label ! (i div 8)) (7 - i mod 8))"

function cpl_loop :: "bytes \<Rightarrow> bytes \<Rightarrow> nat \<Rightarrow> nat \<Rightarrow> nat option" where
  "cpl_loop a b shorter i =
     (if i < shorter then
        (if 32 \<le> i div 8 then None
         else if i mod 8 = 0 \<and> i + 8 \<le> shorter \<and> a ! (i div 8) = b ! (i div 8)
         then cpl_loop a b shorter (i + 8)
         else if bitAt a i \<noteq> bitAt b i then Some i
         else cpl_loop a b shorter (i + 1))
      else Some i)"
  by pat_completeness auto
termination by (relation "measure (\<lambda>(a, b, shorter, i). shorter - i)") auto

declare cpl_loop.simps [simp del]

definition commonPrefixLen :: "Element \<Rightarrow> Element \<Rightarrow> nat option" where
  "commonPrefixLen a b = cpl_loop (Label a) (Label b) (unat (min (Len a) (Len b))) 0"

definition prefixOf :: "bytes \<Rightarrow> nat \<Rightarrow> bytes" where
  "prefixOf label l =
     (if l \<ge> 256 then label
      else if l = 0 then replicate 32 0
      else let lst = (l - 1) div 8; rem = (l - 1) mod 8
           in take lst label @ [push_bit (7 - rem) (drop_bit (7 - rem) (label ! lst))]
                @ replicate (31 - lst) 0)"

subsection \<open>Sorting and merging\<close>

text \<open>
  \<open>Sort\<close> uses \<open>slices.SortFunc\<close>, which may leave elements that compare equal in any order;
  the model leaves them in the order given.  Two such elements have one label and length,
  and a set that holds both is refused (theorem \<open>accepted_labels_distinct\<close>).
\<close>

definition sort_keyof :: "Element \<Rightarrow> bytes \<times> u32" where
  "sort_keyof e = (Label e, Len e)"

definition Sort :: "Element list \<Rightarrow> Element list" where
  "Sort elems = sort_key sort_keyof elems"

definition less_elem :: "Element \<Rightarrow> Element \<Rightarrow> bool" where
  "less_elem a b = (if Label a \<noteq> Label b then Label a < Label b else Len a < Len b)"

fun merge_elems :: "Element list \<Rightarrow> Element list \<Rightarrow> Element list" where
  "merge_elems [] bs = bs"
| "merge_elems as [] = as"
| "merge_elems (a # as) (b # bs) =
     (if less_elem a b then a # merge_elems as (b # bs) else b # merge_elems (a # as) bs)"

subsection \<open>The trie\<close>

text \<open>\<open>sort.Search\<close>: binary search for the first index where \<open>f\<close> holds.\<close>

function search_loop :: "(nat \<Rightarrow> bool) \<Rightarrow> nat \<Rightarrow> nat \<Rightarrow> nat" where
  "search_loop f i j =
     (if i < j then let h = (i + j) div 2 in if f h then search_loop f i h else search_loop f (h + 1) j
      else i)"
  by pat_completeness auto
termination by (relation "measure (\<lambda>(f, i, j). j - i)") auto

declare search_loop.simps [simp del]

definition Search :: "nat \<Rightarrow> (nat \<Rightarrow> bool) \<Rightarrow> nat" where
  "Search n f = search_loop f 0 n"

lemma search_loop_bounds:
  "i \<le> j \<Longrightarrow> i \<le> search_loop f i j \<and> search_loop f i j \<le> j"
proof (induction f i j rule: search_loop.induct)
  case (1 f i j)
  show ?case
  proof (cases "i < j")
    case True
    then have "i \<le> (i + j) div 2" "(i + j) div 2 + 1 \<le> j" by auto
    then show ?thesis using 1 True by (subst (1 2) search_loop.simps) (force simp: Let_def)
  next
    case False
    then show ?thesis using 1(3) by (subst (1 2) search_loop.simps) simp
  qed
qed

lemma search_loop_spec:
  "i \<le> j \<Longrightarrow> (search_loop f i j = i \<or> \<not> f (search_loop f i j - 1)) \<and> (search_loop f i j = j \<or> f (search_loop f i j))"
proof (induction f i j rule: search_loop.induct)
  case (1 f i j)
  show ?case
  proof (cases "i < j")
    case True
    let ?h = "(i + j) div 2"
    have h: "i \<le> ?h" "?h + 1 \<le> j" using True by auto
    show ?thesis
    proof (cases "f ?h")
      case f: True
      have "search_loop f i j = search_loop f i ?h" using True f by (subst search_loop.simps) (simp add: Let_def)
      then show ?thesis using 1(1)[OF True refl f h(1)] f by auto
    next
      case f: False
      have "search_loop f i j = search_loop f (?h + 1) j" using True f by (subst search_loop.simps) (simp add: Let_def)
      then show ?thesis using 1(2)[OF True refl f h(2)] f by auto
    qed
  next
    case False
    then show ?thesis using 1(3) by (subst (1 2 3 4) search_loop.simps) simp
  qed
qed

lemma Search_le [simp]: "Search n f \<le> n"
  using search_loop_bounds[of 0 n f] by (simp add: Search_def)

lemma Search_spec:
  "Search n f = 0 \<or> \<not> f (Search n f - 1)" "Search n f = n \<or> f (Search n f)"
  using search_loop_spec[of 0 n f] by (auto simp: Search_def)

datatype akd_error = IndexPanic | SitsOnInterior nat | NotSplit nat nat

function subtree_hash :: "(bytes \<Rightarrow> bytes) \<Rightarrow> Element list \<Rightarrow> nat \<Rightarrow> akd_error + bytes \<times> bytes" where
  "subtree_hash b3 elems depth =
     (if elems = [] then Inr (emptyNodeHashV b3, emptyLabelValueV b3)
      else if length elems = 1 then
        Inr (Value (elems ! 0), labelValue b3 (Label (elems ! 0)) (Len (elems ! 0)))
      else case commonPrefixLen (elems ! 0) (elems ! (length elems - 1)) of
        None \<Rightarrow> Inl IndexPanic
      | Some lcp \<Rightarrow>
          if unat (Len (elems ! 0)) = lcp then Inl (SitsOnInterior lcp)
          else if 256 \<le> lcp then Inl IndexPanic
          else let split = Search (length elems) (\<lambda>i. bitAt (Label (elems ! i)) lcp = 1)
               in if split = 0 \<or> split = length elems then Inl (NotSplit (length elems) lcp)
                  else (case subtree_hash b3 (take split elems) (lcp + 1) of
                          Inl e \<Rightarrow> Inl e
                        | Inr (lv, ll) \<Rightarrow>
                            (case subtree_hash b3 (drop split elems) (lcp + 1) of
                               Inl e \<Rightarrow> Inl e
                             | Inr (rv, rl) \<Rightarrow>
                                 Inr (parentHash b3 lv ll rv rl,
                                      labelValue b3 (prefixOf (Label (elems ! 0)) lcp) (of_nat lcp)))))"
  by pat_completeness auto
termination
proof (relation "measure (\<lambda>(b3, elems, depth). length elems)", goal_cases)
  case (2 b3 elems depth lcp split)
  have "split \<le> length elems" using 2 by simp
  moreover have "split \<noteq> length elems" using 2 by blast
  ultimately have "split < length elems" by (rule le_neq_implies_less)
  then show ?case by simp
next
  case (3 b3 elems depth lcp split)
  then have "split \<noteq> 0" by blast
  moreover have "elems \<noteq> []" using 3 by blast
  ultimately show ?case by simp
qed auto

definition akd_Root :: "(bytes \<Rightarrow> bytes) \<Rightarrow> Element list \<Rightarrow> akd_error + bytes" where
  "akd_Root b3 elems =
     (if length elems = 0 then Inr (hash2 b3 (emptyRootValueV b3) (rootLabelValueV b3))
      else let split = Search (length elems) (\<lambda>i. bitAt (Label (elems ! i)) 0 = 1)
           in case subtree_hash b3 (take split elems) 0 of
                Inl e \<Rightarrow> Inl e
              | Inr (lv, ll) \<Rightarrow>
                  (case subtree_hash b3 (drop split elems) 0 of
                     Inl e \<Rightarrow> Inl e
                   | Inr (rv, rl) \<Rightarrow> Inr (hash2 b3 (parentHash b3 lv ll rv rl) (rootLabelValueV b3))))"

subsection \<open>The check of one epoch\<close>

datatype roots_error = RebuildPrev akd_error | RebuildCurr akd_error

text \<open>
  \<open>Roots\<close> sorts \<open>unchanged\<close> in place and replaces the values of \<open>inserted\<close> by their
  commitments; the two slices as the call leaves them are returned beside the result.
\<close>

definition Roots :: "(bytes \<Rightarrow> bytes) \<Rightarrow> Element list \<Rightarrow> Element list \<Rightarrow> u64 \<Rightarrow>
    (roots_error + bytes \<times> bytes) \<times> Element list \<times> Element list" where
  "Roots b3 unchanged inserted endEpoch =
     (let unchanged = Sort unchanged
      in case akd_Root b3 unchanged of
           Inl e \<Rightarrow> (Inl (RebuildPrev e), unchanged, inserted)
         | Inr prev \<Rightarrow>
             (let inserted = map (\<lambda>e. e\<lparr>Value := HashLeafWithCommitment b3 (Value e) endEpoch\<rparr>) inserted;
                  inserted = Sort inserted;
                  both = merge_elems unchanged inserted
              in case akd_Root b3 both of
                   Inl e \<Rightarrow> (Inl (RebuildCurr e), unchanged, inserted)
                 | Inr cur \<Rightarrow> (Inr (prev, cur), unchanged, inserted)))"

definition VerifyAppendOnly :: "(bytes \<Rightarrow> bytes) \<Rightarrow> Element list \<Rightarrow> Element list \<Rightarrow> bytes \<Rightarrow> bytes \<Rightarrow> u64 \<Rightarrow>
    roots_error + bool" where
  "VerifyAppendOnly b3 unchanged inserted prevRoot currRoot endEpoch =
     (case fst (Roots b3 unchanged inserted endEpoch) of
        Inl e \<Rightarrow> Inl e
      | Inr (prev, cur) \<Rightarrow> Inr (prev = prevRoot \<and> cur = currRoot))"

subsection \<open>The trie behind the hashes\<close>

text \<open>
  \<open>subtree_hash\<close> never builds a tree; \<open>build\<close> is the trie it hashes, by the same
  recursion, with \<open>trie_val\<close> and \<open>trie_lab\<close> its hash and hashed label.
\<close>

datatype trie = Tip | ALeaf Element | ANode bytes nat trie trie

function build :: "Element list \<Rightarrow> trie option" where
  "build elems =
     (if elems = [] then Some Tip
      else if length elems = 1 then Some (ALeaf (elems ! 0))
      else case commonPrefixLen (elems ! 0) (elems ! (length elems - 1)) of
        None \<Rightarrow> None
      | Some lcp \<Rightarrow>
          if unat (Len (elems ! 0)) = lcp \<or> 256 \<le> lcp then None
          else let split = Search (length elems) (\<lambda>i. bitAt (Label (elems ! i)) lcp = 1)
               in if split = 0 \<or> split = length elems then None
                  else (case build (take split elems) of
                          None \<Rightarrow> None
                        | Some a \<Rightarrow> map_option (ANode (prefixOf (Label (elems ! 0)) lcp) lcp a)
                                     (build (drop split elems))))"
  by pat_completeness auto
termination
proof (relation "measure length", goal_cases)
  case (2 elems lcp split)
  have "split \<le> length elems" using 2 by simp
  moreover have "split \<noteq> length elems" using 2 by blast
  ultimately have "split < length elems" by (rule le_neq_implies_less)
  then show ?case by simp
next
  case (3 elems lcp split)
  then have "split \<noteq> 0" by blast
  moreover have "elems \<noteq> []" using 3 by blast
  ultimately show ?case by simp
qed auto

declare build.simps [simp del] subtree_hash.simps [simp del]

definition root_trie :: "Element list \<Rightarrow> trie option" where
  "root_trie elems =
     (if elems = [] then Some Tip
      else let split = Search (length elems) (\<lambda>i. bitAt (Label (elems ! i)) 0 = 1)
           in case build (take split elems) of
                None \<Rightarrow> None
              | Some a \<Rightarrow> map_option (ANode (replicate 32 0) 0 a) (build (drop split elems)))"

fun trie_lab :: "(bytes \<Rightarrow> bytes) \<Rightarrow> trie \<Rightarrow> bytes" where
  "trie_lab b3 Tip = emptyLabelValueV b3"
| "trie_lab b3 (ALeaf e) = labelValue b3 (Label e) (Len e)"
| "trie_lab b3 (ANode l n a b) = labelValue b3 l (of_nat n)"

fun trie_val :: "(bytes \<Rightarrow> bytes) \<Rightarrow> trie \<Rightarrow> bytes" where
  "trie_val b3 Tip = emptyNodeHashV b3"
| "trie_val b3 (ALeaf e) = Value e"
| "trie_val b3 (ANode l n a b) =
     parentHash b3 (trie_val b3 a) (trie_lab b3 a) (trie_val b3 b) (trie_lab b3 b)"

definition root_of :: "(bytes \<Rightarrow> bytes) \<Rightarrow> trie \<Rightarrow> bytes" where
  "root_of b3 t = hash2 b3 (if t = Tip then emptyRootValueV b3 else trie_val b3 t) (rootLabelValueV b3)"

fun leaves :: "trie \<Rightarrow> Element set" where
  "leaves Tip = {}"
| "leaves (ALeaf e) = {e}"
| "leaves (ANode l n a b) = leaves a \<union> leaves b"

lemma subtree_hash_step:
  assumes "2 \<le> length elems" "commonPrefixLen (elems ! 0) (elems ! (length elems - 1)) = Some lcp"
    and "m = Search (length elems) (\<lambda>i. bitAt (Label (elems ! i)) lcp = 1)"
  shows "subtree_hash b3 elems d =
    (if unat (Len (elems ! 0)) = lcp then Inl (SitsOnInterior lcp)
     else if 256 \<le> lcp then Inl IndexPanic
     else if m = 0 \<or> m = length elems then Inl (NotSplit (length elems) lcp)
     else (case subtree_hash b3 (take m elems) (lcp + 1) of Inl e \<Rightarrow> Inl e
           | Inr (lv, ll) \<Rightarrow> (case subtree_hash b3 (drop m elems) (lcp + 1) of Inl e \<Rightarrow> Inl e
              | Inr (rv, rl) \<Rightarrow> Inr (parentHash b3 lv ll rv rl,
                                     labelValue b3 (prefixOf (Label (elems ! 0)) lcp) (of_nat lcp)))))"
proof -
  have ne: "elems \<noteq> []" "length elems \<noteq> 1" using assms(1) by auto
  show ?thesis
    unfolding subtree_hash.simps[of b3 elems d] assms(3) assms(2) option.case Let_def
    using ne by (simp only: if_False)
qed

lemma build_step:
  assumes "2 \<le> length elems" "commonPrefixLen (elems ! 0) (elems ! (length elems - 1)) = Some lcp"
    and "m = Search (length elems) (\<lambda>i. bitAt (Label (elems ! i)) lcp = 1)"
  shows "build elems =
    (if unat (Len (elems ! 0)) = lcp \<or> 256 \<le> lcp then None
     else if m = 0 \<or> m = length elems then None
     else (case build (take m elems) of None \<Rightarrow> None
           | Some a \<Rightarrow> map_option (ANode (prefixOf (Label (elems ! 0)) lcp) lcp a) (build (drop m elems))))"
proof -
  have ne: "elems \<noteq> []" "length elems \<noteq> 1" using assms(1) by auto
  show ?thesis
    unfolding build.simps[of elems] assms(3) assms(2) option.case Let_def
    using ne by (simp only: if_False)
qed

lemma subtree_hash_build:
  "subtree_hash b3 elems d = Inr r \<longleftrightarrow>
   (\<exists>t. build elems = Some t \<and> r = (trie_val b3 t, trie_lab b3 t))"
proof (induction b3 elems d arbitrary: r rule: subtree_hash.induct)
  case (1 b3 elems d)
  show ?case
  proof (cases "length elems \<le> 1")
    case True
    then show ?thesis
      by (subst subtree_hash.simps, subst build.simps) (cases elems; auto)
  next
    case long: False
    then have ne: "elems \<noteq> []" "length elems \<noteq> 1" and two: "2 \<le> length elems" by auto
    show ?thesis
    proof (cases "commonPrefixLen (elems ! 0) (elems ! (length elems - 1))")
      case None
      then show ?thesis using ne by (subst subtree_hash.simps, subst build.simps) simp
    next
      case lcp: (Some lcp)
      define m where "m = Search (length elems) (\<lambda>i. bitAt (Label (elems ! i)) lcp = 1)"
      show ?thesis
      proof (cases "unat (Len (elems ! 0)) = lcp \<or> 256 \<le> lcp \<or> m = 0 \<or> m = length elems")
        case True
        then show ?thesis
          unfolding subtree_hash_step[OF two lcp m_def] build_step[OF two lcp m_def] by auto
      next
        case False
        then have c: "unat (Len (elems ! 0)) \<noteq> lcp" "\<not> 256 \<le> lcp" "\<not> (m = 0 \<or> m = length elems)" by auto
        note IH = 1(1)[OF ne lcp c(1,2) m_def c(3)] 1(2)[OF ne lcp c(1,2) m_def c(3)]
        have s: "subtree_hash b3 elems d =
           (case subtree_hash b3 (take m elems) (lcp + 1) of Inl e \<Rightarrow> Inl e
            | Inr (lv, ll) \<Rightarrow> (case subtree_hash b3 (drop m elems) (lcp + 1) of Inl e \<Rightarrow> Inl e
               | Inr (rv, rl) \<Rightarrow> Inr (parentHash b3 lv ll rv rl,
                                      labelValue b3 (prefixOf (Label (elems ! 0)) lcp) (of_nat lcp))))"
          unfolding subtree_hash_step[OF two lcp m_def] using c by simp
        have b: "build elems =
           (case build (take m elems) of None \<Rightarrow> None
            | Some a \<Rightarrow> map_option (ANode (prefixOf (Label (elems ! 0)) lcp) lcp a) (build (drop m elems)))"
          unfolding build_step[OF two lcp m_def] using c by simp
        show ?thesis
        proof (cases "subtree_hash b3 (take m elems) (lcp + 1)")
          case (Inl e)
          then have "build (take m elems) = None" using IH(1) by (cases "build (take m elems)") auto
          then show ?thesis unfolding s b Inl by simp
        next
          case L: (Inr x)
          obtain ta where ta: "build (take m elems) = Some ta" "x = (trie_val b3 ta, trie_lab b3 ta)"
            using iffD1[OF IH(1) L] by blast
          show ?thesis
          proof (cases "subtree_hash b3 (drop m elems) (lcp + 1)")
            case (Inl e)
            then have "build (drop m elems) = None"
              using IH(2)[OF L, of "fst x" "snd x"] by (cases "build (drop m elems)") auto
            then show ?thesis unfolding s b L Inl ta by simp
          next
            case R: (Inr y)
            then obtain tb where "build (drop m elems) = Some tb" "y = (trie_val b3 tb, trie_lab b3 tb)"
              using iffD1[OF IH(2)[OF L prod.collapse] R] by blast
            then show ?thesis unfolding s b L ta R by (auto simp: ta)
          qed
        qed
      qed
    qed
  qed
qed

lemma Root_trie: "akd_Root b3 elems = Inr r \<longleftrightarrow> (\<exists>t. root_trie elems = Some t \<and> r = root_of b3 t)"
proof (cases "elems = []")
  case True
  then show ?thesis by (auto simp: akd_Root_def root_trie_def root_of_def)
next
  case False
  define split where "split = Search (length elems) (\<lambda>i. bitAt (Label (elems ! i)) 0 = 1)"
  have r: "akd_Root b3 elems =
      (case subtree_hash b3 (take split elems) 0 of Inl e \<Rightarrow> Inl e
       | Inr (lv, ll) \<Rightarrow> (case subtree_hash b3 (drop split elems) 0 of Inl e \<Rightarrow> Inl e
          | Inr (rv, rl) \<Rightarrow> Inr (hash2 b3 (parentHash b3 lv ll rv rl) (rootLabelValueV b3))))"
    unfolding akd_Root_def Let_def split_def[symmetric] using False by simp
  have t: "root_trie elems = (case build (take split elems) of None \<Rightarrow> None
              | Some a \<Rightarrow> map_option (ANode (replicate 32 0) 0 a) (build (drop split elems)))"
    unfolding root_trie_def Let_def split_def[symmetric] using False by simp
  note b = subtree_hash_build[of b3 _ 0]
  show ?thesis
  proof (cases "build (take split elems)")
    case None
    then have "\<exists>e. subtree_hash b3 (take split elems) 0 = Inl e"
      using b[of "take split elems"] by (cases "subtree_hash b3 (take split elems) 0") auto
    then show ?thesis using None by (auto simp: r t)
  next
    case A: (Some ta)
    then have a: "subtree_hash b3 (take split elems) 0 = Inr (trie_val b3 ta, trie_lab b3 ta)"
      using b by auto
    show ?thesis
    proof (cases "build (drop split elems)")
      case None
      then have "\<exists>e. subtree_hash b3 (drop split elems) 0 = Inl e"
        using b[of "drop split elems"] by (cases "subtree_hash b3 (drop split elems) 0") auto
      then show ?thesis using None A by (auto simp: r t a)
    next
      case (Some tb)
      then have "subtree_hash b3 (drop split elems) 0 = Inr (trie_val b3 tb, trie_lab b3 tb)"
        using b by auto
      then show ?thesis using A Some a by (auto simp: r t root_of_def)
    qed
  qed
qed

subsection \<open>Tries with equal hashes\<close>

text \<open>
  What the sizes of the labels tell apart: a missing child, an interior node (a label of
  fewer than 256 bits, zeros at the root) and a leaf of a directory (256 bits).
\<close>

definition elem_ok :: "Element \<Rightarrow> bool" where
  "elem_ok e \<longleftrightarrow> length (Label e) = 32 \<and> length (Value e) = 32 \<and> unat (Len e) \<le> 256"

definition full_elem :: "Element \<Rightarrow> bool" where
  "full_elem e \<longleftrightarrow> elem_ok e \<and> Len e = 256"

fun wf_trie :: "trie \<Rightarrow> bool" where
  "wf_trie Tip \<longleftrightarrow> True"
| "wf_trie (ALeaf e) \<longleftrightarrow> elem_ok e"
| "wf_trie (ANode l n a b) \<longleftrightarrow>
     length l = 32 \<and> n < 256 \<and> (n = 0 \<longrightarrow> l = replicate 32 0) \<and> wf_trie a \<and> wf_trie b"

fun subtries :: "trie \<Rightarrow> trie set" where
  "subtries Tip = {Tip}"
| "subtries (ALeaf e) = {ALeaf e}"
| "subtries (ANode l n a b) = {ANode l n a b} \<union> subtries a \<union> subtries b"

fun trie_pre :: "(bytes \<Rightarrow> bytes) \<Rightarrow> trie \<Rightarrow> bytes list" where
  "trie_pre b3 Tip = [[0], be32 0 @ emptyLabelVal, b3 [0] @ labelValue b3 emptyLabelVal 0]"
| "trie_pre b3 (ALeaf e) = [be32 (Len e) @ Label e]"
| "trie_pre b3 (ANode l n a b) =
     [be32 (of_nat n) @ l, trie_val b3 a @ trie_lab b3 a, trie_val b3 b @ trie_lab b3 b,
      b3 (trie_val b3 a @ trie_lab b3 a) @ b3 (trie_val b3 b @ trie_lab b3 b)] @
     trie_pre b3 a @ trie_pre b3 b"

lemma length_prefixOf [simp]: "length label = 32 \<Longrightarrow> length (prefixOf label l) = 32"
  by (auto simp: prefixOf_def Let_def)

lemma build_wf:
  assumes "build elems = Some t" "\<forall>e\<in>set elems. elem_ok e"
  shows "wf_trie t \<and> leaves t = set elems"
  using assms
proof (induction elems arbitrary: t rule: build.induct)
  case (1 elems)
  show ?case
  proof (cases "length elems \<le> 1")
    case True
    then show ?thesis using 1(3,4) by (cases elems) (auto simp: build.simps)
  next
    case False
    then have ne: "elems \<noteq> []" "length elems \<noteq> 1" and two: "2 \<le> length elems" by auto
    obtain lcp where lcp: "commonPrefixLen (elems ! 0) (elems ! (length elems - 1)) = Some lcp"
      using 1(3) ne by (subst (asm) build.simps) (auto split: option.splits)
    define m where m: "m = Search (length elems) (\<lambda>i. bitAt (Label (elems ! i)) lcp = 1)"
    obtain a b where ab: "\<not> (unat (Len (elems ! 0)) = lcp \<or> 256 \<le> lcp)" "\<not> (m = 0 \<or> m = length elems)"
      "build (take m elems) = Some a" "build (drop m elems) = Some b"
      "t = ANode (prefixOf (Label (elems ! 0)) lcp) lcp a b"
      using 1(3) unfolding build_step[OF two lcp m] by (auto split: if_splits option.splits)
    have s: "set (take m elems) \<union> set (drop m elems) = set elems"
      by (metis append_take_drop_id set_append)
    have e0: "elem_ok (elems ! 0)" using 1(4) ne by auto
    have "wf_trie a \<and> leaves a = set (take m elems)"
      using 1(1)[OF ne lcp ab(1) m ab(2,3)] 1(4) s by auto
    moreover have "wf_trie b \<and> leaves b = set (drop m elems)"
      using 1(2)[OF ne lcp ab(1) m ab(2,3,4)] 1(4) s by auto
    moreover have "prefixOf (Label (elems ! 0)) 0 = replicate 32 0" by (simp add: prefixOf_def)
    ultimately show ?thesis using ab s e0 by (auto simp: elem_ok_def)
  qed
qed

lemma root_trie_wf:
  assumes "root_trie elems = Some t" "\<forall>e\<in>set elems. elem_ok e"
  shows "wf_trie t \<and> leaves t = set elems \<and> (t = Tip \<longleftrightarrow> elems = [])"
proof (cases "elems = []")
  case True
  then show ?thesis using assms by (simp add: root_trie_def)
next
  case False
  define m where m: "m = Search (length elems) (\<lambda>i. bitAt (Label (elems ! i)) 0 = 1)"
  obtain a b where ab: "build (take m elems) = Some a" "build (drop m elems) = Some b"
      "t = ANode (replicate 32 0) 0 a b"
    using assms(1) False by (auto simp: root_trie_def m Let_def split: option.splits)
  have s: "set (take m elems) \<union> set (drop m elems) = set elems"
    by (metis append_take_drop_id set_append)
  have "wf_trie a \<and> leaves a = set (take m elems)" "wf_trie b \<and> leaves b = set (drop m elems)"
    by (rule build_wf[OF ab(1)] build_wf[OF ab(2)]; use assms(2) s in auto)+
  then show ?thesis using ab(3) s False by auto
qed


definition hash32 :: "(bytes \<Rightarrow> bytes) \<Rightarrow> bool" where
  "hash32 b3 \<longleftrightarrow> (\<forall>x. length (b3 x) = 32)"

lemma hash32_lengths:
  assumes "hash32 b3"
  shows "length (b3 x) = 32" "length (hash2 b3 x y) = 32" "length (labelValue b3 l n) = 32"
    "length (parentHash b3 w x y z) = 32" "length (trie_lab b3 t) = 32" "length (emptyNodeHashV b3) = 32"
proof -
  show b: "length (b3 x) = 32" for x using assms by (simp add: hash32_def)
  show "length (trie_lab b3 t) = 32" by (cases t) (simp_all add: b labelValue_def emptyLabelValueV_def)
qed (use assms in \<open>auto simp: hash32_def hash2_def labelValue_def parentHash_def emptyNodeHashV_def\<close>)

lemma length_trie_val: "hash32 b3 \<Longrightarrow> wf_trie t \<Longrightarrow> length (trie_val b3 t) = 32"
  by (cases t) (simp_all add: hash32_lengths elem_ok_def)

lemma hash2_exact: "length a = 32 \<Longrightarrow> length b = 32 \<Longrightarrow> hash2 b3 a b = b3 (a @ b)"
  by (simp add: hash2_def)

lemma node_hash:
  assumes "hash32 b3" "wf_trie a" "wf_trie b"
  shows "trie_val b3 (ANode l n a b) =
    b3 (b3 (trie_val b3 a @ trie_lab b3 a) @ b3 (trie_val b3 b @ trie_lab b3 b))"
  using assms by (simp add: parentHash_def hash2_exact hash32_lengths length_trie_val)

lemma node_inj:
  assumes "hash32 b3" "inj_on b3 (set (trie_pre b3 (ANode l n a b)) \<union> set (trie_pre b3 (ANode l' n' a' b')))"
    and "wf_trie a" "wf_trie b" "wf_trie a'" "wf_trie b'"
    and "trie_val b3 (ANode l n a b) = trie_val b3 (ANode l' n' a' b')"
  shows "trie_val b3 a = trie_val b3 a' \<and> trie_lab b3 a = trie_lab b3 a' \<and>
    trie_val b3 b = trie_val b3 b' \<and> trie_lab b3 b = trie_lab b3 b'"
proof -
  let ?A = "trie_val b3 a @ trie_lab b3 a" and ?B = "trie_val b3 b @ trie_lab b3 b"
  let ?A' = "trie_val b3 a' @ trie_lab b3 a'" and ?B' = "trie_val b3 b' @ trie_lab b3 b'"
  note i = inj_onD[OF assms(2)] and h = hash32_lengths[OF assms(1)]
  have "b3 ?A @ b3 ?B = b3 ?A' @ b3 ?B'"
    using assms(7) unfolding node_hash[OF assms(1,3,4)] node_hash[OF assms(1,5,6)] by (rule i) auto
  then have "b3 ?A = b3 ?A'" "b3 ?B = b3 ?B'" by (simp_all add: h)
  then have "?A = ?A'" "?B = ?B'" by (auto intro: i)
  then show ?thesis by (simp_all add: length_trie_val assms h)
qed

fun lab_of :: "trie \<Rightarrow> bytes" where
  "lab_of Tip = be32 0 @ emptyLabelVal"
| "lab_of (ALeaf e) = be32 (Len e) @ Label e"
| "lab_of (ANode l n a b) = be32 (of_nat n) @ l"

lemma trie_lab_of: "trie_lab b3 t = b3 (lab_of t)" "lab_of t \<in> set (trie_pre b3 t)"
  by (cases t; simp add: labelValue_def emptyLabelValueV_def)+

lemma be32_append: "be32 m @ x = be32 n @ y \<longleftrightarrow> m = n \<and> x = y"
  by simp

lemma of_nat_u32_inj: "m \<le> 256 \<Longrightarrow> n \<le> 256 \<Longrightarrow> (of_nat m :: u32) = of_nat n \<longleftrightarrow> m = n"
  by (simp add: word_of_nat_eq_iff take_bit_nat_eq_self)

text \<open>Below 256 bits, the hashed label tells the three kinds of node apart.\<close>

definition honest :: "trie \<Rightarrow> bool" where
  "honest t \<longleftrightarrow> wf_trie t \<and> (\<forall>e\<in>leaves t. full_elem e)"

lemma honest_simps [simp]:
  "honest Tip" "honest (ALeaf e) \<longleftrightarrow> full_elem e"
  "honest (ANode l n a b) \<longleftrightarrow> length l = 32 \<and> n < 256 \<and> (n = 0 \<longrightarrow> l = replicate 32 0) \<and> honest a \<and> honest b"
  by (auto simp: honest_def full_elem_def)

lemma lab_of_eq:
  assumes "lab_of s = lab_of t" "wf_trie s" "honest t"
  shows "case s of Tip \<Rightarrow> t = Tip
    | ALeaf e \<Rightarrow> True
    | ANode l n a b \<Rightarrow> (\<exists>a' b'. t = ANode l n a' b')"
proof (cases s)
  case Tip
  have "replicate 32 (1::byte) \<noteq> replicate 32 0" by (simp add: replicate_eq_replicate)
  then show ?thesis using assms Tip of_nat_u32_inj[of 0]
    by (cases t) (auto simp: full_elem_def emptyLabelVal_def)
next
  case (ANode l n a b)
  have d: "replicate 32 (1::byte) \<noteq> replicate 32 0" by (simp add: replicate_eq_replicate)
  show ?thesis
  proof (cases t)
    case t: (ANode l' n' a' b')
    have "n \<le> 256" "n' \<le> 256" using assms ANode t by auto
    then show ?thesis using assms ANode t of_nat_u32_inj[of n n'] by auto
  qed (use assms ANode d of_nat_u32_inj[of n 0] of_nat_u32_inj[of n 256]
       in \<open>auto simp: full_elem_def emptyLabelVal_def\<close>)
qed simp


text \<open>
  When a trie of a proof and a directory's trie have one hash and one hashed label, the
  directory refines the proof: each leaf of the proof is a subtrie of the directory, and
  these subtries hold every leaf of the directory.
\<close>

definition node_matches :: "(bytes \<Rightarrow> bytes) \<Rightarrow> Element \<Rightarrow> trie \<Rightarrow> bool" where
  "node_matches b3 u s \<longleftrightarrow> trie_val b3 s = Value u \<and> trie_lab b3 s = labelValue b3 (Label u) (Len u)"

lemma subtries_self [simp]: "t \<in> subtries t"
  by (cases t) auto

lemma subtries_honest: "s \<in> subtries t \<Longrightarrow> honest t \<Longrightarrow> honest s"
  by (induction t) auto

lemma subtries_pre: "s \<in> subtries t \<Longrightarrow> set (trie_pre b3 s) \<subseteq> set (trie_pre b3 t)"
  by (induction t) auto

lemma subtries_leaves: "s \<in> subtries t \<Longrightarrow> leaves s \<subseteq> leaves t"
  by (induction t) auto

lemma lab_of_inj:
  assumes "inj_on b3 (set (trie_pre b3 f) \<union> set (trie_pre b3 t))" "trie_lab b3 f = trie_lab b3 t"
  shows "lab_of f = lab_of t"
proof -
  have "lab_of f \<in> set (trie_pre b3 f) \<union> set (trie_pre b3 t)" "lab_of t \<in> set (trie_pre b3 f) \<union> set (trie_pre b3 t)"
    using trie_lab_of(2)[of f b3] trie_lab_of(2)[of t b3] by blast+
  then show ?thesis using inj_onD[OF assms(1), of "lab_of f" "lab_of t"] assms(2) trie_lab_of(1) by metis
qed

lemma refined:
  assumes "hash32 b3" "inj_on b3 (set (trie_pre b3 f) \<union> set (trie_pre b3 t))"
    and "wf_trie f" "honest t" "trie_val b3 f = trie_val b3 t" "trie_lab b3 f = trie_lab b3 t"
  shows "(\<forall>u\<in>leaves f. \<exists>s\<in>subtries t. node_matches b3 u s) \<and>
    (\<forall>e\<in>leaves t. \<exists>u\<in>leaves f. \<exists>s\<in>subtries t. node_matches b3 u s \<and> e \<in> leaves s)"
  using assms(2-)
proof (induction f arbitrary: t)
  case Tip
  have "lab_of Tip = lab_of t"
    by (rule lab_of_inj[OF Tip(1,5)])
  then have "t = Tip" using lab_of_eq[of Tip t] Tip(2,3) by simp
  then show ?case by simp
next
  case (ALeaf u)
  then have "node_matches b3 u t" by (simp add: node_matches_def)
  then show ?case by auto
next
  case (ANode l n a b)
  have "lab_of (ANode l n a b) = lab_of t"
    by (rule lab_of_inj[OF ANode(3,7)])
  then obtain a' b' where t: "t = ANode l n a' b'" using lab_of_eq[of "ANode l n a b" t] ANode(4,5) by auto
  have w: "wf_trie a" "wf_trie b" "honest a'" "honest b'" "wf_trie a'" "wf_trie b'"
    using ANode(4,5) t by (auto simp: honest_def)
  note e = node_inj[OF assms(1) ANode(3)[unfolded t] w(1,2,5,6) ANode(6)[unfolded t]]
  have "inj_on b3 (set (trie_pre b3 a) \<union> set (trie_pre b3 a'))" "inj_on b3 (set (trie_pre b3 b) \<union> set (trie_pre b3 b'))"
    by ((rule inj_on_subset[OF ANode(3)], unfold t trie_pre.simps set_append, blast))+
  note A = ANode(1)[OF this(1) w(1,3)] and B = ANode(2)[OF this(2) w(2,4)]
  have sub: "subtries a' \<subseteq> subtries t" "subtries b' \<subseteq> subtries t" by (auto simp: t)
  have lv: "leaves (ANode l n a b) = leaves a \<union> leaves b" "leaves t = leaves a' \<union> leaves b'" by (simp_all add: t)
  have "trie_val b3 a = trie_val b3 a'" "trie_lab b3 a = trie_lab b3 a'"
    "trie_val b3 b = trie_val b3 b'" "trie_lab b3 b = trie_lab b3 b'" using e by blast+
  note A = A[OF this(1,2)] and B = B[OF this(3,4)]
  show ?case unfolding lv using A B sub by blast
qed

subsection \<open>Soundness of the append-only check\<close>

definition root_pre :: "(bytes \<Rightarrow> bytes) \<Rightarrow> Element list \<Rightarrow> bytes list" where
  "root_pre b3 elems =
     (case root_trie elems of
        None \<Rightarrow> []
      | Some t \<Rightarrow> [[0], (if t = Tip then b3 [0] else trie_val b3 t) @ rootLabelValueV b3] @ trie_pre b3 t)"

definition commit :: "(bytes \<Rightarrow> bytes) \<Rightarrow> u64 \<Rightarrow> Element \<Rightarrow> Element" where
  "commit b3 epoch u = u\<lparr>Value := HashLeafWithCommitment b3 (Value u) epoch\<rparr>"

text \<open>The preimages hashed for the proof and for the two directories.\<close>

definition append_pre ::
    "(bytes \<Rightarrow> bytes) \<Rightarrow> Element list \<Rightarrow> Element list \<Rightarrow> u64 \<Rightarrow> Element list \<Rightarrow> Element list \<Rightarrow> bytes list" where
  "append_pre b3 unchanged inserted epoch dir dir' =
     root_pre b3 (Sort unchanged) @
     root_pre b3 (merge_elems (Sort unchanged) (Sort (map (commit b3 epoch) inserted))) @
     root_pre b3 (Sort dir) @ root_pre b3 (Sort dir') @
     map (\<lambda>u. Value u @ be64 epoch) inserted"

lemma set_Sort [simp]: "set (Sort es) = set es"
  by (simp add: Sort_def)

lemma set_merge_elems [simp]: "set (merge_elems as bs) = set as \<union> set bs"
  by (induction as bs rule: merge_elems.induct) auto

lemma Sort_Nil [simp]: "Sort es = [] \<longleftrightarrow> es = []"
  by (metis set_Sort set_empty)

lemma root_trie_shape: "root_trie es = Some t \<Longrightarrow> t = Tip \<or> (\<exists>a b. t = ANode (replicate 32 0) 0 a b)"
  by (auto simp: root_trie_def Let_def split: if_splits option.splits)

lemma root_pre_trie: "root_trie es = Some t \<Longrightarrow> set (trie_pre b3 t) \<subseteq> set (root_pre b3 es)"
  by (simp add: root_pre_def) blast

lemma node_pre:
  assumes "hash32 b3" "wf_trie (ANode l n a b)"
  obtains x where "x \<in> set (trie_pre b3 (ANode l n a b))" "length x = 64" "trie_val b3 (ANode l n a b) = b3 x"
proof
  let ?x = "b3 (trie_val b3 a @ trie_lab b3 a) @ b3 (trie_val b3 b @ trie_lab b3 b)"
  show "?x \<in> set (trie_pre b3 (ANode l n a b))" "length ?x = 64" using hash32_lengths[OF assms(1)] by auto
  show "trie_val b3 (ANode l n a b) = b3 ?x" using node_hash assms by simp
qed

lemma equal_roots:
  assumes "hash32 b3" "inj_on b3 (set (root_pre b3 fs) \<union> set (root_pre b3 ts))"
    and f: "root_trie fs = Some f" "wf_trie f" and t: "root_trie ts = Some t" "wf_trie t"
    and r: "root_of b3 f = root_of b3 t"
  shows "trie_val b3 f = trie_val b3 t \<and> trie_lab b3 f = trie_lab b3 t"
proof -
  note h = hash32_lengths[OF assms(1)]
  define v where "v t = (if t = Tip then b3 [0] else trie_val b3 t)" for t
  have lv: "length (v t) = 32" if "wf_trie t" for t using that by (simp add: v_def h length_trie_val assms(1))
  have ro: "root_of b3 t = b3 (v t @ rootLabelValueV b3)" if "wf_trie t" for t
    using lv[OF that] by (simp add: root_of_def v_def emptyRootValueV_def hash2_exact rootLabelValueV_def h length_trie_val assms(1) that)
  have "v f @ rootLabelValueV b3 = v t @ rootLabelValueV b3"
    using r unfolding ro[OF f(2)] ro[OF t(2)]
    by (rule inj_onD[OF assms(2)]) (simp_all add: root_pre_def f t v_def)
  then have v: "v f = v t" by simp
  have e: "[0] \<in> set (root_pre b3 fs)" "[0] \<in> set (root_pre b3 ts)" by (simp_all add: root_pre_def f t)
  have no: False if g: "root_trie gs = Some g" "wf_trie g" "g \<noteq> Tip" "b3 [0] = trie_val b3 g" "gs = fs \<or> gs = ts" for g gs
  proof -
    obtain l n a b where s: "g = ANode l n a b" using root_trie_shape[OF g(1)] g(3) by auto
    obtain x where x: "x \<in> set (trie_pre b3 g)" "length x = 64" "trie_val b3 g = b3 x"
      using node_pre[OF assms(1), of l n a b] g(2) s by metis
    have "[0] = x" by (rule inj_onD[OF assms(2)]) (use g(4,5) x e root_pre_trie[OF g(1), of b3] in auto)
    then show False using x(2) by auto
  qed
  show ?thesis
  proof (cases "f = Tip")
    case True
    then have "t = Tip" using no[OF t(1,2)] v by (auto simp: v_def split: if_splits)
    then show ?thesis using True by simp
  next
    case False
    then have tn: "t \<noteq> Tip" using no[OF f(1,2)] v by (auto simp: v_def split: if_splits)
    then show ?thesis using False v root_trie_shape[OF f(1)] root_trie_shape[OF t(1)] by (auto simp: v_def)
  qed
qed

text \<open>Two subtries of directories that match one element hold the same leaves.\<close>

lemma matching_subtries:
  assumes "hash32 b3" "inj_on b3 (set (trie_pre b3 s) \<union> set (trie_pre b3 t))" "honest s" "honest t"
    and "trie_val b3 s = trie_val b3 t" "trie_lab b3 s = trie_lab b3 t"
  shows "leaves s \<subseteq> leaves t"
proof
  fix e assume e: "e \<in> leaves s"
  have "wf_trie s" using assms(3) by (simp add: honest_def)
  from refined[OF assms(1,2) this assms(4-6)] e
  obtain s' where s': "s' \<in> subtries t" "node_matches b3 e s'" by blast
  have "inj_on b3 (set (trie_pre b3 s') \<union> set (trie_pre b3 (ALeaf e)))"
  proof (rule inj_on_subset[OF assms(2)])
    have "ALeaf e \<in> subtries s" using e by (induction s) auto
    then show "set (trie_pre b3 s') \<union> set (trie_pre b3 (ALeaf e)) \<subseteq> set (trie_pre b3 s) \<union> set (trie_pre b3 t)"
      using subtries_pre[of "ALeaf e" s b3] subtries_pre[OF s'(1), of b3] by blast
  qed
  moreover have "trie_lab b3 s' = trie_lab b3 (ALeaf e)" using s'(2) by (simp add: node_matches_def)
  ultimately have l: "lab_of s' = lab_of (ALeaf e)" by (rule lab_of_inj)
  have h: "honest s'" by (rule subtries_honest[OF s'(1) assms(4)])
  have f: "full_elem e" using e assms(3) by (simp add: honest_def)
  have "\<exists>e'. s' = ALeaf e'"
    using lab_of_eq[OF l] h f by (cases s') (auto simp: honest_def full_elem_def)
  then obtain e' where s: "s' = ALeaf e'" by blast
  have "e' = e" using l s'(2) by (simp add: s node_matches_def)
  then show "e \<in> leaves t" using subtries_leaves[OF s'(1)] s by simp
qed

text \<open>A committed value hashes 40 bytes, a node 64: it can only match a leaf.\<close>

lemma commit_matches_leaf:
  assumes "hash32 b3" "inj_on b3 (set (trie_pre b3 s) \<union> {Value u @ be64 epoch, be32 (Len u) @ Label u})"
    and "honest s" "length (Value u) = 32" "node_matches b3 (commit b3 epoch u) s"
  shows "s = ALeaf (commit b3 epoch u)"
proof -
  have v: "trie_val b3 s = b3 (Value u @ be64 epoch)" and l: "trie_lab b3 s = b3 (be32 (Len u) @ Label u)"
    using assms(4,5) by (auto simp: node_matches_def commit_def HashLeafWithCommitment_def labelValue_def)
  have no: False if x: "x \<in> set (trie_pre b3 s)" "length x = 64" "trie_val b3 s = b3 x" for x
  proof -
    have "x = Value u @ be64 epoch" by (rule inj_onD[OF assms(2)]) (use x v in auto)
    then show False using x(2) assms(4) by simp
  qed
  show ?thesis
  proof (cases s)
    case Tip
    note h = hash32_lengths[OF assms(1)]
    have "trie_val b3 s = b3 (b3 [0] @ labelValue b3 emptyLabelVal 0)"
      by (simp add: Tip emptyNodeHashV_def hash2_exact h)
    then show ?thesis using no[of "b3 [0] @ labelValue b3 emptyLabelVal 0"] by (simp add: Tip h)
  next
    case (ANode l n a b)
    have "wf_trie (ANode l n a b)" using assms(3) by (simp add: honest_def ANode)
    then show ?thesis using node_pre[OF assms(1)] no ANode by metis
  next
    case (ALeaf e)
    have "be32 (Len e) @ Label e = be32 (Len u) @ Label u"
      by (rule inj_onD[OF assms(2)]) (use l in \<open>simp_all add: ALeaf labelValue_def\<close>)
    then have "Label e = Label u" "Len e = Len u" by simp_all
    moreover have "Value e = HashLeafWithCommitment b3 (Value u) epoch"
      using assms(5) by (simp add: ALeaf node_matches_def commit_def)
    ultimately show ?thesis by (simp add: ALeaf commit_def)
  qed
qed


text \<open>
C2. If an append-only proof is accepted between the roots of two directories, every entry
  of the old directory is in the new one unchanged, and every entry that is new was inserted
  with its value committed to the end epoch, unless BLAKE3 collides on a preimage hashed for
  the proof or the directories; the proof itself may be any elements, in any order.
\<close>

theorem append_only_sound:
  assumes "hash32 b3" "\<forall>e\<in>set unchanged \<union> set inserted. elem_ok e" "\<forall>e\<in>set dir \<union> set dir'. full_elem e"
    and "akd_Root b3 (Sort dir) = Inr prevRoot" "akd_Root b3 (Sort dir') = Inr currRoot"
    and "VerifyAppendOnly b3 unchanged inserted prevRoot currRoot endEpoch = Inr True"
  shows "(set dir \<subseteq> set dir' \<and> set dir' - set dir \<subseteq> commit b3 endEpoch ` set inserted) \<or>
    collides b3 (set (append_pre b3 unchanged inserted endEpoch dir dir'))"
proof (rule or_collidesI)
  let ?S = "set (append_pre b3 unchanged inserted endEpoch dir dir')"
  let ?com = "map (commit b3 endEpoch) inserted"
  let ?both = "merge_elems (Sort unchanged) (Sort ?com)"
  assume inj: "inj_on b3 ?S"
  have "akd_Root b3 (Sort unchanged) = Inr prevRoot \<and> akd_Root b3 ?both = Inr currRoot"
    using assms(6) by (auto simp: VerifyAppendOnly_def Roots_def Let_def commit_def[abs_def] split: sum.splits)
  then obtain f g where f: "root_trie (Sort unchanged) = Some f" "prevRoot = root_of b3 f"
    and g: "root_trie ?both = Some g" "currRoot = root_of b3 g"
    by (auto simp: Root_trie)
  obtain t t' where t: "root_trie (Sort dir) = Some t" "prevRoot = root_of b3 t"
    and t': "root_trie (Sort dir') = Some t'" "currRoot = root_of b3 t'"
    using assms(4,5) by (auto simp: Root_trie)
  have ok: "\<forall>e\<in>set ?both. elem_ok e"
    using assms(2) by (auto simp: elem_ok_def commit_def HashLeafWithCommitment_def hash32_lengths[OF assms(1)])
  have F: "wf_trie f" "leaves f = set unchanged" using root_trie_wf[OF f(1)] assms(2) by auto
  have G: "wf_trie g" "leaves g = set unchanged \<union> commit b3 endEpoch ` set inserted"
    using root_trie_wf[OF g(1) ok] by auto
  have T: "honest t" "leaves t = set dir" "honest t'" "leaves t' = set dir'"
    using root_trie_wf[OF t(1)] root_trie_wf[OF t'(1)] assms(3) by (auto simp: honest_def full_elem_def)
  have pre: "set (root_pre b3 (Sort unchanged)) \<subseteq> ?S" "set (root_pre b3 ?both) \<subseteq> ?S"
    "set (root_pre b3 (Sort dir)) \<subseteq> ?S" "set (root_pre b3 (Sort dir')) \<subseteq> ?S"
    unfolding append_pre_def set_append by blast+
  have tp: "set (trie_pre b3 f) \<subseteq> ?S" "set (trie_pre b3 g) \<subseteq> ?S" "set (trie_pre b3 t) \<subseteq> ?S" "set (trie_pre b3 t') \<subseteq> ?S"
    using pre root_pre_trie[OF f(1), of b3] root_pre_trie[OF g(1), of b3] root_pre_trie[OF t(1), of b3]
      root_pre_trie[OF t'(1), of b3] by blast+
  note sub = inj_on_subset[OF inj]
  have wt: "wf_trie t" "wf_trie t'" using T by (auto simp: honest_def)
  have e: "trie_val b3 f = trie_val b3 t \<and> trie_lab b3 f = trie_lab b3 t"
    by (rule equal_roots[OF assms(1) sub[OF Un_least[OF pre(1,3)]] f(1) F(1) t(1) wt(1)]) (metis f(2) t(2))
  have e': "trie_val b3 g = trie_val b3 t' \<and> trie_lab b3 g = trie_lab b3 t'"
    by (rule equal_roots[OF assms(1) sub[OF Un_least[OF pre(2,4)]] g(1) G(1) t'(1) wt(2)]) (metis g(2) t'(2))
  have R: "\<forall>u\<in>leaves f. \<exists>s\<in>subtries t. node_matches b3 u s"
    "\<forall>d\<in>leaves t. \<exists>u\<in>leaves f. \<exists>s\<in>subtries t. node_matches b3 u s \<and> d \<in> leaves s"
    using refined[OF assms(1) sub[OF Un_least[OF tp(1,3)]] F(1) T(1)] e by blast+
  have R': "\<forall>u\<in>leaves g. \<exists>s\<in>subtries t'. node_matches b3 u s"
    "\<forall>d\<in>leaves t'. \<exists>u\<in>leaves g. \<exists>s\<in>subtries t'. node_matches b3 u s \<and> d \<in> leaves s"
    using refined[OF assms(1) sub[OF Un_least[OF tp(2,4)]] G(1) T(3)] e' by blast+
  have same: "leaves s = leaves s'" if "s \<in> subtries t" "s' \<in> subtries t'" "node_matches b3 u s" "node_matches b3 u s'" for u s s'
  proof -
    have "honest s" "honest s'" using subtries_honest that T by blast+
    moreover have "inj_on b3 (set (trie_pre b3 s) \<union> set (trie_pre b3 s'))"
      by (rule sub) (use subtries_pre[OF that(1)] subtries_pre[OF that(2)] tp in blast)
    moreover have "trie_val b3 s = trie_val b3 s'" "trie_lab b3 s = trie_lab b3 s'"
      using that(3,4) by (simp_all add: node_matches_def)
    ultimately show ?thesis
      using matching_subtries[OF assms(1), of s s'] matching_subtries[OF assms(1), of s' s] by (simp add: Un_commute)
  qed
  have "d \<in> set dir'" if d: "d \<in> set dir" for d
  proof -
    obtain u s where u: "u \<in> leaves f" "s \<in> subtries t" "node_matches b3 u s" "d \<in> leaves s"
      using bspec[OF R(2), of d] d unfolding T(2) by blast
    obtain s' where s': "s' \<in> subtries t'" "node_matches b3 u s'" 
      using bspec[OF R'(1), of u] u(1) unfolding F(2) G(2) by blast
    have "d \<in> leaves s'" using same[OF u(2) s'(1) u(3) s'(2)] u(4) by simp
    then show ?thesis using subtries_leaves[OF s'(1)] unfolding T(4) by (rule rev_subsetD)
  qed
  moreover have "d \<in> commit b3 endEpoch ` set inserted" if d: "d \<in> set dir'" "d \<notin> set dir" for d
  proof -
    obtain u s' where u: "u \<in> leaves g" "s' \<in> subtries t'" "node_matches b3 u s'" "d \<in> leaves s'"
      using bspec[OF R'(2), of d] d(1) unfolding T(4) by blast
    have "u \<notin> set unchanged"
    proof
      assume "u \<in> set unchanged"
      then obtain s where s: "s \<in> subtries t" "node_matches b3 u s" 
        using bspec[OF R(1), of u] unfolding F(2) by blast
      have "d \<in> leaves s" using same[OF s(1) u(2) s(2) u(3)] u(4) by simp
      then have "d \<in> set dir" using subtries_leaves[OF s(1)] unfolding T(2) by (rule rev_subsetD)
      then show False using d(2) by simp
    qed
    then obtain i where i: "i \<in> set inserted" "u = commit b3 endEpoch i" using u(1) unfolding G(2) by blast
    have "be32 (Len i) @ Label i \<in> ?S"
    proof -
      have "ALeaf u \<in> subtries g" using u(1) by (induction g) auto
      then have "set (trie_pre b3 (ALeaf u)) \<subseteq> ?S" using subtries_pre tp(2) by blast
      then show ?thesis by (simp add: i commit_def)
    qed
    moreover have "Value i @ be64 endEpoch \<in> ?S" using i(1) by (auto simp: append_pre_def)
    ultimately have "inj_on b3 (set (trie_pre b3 s') \<union> {Value i @ be64 endEpoch, be32 (Len i) @ Label i})"
      by (intro sub) (use subtries_pre[OF u(2)] tp(4) in blast)
    then have "s' = ALeaf u"
      unfolding i(2) by (rule commit_matches_leaf[OF assms(1)])
        (use subtries_honest[OF u(2) T(3)] assms(2) i u(3) in \<open>auto simp: elem_ok_def\<close>)
    then show ?thesis using u(4) i by simp
  qed
  ultimately show "set dir \<subseteq> set dir' \<and> set dir' - set dir \<subseteq> commit b3 endEpoch ` set inserted" by blast
qed

subsection \<open>Labels in order\<close>

lemma byte_msb:
  fixes a b :: byte
  assumes "a < b"
  shows "\<exists>i<8. \<not> bit a (7 - i) \<and> bit b (7 - i) \<and> (\<forall>j<i. bit a (7 - j) = bit b (7 - j))"
proof -
  have "\<exists>i<n. \<not> bit x i \<and> bit y i \<and> (\<forall>j. i < j \<and> j < n \<longrightarrow> bit x j = bit y j)"
    if "x < y" "y < 2 ^ n" for x y n :: nat
    using that
  proof (induction n arbitrary: x y)
    case (Suc n)
    show ?case
    proof (cases "x div 2 = y div 2")
      case True
      then have "even x" "odd y" using Suc.prems(1) by presburger+
      moreover have "bit x j = bit y j" if "0 < j" for j
        using True that by (cases j) (auto simp: bit_Suc)
      ultimately show ?thesis by (intro exI[of _ 0]) (auto simp: bit_0)
    next
      case False
      then have "x div 2 < y div 2" using Suc.prems(1) by (simp add: div_le_mono order_le_neq_trans)
      moreover have "y div 2 < 2 ^ n" using Suc.prems(2) by auto
      ultimately obtain i where i: "i < n" "\<not> bit (x div 2) i" "bit (y div 2) i"
        "\<forall>j. i < j \<and> j < n \<longrightarrow> bit (x div 2) j = bit (y div 2) j" using Suc.IH by blast
      show ?thesis
      proof (intro exI[of _ "Suc i"] conjI allI impI)
        fix j assume "Suc i < j \<and> j < Suc n"
        then show "bit x j = bit y j" using i(4) by (cases j) (auto simp: bit_Suc)
      qed (use i in \<open>auto simp: bit_Suc\<close>)
    qed
  qed simp
  from this[of "unat a" "unat b" 8] obtain i where i: "i < 8" "\<not> bit (unat a) i" "bit (unat b) i"
    "\<forall>j. i < j \<and> j < 8 \<longrightarrow> bit (unat a) j = bit (unat b) j"
    using assms unsigned_less[of b, where 'a = nat] by (auto simp: unat_less_iff)
  have u: "bit (unat w) j = bit w j" for w :: byte and j by (simp add: bit_unsigned_iff)
  show ?thesis
  proof (intro exI[of _ "7 - i"] conjI allI impI)
    fix j assume "j < 7 - i"
    then have "i < 7 - j" "7 - j < 8" by auto
    then show "bit a (7 - j) = bit b (7 - j)" using i(4) u by blast
  qed (use i in \<open>auto simp: u\<close>)
qed

definition bits_less :: "bytes \<Rightarrow> bytes \<Rightarrow> bool" where
  "bits_less a b \<longleftrightarrow> (\<exists>k<256. (\<forall>j<k. bitAt a j = bitAt b j) \<and> bitAt a k = 0 \<and> bitAt b k = 1)"

lemma bitAt_cases: "bitAt l i = 0 \<or> bitAt l i = 1"
  by (simp add: bitAt_def)

lemma bitAt_byte: "i < 8 \<Longrightarrow> bitAt l (8 * q + i) = of_bool (bit (l ! q) (7 - i))"
  by (simp add: bitAt_def)

lemma byte_bits: "l ! q = l' ! q \<longleftrightarrow> (\<forall>i<8. bitAt l (8 * q + i) = bitAt l' (8 * q + i))"
proof
  assume h: "\<forall>i<8. bitAt l (8 * q + i) = bitAt l' (8 * q + i)"
  show "l ! q = l' ! q"
  proof (rule bit_word_eqI)
    fix n assume "n < LENGTH(8)"
    then have n: "7 - n < 8" "7 - (7 - n) = n" by auto
    show "bit (l ! q) n = bit (l' ! q) n"
      using h[rule_format, OF n(1)] unfolding bitAt_byte[OF n(1)] n(2) of_bool_eq_iff .
  qed
qed (simp add: bitAt_byte)

lemma label_order:
  assumes "length a = 32" "length b = 32" "a < b"
  shows "bits_less a b"
proof -
  have "(a, b) \<in> lexord {(u, v). u < v}" using assms(3) by (simp add: list_less_def)
  then obtain q where q: "q < 32" "take q a = take q b" "a ! q < b ! q"
    using assms(1,2) by (auto simp: lexord_take_index_conv)
  obtain i where i: "i < 8" "\<not> bit (a ! q) (7 - i)" "bit (b ! q) (7 - i)"
    "\<forall>j<i. bit (a ! q) (7 - j) = bit (b ! q) (7 - j)" using byte_msb[OF q(3)] by blast
  have "bitAt a j = bitAt b j" if "j < 8 * q + i" for j
  proof (cases "j div 8 < q")
    case True
    then have "a ! (j div 8) = b ! (j div 8)" using q(2) by (metis nth_take)
    then show ?thesis by (simp add: bitAt_def)
  next
    case False
    then have "j div 8 = q" using that i(1) by auto
    moreover have "j mod 8 < i" using that i(1) False mult_div_mod_eq[of 8 j] by linarith
    ultimately show ?thesis using i(4) by (simp add: bitAt_def)
  qed
  then show ?thesis unfolding bits_less_def
    using q(1) i(1-3) by (intro exI[of _ "8 * q + i"]) (auto simp: bitAt_byte)
qed

lemma bits_less_first:
  assumes "bits_less a b" "\<forall>j<k. bitAt a j = bitAt b j" "bitAt a k \<noteq> bitAt b k"
  shows "bitAt a k = 0 \<and> bitAt b k = 1"
proof -
  obtain m where m: "\<forall>j<m. bitAt a j = bitAt b j" "bitAt a m = 0" "bitAt b m = 1"
    using assms(1) by (auto simp: bits_less_def)
  have "m = k" using m assms(2,3) by (metis linorder_neqE_nat zero_neq_one)
  then show ?thesis using m by simp
qed

subsection \<open>The common prefix\<close>

lemma cpl_loop_spec:
  assumes "shorter \<le> 256" "i \<le> shorter"
  shows "\<exists>k. cpl_loop a b shorter i = Some k \<and> i \<le> k \<and> k \<le> shorter \<and>
    (\<forall>j. i \<le> j \<and> j < k \<longrightarrow> bitAt a j = bitAt b j) \<and> (k < shorter \<longrightarrow> bitAt a k \<noteq> bitAt b k)"
  using assms
proof (induction a b shorter i rule: cpl_loop.induct)
  case (1 a b shorter i)
  show ?case
  proof (cases "i < shorter")
    case False
    then show ?thesis using 1(4) by (subst cpl_loop.simps) auto
  next
    case lt: True
    then have n: "\<not> 32 \<le> i div 8" using 1(3) by auto
    show ?thesis
    proof (cases "i mod 8 = 0 \<and> i + 8 \<le> shorter \<and> a ! (i div 8) = b ! (i div 8)")
      case c: True
      have "cpl_loop a b shorter i = cpl_loop a b shorter (i + 8)" using lt n c by (subst cpl_loop.simps) simp
      moreover obtain k where k: "cpl_loop a b shorter (i + 8) = Some k" "i + 8 \<le> k" "k \<le> shorter"
        "\<forall>j. i + 8 \<le> j \<and> j < k \<longrightarrow> bitAt a j = bitAt b j" "k < shorter \<longrightarrow> bitAt a k \<noteq> bitAt b k"
        using 1(1)[OF lt n c 1(3)] c by blast
      moreover have "bitAt a j = bitAt b j" if "i \<le> j" "j < i + 8" for j
      proof -
        have "j div 8 = i div 8" using that c by auto
        then show ?thesis using c by (simp add: bitAt_def)
      qed
      ultimately show ?thesis by (metis add_leD1 not_less)
    next
      case c: False
      show ?thesis
      proof (cases "bitAt a i \<noteq> bitAt b i")
        case True
        then have "cpl_loop a b shorter i = Some i" using lt n c by (subst cpl_loop.simps) auto
        then show ?thesis using True lt by auto
      next
        case False
        then have s: "cpl_loop a b shorter i = cpl_loop a b shorter (i + 1)" using lt n c by (subst cpl_loop.simps) auto
        obtain k where k: "cpl_loop a b shorter (i + 1) = Some k" "i + 1 \<le> k" "k \<le> shorter"
          "\<forall>j. i + 1 \<le> j \<and> j < k \<longrightarrow> bitAt a j = bitAt b j" "k < shorter \<longrightarrow> bitAt a k \<noteq> bitAt b k"
          using 1(2)[OF lt n c _ 1(3)] False lt by auto
        have "bitAt a j = bitAt b j" if "i \<le> j" "j < k" for j
          using that k(4) False by (cases "j = i") auto
        then show ?thesis using s k by auto
      qed
    qed
  qed
qed

lemma commonPrefixLen_spec:
  assumes "unat (Len x) \<le> 256" "unat (Len y) \<le> 256"
  shows "\<exists>k. commonPrefixLen x y = Some k \<and> k \<le> unat (Len x) \<and> k \<le> unat (Len y) \<and>
    (\<forall>j<k. bitAt (Label x) j = bitAt (Label y) j) \<and>
    (k < unat (Len x) \<and> k < unat (Len y) \<longrightarrow> bitAt (Label x) k \<noteq> bitAt (Label y) k)"
proof -
  have m: "unat (min (Len x) (Len y)) = min (unat (Len x)) (unat (Len y))"
    by (simp add: min_def unat_le_iff)
  have "unat (min (Len x) (Len y)) \<le> 256" using assms by (simp add: m)
  from cpl_loop_spec[OF this, of 0 "Label x" "Label y"] show ?thesis
    by (auto simp: commonPrefixLen_def m)
qed

subsection \<open>The reference trie\<close>

text \<open>
  The reference build, as the package comment describes it: partition an unsorted set by
  the next bit at every level, with no sorting and no binary search.
\<close>

function ref_trie :: "nat \<Rightarrow> Element list \<Rightarrow> trie" where
  "ref_trie d es =
     (case es of [] \<Rightarrow> Tip | [e] \<Rightarrow> ALeaf e
      | _ \<Rightarrow>
        if 256 \<le> d then Tip
        else let l = filter (\<lambda>e. bitAt (Label e) d = 0) es; r = filter (\<lambda>e. bitAt (Label e) d = 1) es
             in if r = [] then ref_trie (d + 1) l
                else if l = [] then ref_trie (d + 1) r
                else ANode (prefixOf (Label (hd es)) d) d (ref_trie (d + 1) l) (ref_trie (d + 1) r))"
  by pat_completeness auto
termination by (relation "measure (\<lambda>(d, es). 256 - d)") auto

declare ref_trie.simps [simp del]

definition ref_root :: "Element list \<Rightarrow> trie" where
  "ref_root es =
     (if es = [] then Tip
      else ANode (replicate 32 0) 0 (ref_trie 1 (filter (\<lambda>e. bitAt (Label e) 0 = 0) es))
             (ref_trie 1 (filter (\<lambda>e. bitAt (Label e) 0 = 1) es)))"

text \<open>Two labels part before either ends.\<close>

definition diverge :: "Element \<Rightarrow> Element \<Rightarrow> bool" where
  "diverge x y \<longleftrightarrow> (\<exists>k. k < unat (Len x) \<and> k < unat (Len y) \<and> bitAt (Label x) k \<noteq> bitAt (Label y) k)"

definition agree :: "nat \<Rightarrow> Element list \<Rightarrow> bool" where
  "agree d es \<longleftrightarrow> (\<forall>x\<in>set es. \<forall>y\<in>set es. \<forall>j<d. bitAt (Label x) j = bitAt (Label y) j)"

lemma agreeD: "agree d es \<Longrightarrow> x \<in> set es \<Longrightarrow> y \<in> set es \<Longrightarrow> j < d \<Longrightarrow> bitAt (Label x) j = bitAt (Label y) j"
  unfolding agree_def by blast

lemma agree_sub: "agree k es \<Longrightarrow> d \<le> k \<Longrightarrow> set es' \<subseteq> set es \<Longrightarrow> agree d es'"
  unfolding agree_def by (meson le_trans not_less subsetD)

lemma diverge_sym: "diverge x y \<Longrightarrow> diverge y x"
  by (auto simp: diverge_def)

lemma ref_trie_0 [simp]: "ref_trie d [] = Tip" "ref_trie d [e] = ALeaf e"
  by (simp_all add: ref_trie.simps)

lemma ref_trie_step:
  assumes "2 \<le> length es" "d < 256"
  shows "ref_trie d es =
    (let l = filter (\<lambda>e. bitAt (Label e) d = 0) es; r = filter (\<lambda>e. bitAt (Label e) d = 1) es
     in if r = [] then ref_trie (d + 1) l
        else if l = [] then ref_trie (d + 1) r
        else ANode (prefixOf (Label (hd es)) d) d (ref_trie (d + 1) l) (ref_trie (d + 1) r))"
proof -
  obtain x y es' where "es = x # y # es'" using assms(1) by (cases es; cases "tl es") auto
  then show ?thesis using assms(2) by (subst ref_trie.simps) simp
qed

lemma agree_bit:
  assumes "agree (Suc d) es"
  shows "filter (\<lambda>e. bitAt (Label e) d = 0) es = es \<and> filter (\<lambda>e. bitAt (Label e) d = 1) es = [] \<or>
    filter (\<lambda>e. bitAt (Label e) d = 1) es = es \<and> filter (\<lambda>e. bitAt (Label e) d = 0) es = []"
proof (cases es)
  case (Cons x xs)
  then have x: "bitAt (Label e) d = bitAt (Label x) d" if "e \<in> set es" for e
    using assms that by (auto simp: agree_def)
  show ?thesis
  proof (cases "bitAt (Label x) d = 0")
    case True
    then show ?thesis by (intro disjI1 conjI filter_True filter_False ballI) (simp_all only: x)
  next
    case False
    then show ?thesis
      by (intro disjI2 conjI filter_True filter_False ballI) (use x bitAt_cases[of "Label x" d] in simp_all)
  qed
qed simp

lemma ref_trie_skip:
  assumes "agree k es" "d \<le> k" "k \<le> 256" "2 \<le> length es"
  shows "ref_trie d es = ref_trie k es"
  using assms(2)
proof (induction rule: inc_induct)
  case (step n)
  have a: "agree (Suc n) es" by (rule agree_sub[OF assms(1)]) (use step(2) in auto)
  have "es \<noteq> []" using assms(4) by auto
  have "n < 256" using step(2) assms(3) by linarith
  note s = ref_trie_step[OF assms(4) \<open>n < 256\<close>, unfolded Let_def]
  from agree_bit[OF a] have "ref_trie n es = ref_trie (Suc n) es"
  proof (elim disjE conjE)
    assume "filter (\<lambda>e. bitAt (Label e) n = 0) es = es" "filter (\<lambda>e. bitAt (Label e) n = 1) es = []"
    then show ?thesis unfolding s by (simp only: if_True) simp
  next
    assume "filter (\<lambda>e. bitAt (Label e) n = 1) es = es" "filter (\<lambda>e. bitAt (Label e) n = 0) es = []"
    then show ?thesis unfolding s using \<open>es \<noteq> []\<close> by (simp only: if_True if_False) simp
  qed
  then show ?case using step by simp
qed simp

lemma agree_filter: "agree d es \<Longrightarrow> agree (d + 1) (filter (\<lambda>e. bitAt (Label e) d = b) es)"
  by (auto simp: agree_def less_Suc_eq)

lemma prefixOf_agree:
  assumes "length a = 32" "length b = 32" "\<forall>j<l. bitAt a j = bitAt b j"
  shows "prefixOf a l = prefixOf b l"
proof (cases "l = 0 \<or> 256 \<le> l")
  case True
  have "a = b" if "256 \<le> l"
  proof (rule nth_equalityI)
    fix q assume "q < length a"
    then show "a ! q = b ! q" unfolding byte_bits using assms that by auto
  qed (use assms in simp)
  then show ?thesis using True by (auto simp: prefixOf_def)
next
  case False
  define q where "q = (l - 1) div 8"
  define r where "r = (l - 1) mod 8"
  have l: "l = 8 * q + r + 1" "r < 8" using False mult_div_mod_eq[of 8 "l - 1"] by (auto simp: q_def r_def)
  have q: "q < 32" using False l by linarith
  have "take q a = take q b"
  proof (rule nth_equalityI)
    fix j assume "j < length (take q a)"
    then have "j < q" by simp
    then show "take q a ! j = take q b ! j" using assms(3) l by (simp add: byte_bits)
  qed (use assms in simp)
  moreover have "push_bit (7 - r) (drop_bit (7 - r) (a ! q)) = push_bit (7 - r) (drop_bit (7 - r) (b ! q))"
  proof (rule bit_word_eqI)
    fix n assume n: "n < LENGTH(8)"
    have "bit (a ! q) n = bit (b ! q) n" if "7 - r \<le> n"
    proof -
      have m: "7 - n < 8" "7 - (7 - n) = n" "8 * q + (7 - n) < l" using n that l by auto
      show ?thesis
        using assms(3)[rule_format, OF m(3)] unfolding bitAt_byte[OF m(1)] m(2) of_bool_eq_iff .
    qed
    then show "bit (push_bit (7 - r) (drop_bit (7 - r) (a ! q))) n = bit (push_bit (7 - r) (drop_bit (7 - r) (b ! q))) n"
      using n by (auto simp: bit_push_bit_iff bit_drop_bit_eq)
  qed
  ultimately show ?thesis using False unfolding prefixOf_def Let_def q_def r_def by simp
qed

text \<open>The reference does not depend on the order of its input.\<close>

lemma ref_trie_mset:
  assumes "mset es = mset es'" "agree d es" "\<forall>e\<in>set es. length (Label e) = 32"
  shows "ref_trie d es = ref_trie d es'"
  using assms
proof (induction "256 - d" arbitrary: d es es')
  case 0
  then have d: "256 \<le> d" by simp
  have "length es = length es'" using 0(2) by (metis size_mset)
  then show ?case using 0(2) d
    by (cases es; cases es'; cases "tl es"; cases "tl es'") (auto simp: ref_trie.simps)
next
  case (Suc n)
  have len: "length es = length es'" using Suc(3) by (metis size_mset)
  show ?case
  proof (cases "length es \<le> 1")
    case True
    then show ?thesis using Suc(3) len by (cases es; cases es') auto
  next
    case False
    then have two: "2 \<le> length es" "2 \<le> length es'" and d: "d < 256" using len Suc(2) by auto
    have s: "set es = set es'" using Suc(3) by (metis set_mset_mset)
    have f: "mset (filter P es) = mset (filter P es')" for P using Suc(3) by (simp add: mset_filter)
    have e: "filter P es = [] \<longleftrightarrow> filter P es' = []" for P using f[of P] by (metis mset_zero_iff)
    have r: "ref_trie (d + 1) (filter (\<lambda>e. bitAt (Label e) d = b) es) =
        ref_trie (d + 1) (filter (\<lambda>e. bitAt (Label e) d = b) es')" for b
    proof (rule Suc(1)[OF _ f agree_filter[OF Suc(4)]])
      show "n = 256 - (d + 1)" using Suc(2) by linarith
    qed (use Suc(5) in simp)
    have "hd es \<in> set es" "hd es' \<in> set es"
      unfolding s using two hd_in_set[of es] hd_in_set[of es'] s by fastforce+
    then have p: "prefixOf (Label (hd es)) d = prefixOf (Label (hd es')) d"
      by (intro prefixOf_agree allI impI agreeD[OF Suc(4)]) (use Suc(5) s in auto)
    show ?thesis unfolding ref_trie_step[OF two(1) d] ref_trie_step[OF two(2) d] Let_def e r p ..
  qed
qed

lemma sorted_labels_nth: "sorted (map Label es) \<Longrightarrow> i \<le> j \<Longrightarrow> j < length es \<Longrightarrow> Label (es ! i) \<le> Label (es ! j)"
  using sorted_nth_mono[of "map Label es" i j] by (metis le_less_trans length_map nth_map)

lemma ordered_bit:
  assumes "length (Label x) = 32" "length (Label y) = 32" "Label x \<le> Label y"
    and "\<forall>j<k. bitAt (Label x) j = bitAt (Label y) j" "bitAt (Label x) k \<noteq> bitAt (Label y) k"
  shows "bitAt (Label x) k = 0 \<and> bitAt (Label y) k = 1"
proof -
  have "Label x < Label y" using assms(3,5) by (auto simp: le_less)
  then show ?thesis using bits_less_first[OF label_order assms(4,5)] assms(1,2) by blast
qed

text \<open>
  In a sorted range the prefix of the first and the last label is common to all, and the
  next bit is 0 up to the place binary search finds and 1 from there on.
\<close>

lemma range_prefix:
  assumes "sorted (map Label es)" "\<forall>e\<in>set es. length (Label e) = 32" "es \<noteq> []"
    and "\<forall>j<k. bitAt (Label (es ! 0)) j = bitAt (Label (last es)) j"
  shows "agree k es"
proof -
  let ?x = "es ! 0" and ?y = "last es"
  have mem: "?x \<in> set es" "?y \<in> set es" using assms(3) by auto
  have eq: "bitAt (Label e) j = bitAt (Label ?x) j" if e: "e \<in> set es" "j < k" for e j
  proof (rule ccontr)
    assume ne: "bitAt (Label e) j \<noteq> bitAt (Label ?x) j"
    define i where "i = (LEAST i. bitAt (Label e) i \<noteq> bitAt (Label ?x) i)"
    have i: "bitAt (Label e) i \<noteq> bitAt (Label ?x) i" unfolding i_def using ne by (rule LeastI)
    have below: "\<forall>l<i. bitAt (Label e) l = bitAt (Label ?x) l" unfolding i_def using not_less_Least by blast
    have "i \<le> j" unfolding i_def using ne by (rule Least_le)
    then have ik: "i < k" using e(2) by simp
    obtain n where n: "n < length es" "e = es ! n" using e(1) by (metis in_set_conv_nth)
    have "Label ?x \<le> Label e" using sorted_labels_nth[OF assms(1), of 0 n] n by simp
    then have one: "bitAt (Label e) i = 1"
      using ordered_bit[of ?x e i] below i assms(2) mem e(1) by (metis (full_types))
    have "Label e \<le> Label ?y"
      using sorted_labels_nth[OF assms(1), of n "length es - 1"] n assms(3) by (simp add: last_conv_nth)
    moreover have "\<forall>l<i. bitAt (Label e) l = bitAt (Label ?y) l" using below assms(4) ik by simp
    moreover have "bitAt (Label e) i \<noteq> bitAt (Label ?y) i" using i assms(4) ik by simp
    ultimately have "bitAt (Label e) i = 0"
      using ordered_bit[of e ?y i] assms(2) mem e(1) by blast
    then show False using one by simp
  qed
  show ?thesis unfolding agree_def by (simp add: eq)
qed

lemma range_split:
  assumes "sorted (map Label es)" "\<forall>e\<in>set es. length (Label e) = 32" "es \<noteq> []" "agree k es"
    and "m = Search (length es) (\<lambda>i. bitAt (Label (es ! i)) k = 1)"
  shows "filter (\<lambda>e. bitAt (Label e) k = 0) es = take m es \<and> filter (\<lambda>e. bitAt (Label e) k = 1) es = drop m es"
proof -
  let ?P = "\<lambda>i. bitAt (Label (es ! i)) k = 1"
  have mono: "?P j" if ij: "i \<le> j" "j < length es" "?P i" for i j
  proof (rule ccontr)
    assume n: "\<not> ?P j"
    have "Label (es ! i) \<le> Label (es ! j)" using sorted_labels_nth[OF assms(1), of i j] ij by simp
    moreover have "\<forall>l<k. bitAt (Label (es ! i)) l = bitAt (Label (es ! j)) l"
      using agreeD[OF assms(4)] ij nth_mem by (meson le_less_trans)
    ultimately show False using ordered_bit[of "es ! i" "es ! j" k] assms(2) n ij by auto
  qed
  have m: "m \<le> length es" "m = 0 \<or> \<not> ?P (m - 1)" "m = length es \<or> ?P m"
    using Search_spec[of "length es" ?P] by (auto simp: assms(5))
  have low: "bitAt (Label (es ! i)) k = 0" if "i < m" for i
  proof -
    have "i \<le> m - 1" "m - 1 < length es" "m \<noteq> 0" using that m(1) by auto
    then have "\<not> ?P i" using mono[of i "m - 1"] m(2) by blast
    then show ?thesis using bitAt_cases by blast
  qed
  have high: "?P i" if "m \<le> i" "i < length es" for i using mono[of m i] m(3) that by auto
  have t: "\<forall>e\<in>set (take m es). bitAt (Label e) k = 0" using low by (auto simp: in_set_conv_nth)
  have d: "\<forall>e\<in>set (drop m es). bitAt (Label e) k = 1" using high m(1) by (auto simp: in_set_conv_nth)
  have f: "filter P es = filter P (take m es) @ filter P (drop m es)" for P
    by (metis append_take_drop_id filter_append)
  show ?thesis
    unfolding f[of "\<lambda>e. bitAt (Label e) k = 0"] f[of "\<lambda>e. bitAt (Label e) k = 1"] using t d by simp
qed

lemma build_ref:
  assumes "sorted (map Label es)" "sorted_wrt diverge es" "\<forall>e\<in>set es. elem_ok e" "agree d es"
  shows "build es = Some (ref_trie d es)"
  using assms
proof (induction es arbitrary: d rule: length_induct)
  case (1 es)
  show ?case
  proof (cases "length es \<le> 1")
    case True
    then show ?thesis by (cases es) (auto simp: build.simps)
  next
    case False
    then have two: "2 \<le> length es" and ne: "es \<noteq> []" by auto
    let ?x = "es ! 0" and ?y = "es ! (length es - 1)"
    have l: "last es = ?y" using ne by (simp add: last_conv_nth)
    have mem: "?x \<in> set es" "?y \<in> set es" using ne two by (auto intro!: nth_mem)
    have len: "\<forall>e\<in>set es. length (Label e) = 32" using 1(4) by (simp add: elem_ok_def)
    have "diverge ?x ?y" using sorted_wrt_nth_less[OF 1(3), of 0 "length es - 1"] two by simp
    then obtain c where c: "c < unat (Len ?x)" "c < unat (Len ?y)" "bitAt (Label ?x) c \<noteq> bitAt (Label ?y) c"
      by (auto simp: diverge_def)
    have ok: "unat (Len ?x) \<le> 256" "unat (Len ?y) \<le> 256" using 1(4) mem by (auto simp: elem_ok_def)
    obtain k where k: "commonPrefixLen ?x ?y = Some k" "k \<le> unat (Len ?x)" "k \<le> unat (Len ?y)"
      "\<forall>j<k. bitAt (Label ?x) j = bitAt (Label ?y) j"
      "k < unat (Len ?x) \<and> k < unat (Len ?y) \<longrightarrow> bitAt (Label ?x) k \<noteq> bitAt (Label ?y) k"
      using commonPrefixLen_spec[OF ok] by blast
    have "\<not> c < k" using k(4) c(3) by blast
    then have kl: "k < unat (Len ?x)" "k < unat (Len ?y)" using c by auto
    have k256: "k < 256" using kl ok by simp
    have bk: "bitAt (Label ?x) k = 0" "bitAt (Label ?y) k = 1"
      using ordered_bit[of ?x ?y k] k kl len mem sorted_labels_nth[OF 1(2), of 0 "length es - 1"] two by auto
    have ak: "agree k es" by (rule range_prefix[OF 1(2) len ne]) (simp add: l k(4))
    have dk: "d \<le> k"
    proof (rule ccontr)
      assume "\<not> d \<le> k"
      then have "bitAt (Label ?x) k = bitAt (Label ?y) k" using agreeD[OF 1(5) mem] by simp
      then show False using bk by simp
    qed
    define m where m: "m = Search (length es) (\<lambda>i. bitAt (Label (es ! i)) k = 1)"
    note f = range_split[OF 1(2) len ne ak m]
    note ms = Search_spec[of "length es" "\<lambda>i. bitAt (Label (es ! i)) k = 1", folded m]
    have m0: "m \<noteq> 0" using ms(2) bk(1) ne by (metis length_0_conv zero_neq_one)
    have mn: "m \<noteq> length es" using ms(1) bk(2) ne by (metis length_0_conv)
    have ml: "m < length es" using mn m by (simp add: le_neq_implies_less)
    have ih: "build xs = Some (ref_trie (k + 1) xs)" if "xs = take m es \<or> xs = drop m es" for xs
    proof -
      have "length xs < length es" using that ml m0 by auto
      moreover have "sorted (map Label xs)" "sorted_wrt diverge xs"
        using that 1(2,3) by (auto simp: take_map[symmetric] drop_map[symmetric] sorted_wrt_take sorted_wrt_drop)
      moreover have "\<forall>e\<in>set xs. elem_ok e" using that 1(4) by (auto dest: in_set_takeD in_set_dropD)
      moreover have "agree (k + 1) xs" using agree_filter[OF ak, of 0] agree_filter[OF ak, of 1] f that by auto
      ultimately show ?thesis using 1(1) by blast
    qed
    have "build es = Some (ANode (prefixOf (Label ?x) k) k (ref_trie (k + 1) (take m es)) (ref_trie (k + 1) (drop m es)))"
      unfolding build_step[OF two k(1) m] using kl k256 m0 mn ih by simp
    moreover have "ref_trie d es = ref_trie k es" by (rule ref_trie_skip[OF ak dk _ two]) (use k256 in simp)
    moreover have "take m es \<noteq> []" "drop m es \<noteq> []" using ml m0 ne by auto
    then have "ref_trie k es = ANode (prefixOf (Label ?x) k) k (ref_trie (k + 1) (take m es)) (ref_trie (k + 1) (drop m es))"
      unfolding ref_trie_step[OF two k256] Let_def using f ne by (simp add: hd_conv_nth)
    ultimately show ?thesis by simp
  qed
qed

lemma root_ref:
  assumes "sorted (map Label es)" "sorted_wrt diverge es" "\<forall>e\<in>set es. elem_ok e"
  shows "root_trie es = Some (ref_root es)"
proof (cases "es = []")
  case True
  then show ?thesis by (simp add: root_trie_def ref_root_def)
next
  case ne: False
  define m where m: "m = Search (length es) (\<lambda>i. bitAt (Label (es ! i)) 0 = 1)"
  have a0: "agree 0 es" by (simp add: agree_def)
  have len: "\<forall>e\<in>set es. length (Label e) = 32" using assms(3) by (simp add: elem_ok_def)
  note f = range_split[OF assms(1) len ne a0 m]
  have b: "build xs = Some (ref_trie 1 xs)" if "xs = take m es \<or> xs = drop m es" for xs
  proof (rule build_ref)
    show "sorted (map Label xs)" "sorted_wrt diverge xs"
      using that assms(1,2) by (auto simp: take_map[symmetric] drop_map[symmetric] sorted_wrt_take sorted_wrt_drop)
    show "\<forall>e\<in>set xs. elem_ok e" using that assms(3) by (auto dest: in_set_takeD in_set_dropD)
    show "agree 1 xs" using agree_filter[OF a0, of 0] agree_filter[OF a0, of 1] f that by auto
  qed
  show ?thesis using ne b f unfolding root_trie_def Let_def m[symmetric] ref_root_def by simp
qed

lemma ref_root_mset:
  assumes "mset es = mset es'" "\<forall>e\<in>set es. length (Label e) = 32"
  shows "ref_root es = ref_root es'"
proof -
  have "ref_trie 1 (filter (\<lambda>e. bitAt (Label e) 0 = b) es) = ref_trie 1 (filter (\<lambda>e. bitAt (Label e) 0 = b) es')" for b
    by (rule ref_trie_mset) (use assms agree_filter[of 0 es b] in \<open>auto simp: agree_def mset_filter\<close>)
  moreover have "es = [] \<longleftrightarrow> es' = []" using assms(1) by (metis mset_zero_iff)
  ultimately show ?thesis by (simp add: ref_root_def)
qed

lemma sorted_keys_labels: "sorted (map sort_keyof es) \<Longrightarrow> sorted (map Label es)"
  unfolding sorted_map by (erule sorted_wrt_mono_rel[rotated]) (auto simp: sort_keyof_def less_eq_prod_def)

lemma sorted_Sort: "sorted (map sort_keyof (Sort es))"
  by (simp add: Sort_def)

lemma less_elem_key: "less_elem a b \<longleftrightarrow> sort_keyof a < sort_keyof b"
  by (auto simp: less_elem_def sort_keyof_def less_prod_def)

lemma sorted_merge:
  "sorted (map sort_keyof as) \<Longrightarrow> sorted (map sort_keyof bs) \<Longrightarrow> sorted (map sort_keyof (merge_elems as bs))"
  by (induction as bs rule: merge_elems.induct) (auto simp: less_elem_key not_less intro: order.trans less_imp_le)

lemma mset_Sort [simp]: "mset (Sort es) = mset es"
  by (simp add: Sort_def)

lemma mset_merge_elems [simp]: "mset (merge_elems as bs) = mset as + mset bs"
  by (induction as bs rule: merge_elems.induct) auto

lemma diverge_distinct: "sorted_wrt diverge es \<longleftrightarrow> distinct es \<and> (\<forall>x\<in>set es. \<forall>y\<in>set es. x \<noteq> y \<longrightarrow> diverge x y)"
proof (induction es)
  case (Cons e es)
  have "\<not> diverge e e" by (simp add: diverge_def)
  then show ?case using Cons diverge_sym by auto
qed simp

lemma diverge_mset: "mset es = mset es' \<Longrightarrow> sorted_wrt diverge es \<Longrightarrow> sorted_wrt diverge es'"
  unfolding diverge_distinct by (metis mset_eq_imp_distinct_iff mset_eq_setD)

text \<open>The order of a slice that is already sorted does not matter to the root.\<close>

lemma Root_ref:
  assumes "sorted (map sort_keyof es)" "mset es = mset fs" "sorted_wrt diverge fs" "\<forall>e\<in>set fs. elem_ok e"
  shows "akd_Root b3 es = Inr (root_of b3 (ref_root fs))"
proof -
  have "\<forall>e\<in>set es. elem_ok e" using assms(2,4) by (metis mset_eq_setD)
  then have "root_trie es = Some (ref_root es)"
    using root_ref[OF sorted_keys_labels[OF assms(1)]] diverge_mset[OF assms(2)[symmetric] assms(3)] by blast
  moreover have "ref_root es = ref_root fs"
    using ref_root_mset[OF assms(2)] assms(4) mset_eq_setD[OF assms(2)] by (simp add: elem_ok_def)
  ultimately show ?thesis by (auto simp: Root_trie)
qed

text \<open>
C15. On elements whose labels part before either ends, the sorted-slice build with binary
  search computes exactly the two roots of the reference build, which partitions an unsorted
  set bit by bit, and never returns an error or panics.
\<close>

theorem Roots_is_reference:
  assumes "hash32 b3" "\<forall>e\<in>set unchanged \<union> set inserted. elem_ok e" "sorted_wrt diverge (unchanged @ inserted)"
  shows "fst (Roots b3 unchanged inserted endEpoch) =
    Inr (root_of b3 (ref_root unchanged),
         root_of b3 (ref_root (unchanged @ map (commit b3 endEpoch) inserted)))"
proof -
  let ?com = "map (commit b3 endEpoch) inserted"
  have ok: "\<forall>e\<in>set (unchanged @ ?com). elem_ok e"
    using assms(2) by (auto simp: elem_ok_def commit_def HashLeafWithCommitment_def hash32_lengths[OF assms(1)])
  have key: "diverge (commit b3 endEpoch x) y \<longleftrightarrow> diverge x y" "diverge x (commit b3 endEpoch y) \<longleftrightarrow> diverge x y" for x y
    by (simp_all add: diverge_def commit_def)
  have div: "sorted_wrt diverge (unchanged @ ?com)" "sorted_wrt diverge unchanged"
    using assms(3) by (auto simp: sorted_wrt_append sorted_wrt_map key)
  have "akd_Root b3 (Sort unchanged) = Inr (root_of b3 (ref_root unchanged))"
    by (rule Root_ref[OF sorted_Sort]) (use div assms(2) in auto)
  moreover have "akd_Root b3 (merge_elems (Sort unchanged) (Sort ?com)) = Inr (root_of b3 (ref_root (unchanged @ ?com)))"
    by (rule Root_ref[OF sorted_merge[OF sorted_Sort sorted_Sort] _ div(1) ok]) simp
  ultimately show ?thesis by (simp add: Roots_def Let_def commit_def[abs_def])
qed

lemma distinct_halves:
  assumes "distinct (map f (take m es))" "distinct (map f (drop m es))" "f ` set (take m es) \<inter> f ` set (drop m es) = {}"
  shows "distinct (map f es)"
proof -
  have "distinct (map f (take m es) @ map f (drop m es))" using assms by (simp only: distinct_append set_map)
  then show ?thesis by (simp only: map_append[symmetric] append_take_drop_id)
qed

lemma build_distinct:
  assumes "build es = Some t" "sorted (map Label es)" "\<forall>e\<in>set es. elem_ok e"
  shows "distinct (map Label es)"
  using assms
proof (induction es arbitrary: t rule: length_induct)
  case (1 es)
  show ?case
  proof (cases "length es \<le> 1")
    case True
    then show ?thesis by (cases es) auto
  next
    case False
    then have two: "2 \<le> length es" and ne: "es \<noteq> []" "length es \<noteq> 1" by auto
    let ?x = "es ! 0" and ?y = "es ! (length es - 1)"
    have mem: "?x \<in> set es" "?y \<in> set es" using ne two by (auto intro!: nth_mem)
    have len: "\<forall>e\<in>set es. length (Label e) = 32" using 1(4) by (simp add: elem_ok_def)
    obtain k where k: "commonPrefixLen ?x ?y = Some k"
      "\<forall>j<k. bitAt (Label ?x) j = bitAt (Label ?y) j"
      using commonPrefixLen_spec[of ?x ?y] 1(4) mem by (auto simp: elem_ok_def)
    define m where m: "m = Search (length es) (\<lambda>i. bitAt (Label (es ! i)) k = 1)"
    obtain a b where ab: "m \<noteq> 0" "m \<noteq> length es" "build (take m es) = Some a" "build (drop m es) = Some b"
      using 1(2) unfolding build_step[OF two k(1) m] by (auto split: if_splits option.splits)
    have ml: "m < length es" using ab(2) m by (simp add: le_neq_implies_less)
    have ak: "agree k es" by (rule range_prefix[OF 1(3) len ne(1)]) (use k(2) ne in \<open>simp add: last_conv_nth\<close>)
    note f = range_split[OF 1(3) len ne(1) ak m]
    have d: "distinct (map Label xs)" if "xs = take m es \<or> xs = drop m es" for xs
    proof -
      have "length xs < length es" using that ml ab(1) by auto
      moreover have "sorted (map Label xs)"
        using that 1(3) by (auto simp: take_map[symmetric] drop_map[symmetric] sorted_wrt_take sorted_wrt_drop)
      moreover have "\<forall>e\<in>set xs. elem_ok e" using that 1(4) by (auto dest: in_set_takeD in_set_dropD)
      moreover have "\<exists>t. build xs = Some t" using that ab by auto
      ultimately show ?thesis using 1(1) by blast
    qed
    have "\<forall>e\<in>set (take m es). bitAt (Label e) k = 0" "\<forall>e\<in>set (drop m es). bitAt (Label e) k = 1"
      unfolding f[THEN conjunct1, symmetric] f[THEN conjunct2, symmetric] by simp_all
    then have "Label ` set (take m es) \<inter> Label ` set (drop m es) = {}" by fastforce
    then show ?thesis by (rule distinct_halves[OF d d, rotated 2]) auto
  qed
qed

lemma Root_distinct:
  assumes "akd_Root b3 es = Inr r" "sorted (map sort_keyof es)" "\<forall>e\<in>set es. elem_ok e"
  shows "distinct (map Label es)"
proof (cases "es = []")
  case ne: False
  have s: "sorted (map Label es)" by (rule sorted_keys_labels[OF assms(2)])
  have len: "\<forall>e\<in>set es. length (Label e) = 32" using assms(3) by (simp add: elem_ok_def)
  define m where m: "m = Search (length es) (\<lambda>i. bitAt (Label (es ! i)) 0 = 1)"
  obtain a b where ab: "build (take m es) = Some a" "build (drop m es) = Some b"
    using assms(1) ne by (auto simp: Root_trie root_trie_def m Let_def split: option.splits)
  have "agree 0 es" by (simp add: agree_def)
  note f = range_split[OF s len ne this m]
  have d: "distinct (map Label (take m es))" "distinct (map Label (drop m es))"
    by (rule build_distinct[OF ab(1)] build_distinct[OF ab(2)];
        use s assms(3) in \<open>auto simp: take_map[symmetric] drop_map[symmetric] sorted_wrt_take sorted_wrt_drop
          dest: in_set_takeD in_set_dropD\<close>)+
  have "\<forall>e\<in>set (take m es). bitAt (Label e) 0 = 0" "\<forall>e\<in>set (drop m es). bitAt (Label e) 0 = 1"
    unfolding f[THEN conjunct1, symmetric] f[THEN conjunct2, symmetric] by simp_all
  then have "Label ` set (take m es) \<inter> Label ` set (drop m es) = {}" by fastforce
  then show ?thesis by (rule distinct_halves[OF d])
qed simp

theorem accepted_labels_distinct:
  assumes "hash32 b3" "\<forall>e\<in>set unchanged \<union> set inserted. elem_ok e"
    and "fst (Roots b3 unchanged inserted endEpoch) = Inr r"
  shows "distinct (map Label (unchanged @ inserted))"
proof -
  let ?com = "map (commit b3 endEpoch) inserted"
  let ?both = "merge_elems (Sort unchanged) (Sort ?com)"
  obtain c where "akd_Root b3 ?both = Inr c"
    using assms(3) by (auto simp: Roots_def Let_def commit_def[abs_def] split: sum.splits)
  moreover have "\<forall>e\<in>set ?both. elem_ok e"
    using assms(2) by (auto simp: elem_ok_def commit_def HashLeafWithCommitment_def hash32_lengths[OF assms(1)])
  ultimately have "distinct (map Label ?both)" using Root_distinct sorted_merge[OF sorted_Sort sorted_Sort] by blast
  moreover have "mset (map Label ?both) = mset (map Label (unchanged @ inserted))"
    by (simp add: image_mset.compositionality o_def commit_def)
  ultimately show ?thesis by (metis mset_eq_imp_distinct_iff)
qed

subsection \<open>Worked instances\<close>

definition wit_elem :: "byte \<Rightarrow> byte \<Rightarrow> Element" where
  "wit_elem a v = \<lparr>Label = a # replicate 31 0, Len = 256, Value = h32 v\<rparr>"

definition wit_dir :: "Element list" where
  "wit_dir = [wit_elem 0x90 2, wit_elem 0x80 1]"

definition wit_inserted :: "Element list" where
  "wit_inserted = [wit_elem 0x10 3]"

definition wit_dir' :: "Element list" where
  "wit_dir' = map (commit toy_sha 7) wit_inserted @ wit_dir"

definition wit_root :: "byte \<Rightarrow> bytes" where
  "wit_root b = replicate 31 0 @ [b]"

lemma hash32_toy: "hash32 toy_sha"
  by (simp add: hash32_def)

lemma wit_elems_ok: "full_elem (wit_elem a v)" "elem_ok (wit_elem a v)" "full_elem (commit toy_sha n (wit_elem a v))"
  by (simp_all add: full_elem_def elem_ok_def wit_elem_def commit_def HashLeafWithCommitment_def)

lemma wit_roots:
  "akd_Root toy_sha (Sort wit_dir) = Inr (wit_root 237)" "akd_Root toy_sha (Sort wit_dir') = Inr (wit_root 165)"
  "VerifyAppendOnly toy_sha wit_dir wit_inserted (wit_root 237) (wit_root 165) 7 = Inr True"
  by code_simp+

theorem append_only_sound_witness:
  "akd_Root toy_sha (Sort wit_dir) = Inr (wit_root 237) \<and> akd_Root toy_sha (Sort wit_dir') = Inr (wit_root 165) \<and>
   VerifyAppendOnly toy_sha wit_dir wit_inserted (wit_root 237) (wit_root 165) 7 = Inr True \<and>
   ((set wit_dir \<subseteq> set wit_dir' \<and> set wit_dir' - set wit_dir \<subseteq> commit toy_sha 7 ` set wit_inserted) \<or>
    collides toy_sha (set (append_pre toy_sha wit_dir wit_inserted 7 wit_dir wit_dir')))"
  using append_only_sound[OF hash32_toy _ _ wit_roots] wit_roots wit_elems_ok
  by (simp add: wit_dir_def wit_inserted_def wit_dir'_def)

lemma wit_diverge: "sorted_wrt diverge (wit_dir @ wit_inserted)"
proof -
  have "diverge (wit_elem 0x90 2) (wit_elem 0x80 1)" unfolding diverge_def
    by (rule exI[of _ 3]) (simp add: wit_elem_def bitAt_def)
  moreover have "diverge (wit_elem 0x90 2) (wit_elem 0x10 3)" "diverge (wit_elem 0x80 1) (wit_elem 0x10 3)"
    unfolding diverge_def by (rule exI[of _ 0], simp add: wit_elem_def bitAt_def)+
  ultimately show ?thesis by (simp add: wit_dir_def wit_inserted_def)
qed

theorem Roots_is_reference_witness:
  "fst (Roots toy_sha wit_dir wit_inserted 7) =
    Inr (root_of toy_sha (ref_root wit_dir),
         root_of toy_sha (ref_root (wit_dir @ map (commit toy_sha 7) wit_inserted))) \<and>
   ref_root wit_dir \<noteq> Tip"
  using Roots_is_reference[OF hash32_toy _ wit_diverge, of 7] wit_elems_ok
  by (simp add: wit_dir_def wit_inserted_def ref_root_def)

theorem accepted_labels_distinct_witness:
  "is_ok (fst (Roots toy_sha wit_dir wit_inserted 7)) \<and> distinct (map Label (wit_dir @ wit_inserted))"
proof -
  have r: "fst (Roots toy_sha wit_dir wit_inserted 7) = Inr (wit_root 237, wit_root 165)" by code_simp
  show ?thesis
    using accepted_labels_distinct[OF hash32_toy _ r] wit_elems_ok r
    by (simp add: wit_dir_def wit_inserted_def)
qed

text \<open>
  The guard of \<open>subtree\<close> looks at the first element of a range only.  The element of label
  length 1 below has the label of the node that covers both, and sorts last because of a
  bit past its length; the set is accepted.
\<close>

lemma misplaced_element_accepted:
  "is_ok (akd_Root toy_sha (Sort [\<lparr>Label = replicate 32 0, Len = 256, Value = h32 1\<rparr>,
      \<lparr>Label = 0x40 # replicate 31 0, Len = 1, Value = h32 2\<rparr>]))"
  by code_simp

lemma misplaced_element_refused:
  "akd_Root toy_sha (Sort [\<lparr>Label = replicate 32 0, Len = 256, Value = h32 1\<rparr>,
      \<lparr>Label = replicate 32 0, Len = 1, Value = h32 2\<rparr>]) = Inl (SitsOnInterior 1)"
  by code_simp

end
