(* ===== verification/Akd_Wire.thy ===== *)
theory Akd_Wire
  imports Akd_Tree
begin

text \<open>
  The wire format of AKD proofs, \<open>internal/akdtree/decode.go\<close> and
  \<open>internal/akdtree/ranges.go\<close>: the two-pass decoder with its callback walk, and the
  framing functions the proof server uses to find the bytes of a field.

  \<open>binary.Uvarint\<close> is the standard library's reader: the value and the number of bytes,
  0 when the buffer ends inside the varint, negative when it overflows 64 bits.
  A callback with captured variables is a function on the state of those variables.
\<close>

subsection \<open>\<open>encoding/binary\<close>\<close>

fun uv_loop :: "nat \<Rightarrow> u64 \<Rightarrow> bytes \<Rightarrow> u64 \<times> int" where
  "uv_loop i x [] = (0, 0)"
| "uv_loop i x (b # bs) =
     (if i = 10 then (0, - (int i + 1))
      else if b < 0x80 then
        (if i = 9 \<and> b > 1 then (0, - (int i + 1)) else (x OR push_bit (7 * i) (ucast b), int i + 1))
      else uv_loop (i + 1) (x OR push_bit (7 * i) (ucast (b AND 0x7f))) bs)"

definition Uvarint :: "bytes \<Rightarrow> u64 \<times> int" where
  "Uvarint buf = uv_loop 0 0 buf"

lemma uv_loop_len: "snd (uv_loop i x bs) \<le> int (i + length bs)"
  by (induction i x bs rule: uv_loop.induct) (auto simp: Let_def)

lemma Uvarint_len: "Uvarint buf = (v, n) \<Longrightarrow> n \<le> int (length buf)"
  using uv_loop_len[of 0 0 buf] by (simp add: Uvarint_def)

subsection \<open>The walk\<close>

datatype wire_error =
    MalformedKey
  | TruncatedField nat
  | MalformedVarint nat
  | TruncatedFixed32 nat
  | TruncatedFixed64 nat
  | UnsupportedWireType nat
  | LabelTooLong nat
  | BadValueLength nat
  | MissingPart
  | LabelLenExceeds u32

function walk :: "(nat \<Rightarrow> bytes \<Rightarrow> 's \<Rightarrow> wire_error + 's) \<Rightarrow> bytes \<Rightarrow> 's \<Rightarrow> wire_error + 's" where
  "walk fn data st =
     (if data = [] then Inr st
      else case Uvarint data of (key, n) \<Rightarrow>
        if n \<le> 0 then Inl MalformedKey
        else let data1 = drop (nat n) data; field = unat (drop_bit 3 key)
             in if key AND 7 = 2 then
                  (case Uvarint data1 of (l, m) \<Rightarrow>
                     if m \<le> 0 \<or> length data1 - nat m < unat l then Inl (TruncatedField field)
                     else case fn field (go_slice (nat m) (nat m + unat l) data1) st of
                            Inl e \<Rightarrow> Inl e
                          | Inr st' \<Rightarrow> walk fn (drop (nat m + unat l) data1) st')
                else if key AND 7 = 0 then
                  (case Uvarint data1 of (_, m) \<Rightarrow>
                     if m \<le> 0 then Inl (MalformedVarint field) else walk fn (drop (nat m) data1) st)
                else if key AND 7 = 5 then
                  (if length data1 < 4 then Inl (TruncatedFixed32 field) else walk fn (drop 4 data1) st)
                else if key AND 7 = 1 then
                  (if length data1 < 8 then Inl (TruncatedFixed64 field) else walk fn (drop 8 data1) st)
                else Inl (UnsupportedWireType field))"
  by pat_completeness auto
termination by (relation "measure (\<lambda>(fn, data, st). length data)") (auto simp: Let_def)

declare walk.simps [simp del]

subsection \<open>The decoder\<close>

function readLabelLen :: "bytes \<Rightarrow> u32 \<Rightarrow> wire_error + u32" where
  "readLabelLen data out =
     (if data = [] then Inr out
      else case Uvarint data of (key, n) \<Rightarrow>
        if n \<le> 0 then Inl MalformedKey
        else let data1 = drop (nat n) data; field = unat (drop_bit 3 key)
             in if key AND 7 = 0 then
                  (case Uvarint data1 of (v, m) \<Rightarrow>
                     if m \<le> 0 then Inl (MalformedVarint field)
                     else readLabelLen (drop (nat m) data1) (if field = 2 then ucast v else out))
                else if key AND 7 = 2 then
                  (case Uvarint data1 of (l, m) \<Rightarrow>
                     if m \<le> 0 \<or> length data1 - nat m < unat l then Inl (TruncatedField field)
                     else readLabelLen (drop (nat m + unat l) data1) out)
                else if key AND 7 = 5 then
                  (if length data1 < 4 then Inl (TruncatedFixed32 field) else readLabelLen (drop 4 data1) out)
                else if key AND 7 = 1 then
                  (if length data1 < 8 then Inl (TruncatedFixed64 field) else readLabelLen (drop 8 data1) out)
                else Inl (UnsupportedWireType field))"
  by pat_completeness auto
termination by (relation "measure (\<lambda>(data, out). length data)") (auto simp: Let_def)

declare readLabelLen.simps [simp del]

text \<open>\<open>copy(dst, src)\<close> into an array that already holds \<open>dst\<close>.\<close>

definition copy_over :: "bytes \<Rightarrow> bytes \<Rightarrow> bytes" where
  "copy_over dst src = take (length dst) src @ drop (length src) dst"

definition label_part :: "nat \<Rightarrow> bytes \<Rightarrow> bytes \<Rightarrow> wire_error + bytes" where
  "label_part f lb label =
     (if f = 1 then (if length lb > 32 then Inl (LabelTooLong (length lb)) else Inr (copy_over label lb))
      else Inr label)"

type_synonym elem_state = "bytes \<times> bytes \<times> bool \<times> bool"

definition elem_part :: "nat \<Rightarrow> bytes \<Rightarrow> elem_state \<Rightarrow> wire_error + elem_state" where
  "elem_part field b = (\<lambda>(label, value, sawLabel, sawValue).
     if field = 1 then
       (case walk label_part b label of
          Inl e \<Rightarrow> Inl e
        | Inr label \<Rightarrow> Inr (label, value, True, sawValue))
     else if field = 2 then
       (if length b \<noteq> 32 then Inl (BadValueLength (length b)) else Inr (label, b, sawLabel, True))
     else Inr (label, value, sawLabel, sawValue))"

definition len_part :: "nat \<Rightarrow> bytes \<Rightarrow> u32 \<Rightarrow> wire_error + u32" where
  "len_part field b out = (if field \<noteq> 1 then Inr out else readLabelLen b out)"

definition decodeElement :: "bytes \<Rightarrow> wire_error + Element" where
  "decodeElement body =
     (case walk elem_part body (replicate 32 0, replicate 32 0, False, False) of
        Inl e \<Rightarrow> Inl e
      | Inr (label, value, sawLabel, sawValue) \<Rightarrow>
          (case walk len_part body 0 of
             Inl e \<Rightarrow> Inl e
           | Inr n \<Rightarrow>
               if \<not> sawLabel \<or> \<not> sawValue then Inl MissingPart
               else if n > 256 then Inl (LabelLenExceeds n)
               else Inr \<lparr>Label = label, Len = n, Value = value\<rparr>))"

definition count_part :: "nat \<Rightarrow> bytes \<Rightarrow> nat \<times> nat \<Rightarrow> wire_error + nat \<times> nat" where
  "count_part field b = (\<lambda>(ni, nu).
     Inr (if field = 1 then (ni + 1, nu) else if field = 2 then (ni, nu + 1) else (ni, nu)))"

definition fill_part :: "nat \<Rightarrow> bytes \<Rightarrow> Element list \<times> Element list \<Rightarrow> wire_error + Element list \<times> Element list" where
  "fill_part field body = (\<lambda>(inserted, unchanged).
     case decodeElement body of
       Inl e \<Rightarrow> Inl e
     | Inr e \<Rightarrow> Inr (if field = 1 then (inserted @ [e], unchanged)
                      else if field = 2 then (inserted, unchanged @ [e]) else (inserted, unchanged)))"

text \<open>The counts of the first pass are capacities and leave the result alone.\<close>

definition Decode :: "bytes \<Rightarrow> wire_error + Element list \<times> Element list" where
  "Decode data =
     (case walk count_part data (0, 0) of
        Inl e \<Rightarrow> Inl e
      | Inr _ \<Rightarrow> walk fill_part data ([], []))"

subsection \<open>Framing\<close>

record Range =
  Start :: nat
  End :: nat

record frame =
  Field :: nat
  Wire :: u64
  frStart :: nat
  BodyStart :: nat
  frEnd :: nat

text \<open>
  \<open>nextRecord\<close> answers that the record is partial, that it is corrupt, or gives it.  The
  fields it has set before an early return only show in error messages.
\<close>

datatype framing = Partial | Corrupt wire_error | Framed frame

definition nextRecord :: "bytes \<Rightarrow> nat \<Rightarrow> framing" where
  "nextRecord data pos =
     (case Uvarint (drop pos data) of (key, n) \<Rightarrow>
        if n = 0 then Partial
        else if n < 0 then Corrupt MalformedKey
        else let r = \<lparr>Field = unat (drop_bit 3 key), Wire = key AND 7, frStart = pos, BodyStart = 0, frEnd = 0\<rparr>;
                 pos = pos + nat n
             in if Wire r = 2 then
                  (case Uvarint (drop pos data) of (l, m) \<Rightarrow>
                     if m = 0 then Partial
                     else if m < 0 then Corrupt (TruncatedField (Field r))
                     else let pos = pos + nat m
                          in if length data - pos < unat l then Partial
                             else Framed (r\<lparr>BodyStart := pos, frEnd := pos + unat l\<rparr>))
                else if Wire r = 0 then
                  (case Uvarint (drop pos data) of (_, m) \<Rightarrow>
                     if m = 0 then Partial
                     else if m < 0 then Corrupt (MalformedVarint (Field r))
                     else Framed (r\<lparr>BodyStart := pos + nat m, frEnd := pos + nat m\<rparr>))
                else if Wire r = 5 then
                  (if length data - pos < 4 then Partial else Framed (r\<lparr>BodyStart := pos + 4, frEnd := pos + 4\<rparr>))
                else if Wire r = 1 then
                  (if length data - pos < 8 then Partial else Framed (r\<lparr>BodyStart := pos + 8, frEnd := pos + 8\<rparr>))
                else Corrupt (UnsupportedWireType (Field r)))"

datatype range_error = TruncatedAt nat | BadFrame wire_error | NotElement nat u64

lemma nextRecord_advances:
  assumes "nextRecord data pos = Framed r"
  shows "frStart r = pos \<and> pos < BodyStart r \<and> BodyStart r \<le> frEnd r \<and> frEnd r \<le> length data"
proof -
  obtain key n where k: "Uvarint (drop pos data) = (key, n)" by fastforce
  obtain l m where l: "Uvarint (drop (pos + nat n) data) = (l, m)" by fastforce
  have n: "0 < n" "nat n \<le> length data - pos"
    using assms Uvarint_len[OF k] by (auto simp: nextRecord_def k split: if_splits)
  have p: "0 < nat n" "pos + nat n \<le> length data" using n by auto
  have m: "pos + nat n + nat m \<le> length data" if "0 < m" using Uvarint_len[OF l] that p by auto
  have "\<not> m < 0 \<Longrightarrow> m \<noteq> 0 \<Longrightarrow> 0 < m" by simp
  then show ?thesis
    using assms n(1) p m by (auto simp: nextRecord_def k l Let_def split: if_splits)
qed

function ranges_loop :: "bytes \<Rightarrow> nat \<Rightarrow> nat \<Rightarrow> Range list \<Rightarrow> range_error + Range list" where
  "ranges_loop data field pos out =
     (if pos < length data then
        (case nextRecord data pos of
           Corrupt e \<Rightarrow> Inl (BadFrame e)
         | Partial \<Rightarrow> Inl (TruncatedAt pos)
         | Framed r \<Rightarrow>
             if Field r \<noteq> field then ranges_loop data field (frEnd r) out
             else if out \<noteq> [] \<and> End (last out) = frStart r
             then ranges_loop data field (frEnd r) (butlast out @ [(last out)\<lparr>End := frEnd r\<rparr>])
             else ranges_loop data field (frEnd r) (out @ [\<lparr>Start = frStart r, End = frEnd r\<rparr>]))
      else Inr out)"
  by pat_completeness auto
termination
  by (relation "measure (\<lambda>(data, field, pos, out). length data - pos)") (auto dest!: nextRecord_advances)

definition FieldRanges :: "bytes \<Rightarrow> nat \<Rightarrow> range_error + Range list" where
  "FieldRanges data field = ranges_loop data field 0 []"

text \<open>\<open>ScanLeading\<close> returns the offset and, with it, an error or whether the run has ended.\<close>

function ScanLeading :: "bytes \<Rightarrow> nat \<Rightarrow> nat \<Rightarrow> nat \<times> (range_error + bool)" where
  "ScanLeading data field pos =
     (if pos < length data then
        (case nextRecord data pos of
           Corrupt e \<Rightarrow> (pos, Inl (BadFrame e))
         | Partial \<Rightarrow> (pos, Inr False)
         | Framed r \<Rightarrow>
             if Wire r \<noteq> 2 then (pos, Inl (NotElement (Field r) (Wire r)))
             else if Field r \<noteq> field then (pos, Inr True)
             else ScanLeading data field (frEnd r))
      else (pos, Inr False))"
  by pat_completeness auto
termination
  by (relation "measure (\<lambda>(data, field, pos). length data - pos)") (auto dest!: nextRecord_advances)

declare ranges_loop.simps [simp del] ScanLeading.simps [simp del]

text \<open>\<open>PayloadOffset\<close>: the state is the offset if found and the total so far.\<close>

type_synonym payload_state = "nat option \<times> nat"

definition payload_bytes :: "int \<Rightarrow> nat \<Rightarrow> nat \<Rightarrow> payload_state \<Rightarrow> payload_state" where
  "payload_bytes n b e = (\<lambda>(off, total).
     (if off = None \<and> n \<ge> int total \<and> n < int (total + e - b) then Some (b + nat n - total) else off,
      total + e - b))"

function label_scan :: "bytes \<Rightarrow> int \<Rightarrow> nat \<Rightarrow> nat \<Rightarrow> payload_state \<Rightarrow> range_error + payload_state" where
  "label_scan data n s stop st =
     (if s < stop then
        (case nextRecord data s of
           Corrupt e \<Rightarrow> Inl (BadFrame e)
         | Partial \<Rightarrow> Inl (TruncatedAt s)
         | Framed l \<Rightarrow>
             label_scan data n (frEnd l) stop
               (if Field l = 1 \<and> Wire l = 2 then payload_bytes n (BodyStart l) (frEnd l) st else st))
      else Inr st)"
  by pat_completeness auto
termination
  by (relation "measure (\<lambda>(data, n, s, stop, st). stop - s)") (auto dest!: nextRecord_advances)

function elem_scan :: "bytes \<Rightarrow> int \<Rightarrow> nat \<Rightarrow> nat \<Rightarrow> payload_state \<Rightarrow> range_error + payload_state" where
  "elem_scan data n q stop st =
     (if q < stop then
        (case nextRecord data q of
           Corrupt e \<Rightarrow> Inl (BadFrame e)
         | Partial \<Rightarrow> Inl (TruncatedAt q)
         | Framed e \<Rightarrow>
             if Wire e \<noteq> 2 then elem_scan data n (frEnd e) stop st
             else if Field e = 1 then
               (case label_scan data n (BodyStart e) (frEnd e) st of
                  Inl err \<Rightarrow> Inl err
                | Inr st \<Rightarrow> elem_scan data n (frEnd e) stop st)
             else if Field e = 2 then elem_scan data n (frEnd e) stop (payload_bytes n (BodyStart e) (frEnd e) st)
             else elem_scan data n (frEnd e) stop st)
      else Inr st)"
  by pat_completeness auto
termination
  by (relation "measure (\<lambda>(data, n, q, stop, st). stop - q)") (auto dest!: nextRecord_advances)

function payload_scan :: "bytes \<Rightarrow> nat \<Rightarrow> int \<Rightarrow> nat \<Rightarrow> payload_state \<Rightarrow> range_error + payload_state" where
  "payload_scan data field n pos st =
     (if pos < length data then
        (case nextRecord data pos of
           Corrupt e \<Rightarrow> Inl (BadFrame e)
         | Partial \<Rightarrow> Inl (TruncatedAt pos)
         | Framed r \<Rightarrow>
             if Field r \<noteq> field \<or> Wire r \<noteq> 2 then payload_scan data field n (frEnd r) st
             else (case elem_scan data n (BodyStart r) (frEnd r) st of
                     Inl err \<Rightarrow> Inl err
                   | Inr st \<Rightarrow> payload_scan data field n (frEnd r) st))
      else Inr st)"
  by pat_completeness auto
termination
  by (relation "measure (\<lambda>(data, field, n, pos, st). length data - pos)") (auto dest!: nextRecord_advances)

declare label_scan.simps [simp del] elem_scan.simps [simp del] payload_scan.simps [simp del]

definition PayloadOffset :: "bytes \<Rightarrow> nat \<Rightarrow> int \<Rightarrow> range_error + payload_state" where
  "PayloadOffset data field n = payload_scan data field n 0 (None, 0)"

subsection \<open>The two framings agree\<close>

text \<open>The records of a message, one after another, as \<open>nextRecord\<close> frames them.\<close>

function frames :: "bytes \<Rightarrow> nat \<Rightarrow> range_error + frame list" where
  "frames data pos =
     (if pos < length data then
        (case nextRecord data pos of
           Corrupt e \<Rightarrow> Inl (BadFrame e)
         | Partial \<Rightarrow> Inl (TruncatedAt pos)
         | Framed r \<Rightarrow> (case frames data (frEnd r) of Inl e \<Rightarrow> Inl e | Inr rs \<Rightarrow> Inr (r # rs)))
      else Inr [])"
  by pat_completeness auto
termination
  by (relation "measure (\<lambda>(data, pos). length data - pos)") (auto dest!: nextRecord_advances)

declare frames.simps [simp del]

definition body :: "bytes \<Rightarrow> frame \<Rightarrow> bytes" where
  "body data r = go_slice (BodyStart r) (frEnd r) data"

fun run_parts :: "(nat \<Rightarrow> bytes \<Rightarrow> 's \<Rightarrow> wire_error + 's) \<Rightarrow> bytes \<Rightarrow> frame list \<Rightarrow> 's \<Rightarrow> wire_error + 's" where
  "run_parts fn data [] st = Inr st"
| "run_parts fn data (r # rs) st =
     (if Wire r = 2 then (case fn (Field r) (body data r) st of Inl e \<Rightarrow> Inl e | Inr st' \<Rightarrow> run_parts fn data rs st')
      else run_parts fn data rs st)"

lemma wire_types: "(5::u64) \<noteq> 2" "(5::u64) \<noteq> 0" "(1::u64) \<noteq> 2" "(1::u64) \<noteq> 0" "(1::u64) \<noteq> 5" "(2::u64) \<noteq> 0"
  by simp_all

text \<open>One step of the walk in terms of the record at the front.\<close>

lemma walk_framed:
  assumes "nextRecord data pos = Framed r"
  shows "walk fn (drop pos data) st =
    (if Wire r = 2 then (case fn (Field r) (body data r) st of Inl e \<Rightarrow> Inl e
                         | Inr st' \<Rightarrow> walk fn (drop (frEnd r) data) st')
     else walk fn (drop (frEnd r) data) st)"
proof -
  have ne: "drop pos data \<noteq> []" using nextRecord_advances[OF assms] by auto
  obtain key n where k: "Uvarint (drop pos data) = (key, n)" by fastforce
  obtain l m where l: "Uvarint (drop (pos + nat n) data) = (l, m)" by fastforce
  have n: "0 < n" using assms by (auto simp: nextRecord_def k split: if_splits)
  have dd: "drop (nat n) (drop pos data) = drop (pos + nat n) data" by (simp add: add.commute)
  note w = walk.simps[of fn "drop pos data" st, unfolded k prod.case Let_def dd l]
  consider (2) "key AND 7 = 2" | (0) "key AND 7 = 0" | (5) "key AND 7 = 5" | (1) "key AND 7 = 1"
    using assms n by (auto simp: nextRecord_def k Let_def split: if_splits)
  then show ?thesis
  proof cases
    case 2
    then have m: "0 < m" "\<not> length data - (pos + nat n + nat m) < unat l"
      and r: "r = \<lparr>Field = unat (drop_bit 3 key), Wire = 2, frStart = pos, BodyStart = pos + nat n + nat m,
        frEnd = pos + nat n + nat m + unat l\<rparr>"
      using assms n by (auto simp: nextRecord_def k l Let_def split: if_splits)
    have h1: "go_slice (nat m) (nat m + unat l) (drop (pos + nat n) data) = body data r"
      by (simp add: body_def go_slice_def r add.commute add.left_commute)
    have h2: "drop (nat m + unat l) (drop (pos + nat n) data) = drop (frEnd r) data"
      by (simp add: r add.commute add.left_commute)
    have "Wire r = 2" "Field r = unat (drop_bit 3 key)" by (simp_all add: r)
    then show ?thesis unfolding w h1 h2 using ne n m 2 by simp
  next
    case 0
    then have m: "0 < m" and r: "Wire r = 0" "frEnd r = pos + nat n + nat m"
      using assms n by (auto simp: nextRecord_def k l Let_def split: if_splits)
    show ?thesis unfolding w using ne n m 0 by (simp add: r add.commute)
  next
    case 5
    then have r: "Wire r = 5" "frEnd r = pos + nat n + 4" "\<not> length data - (pos + nat n) < 4"
      using assms n by (auto simp: nextRecord_def k l Let_def split: if_splits)
    have k: "(key AND 7 = 2) = False" "(key AND 7 = 0) = False" "(key AND 7 = 5) = True"
      unfolding 5 by (simp_all only: wire_types refl)
    have "Wire r \<noteq> 2" unfolding r(1) by (rule wire_types)
    then show ?thesis unfolding w k using ne n r(2,3) by (simp add: add.commute)
  next
    case 1
    then have r: "Wire r = 1" "frEnd r = pos + nat n + 8" "\<not> length data - (pos + nat n) < 8"
      using assms n by (auto simp: nextRecord_def k l Let_def split: if_splits)
    have k: "(key AND 7 = 2) = False" "(key AND 7 = 0) = False" "(key AND 7 = 5) = False" "(key AND 7 = 1) = True"
      unfolding 1 by (simp_all only: wire_types refl)
    have "Wire r \<noteq> 2" unfolding r(1) by (rule wire_types)
    then show ?thesis unfolding w k using ne n r(2,3) by (simp add: add.commute)
  qed
qed

lemma walk_unframed:
  assumes "pos < length data" "\<And>r. nextRecord data pos \<noteq> Framed r"
  shows "\<exists>e. walk fn (drop pos data) st = Inl e"
proof -
  have ne: "drop pos data \<noteq> []" using assms(1) by simp
  obtain key n where k: "Uvarint (drop pos data) = (key, n)" by fastforce
  obtain l m where l: "Uvarint (drop (pos + nat n) data) = (l, m)" by fastforce
  have dd: "drop (nat n) (drop pos data) = drop (pos + nat n) data" by (simp add: add.commute)
  note w = walk.simps[of fn "drop pos data" st, unfolded k prod.case Let_def dd l]
  have "nextRecord data pos = Partial \<or> (\<exists>e. nextRecord data pos = Corrupt e)"
    using assms(2) by (cases "nextRecord data pos") auto
  then show ?thesis
    unfolding w using ne by (auto simp: nextRecord_def k l Let_def split: if_splits)
qed

lemma walk_frames_from:
  "case frames data pos of
     Inl _ \<Rightarrow> \<exists>e. walk fn (drop pos data) st = Inl e
   | Inr rs \<Rightarrow> walk fn (drop pos data) st = run_parts fn data rs st"
proof (induction data pos arbitrary: st rule: frames.induct)
  case (1 data pos)
  show ?case
  proof (cases "pos < length data")
    case False
    then show ?thesis by (simp add: frames.simps walk.simps)
  next
    case lt: True
    show ?thesis
    proof (cases "nextRecord data pos")
      case Partial
      then show ?thesis using lt walk_unframed[OF lt, of fn st] by (subst frames.simps) simp
    next
      case (Corrupt e)
      then show ?thesis using lt walk_unframed[OF lt, of fn st] by (subst frames.simps) simp
    next
      case (Framed r)
      note IH = 1[OF lt Framed]
      show ?thesis
      proof (cases "frames data (frEnd r)")
        case (Inl e)
        then show ?thesis using IH lt Framed
          by (subst frames.simps) (auto simp: walk_framed[OF Framed] split: sum.splits)
      next
        case (Inr rs)
        then show ?thesis using IH lt Framed
          by (subst frames.simps) (auto simp: walk_framed[OF Framed] split: sum.splits)
      qed
    qed
  qed
qed

lemma walk_framing:
  "case frames data 0 of
     Inl _ \<Rightarrow> \<not> is_ok (walk fn data st)
   | Inr rs \<Rightarrow> walk fn data st = run_parts fn data rs st"
  using walk_frames_from[where data = data and pos = 0 and fn = fn and st = st] by (auto split: sum.splits)

theorem walk_is_framing:
  "case frames data 0 of
     Inl _ \<Rightarrow> \<not> is_ok (walk fn data st)
   | Inr rs \<Rightarrow> walk fn data st = run_parts fn data rs st"
  by (rule walk_framing)

subsection \<open>A record depends on its header only\<close>

lemma uv_append: "snd (uv_loop i x bs) \<noteq> 0 \<Longrightarrow> uv_loop i x (bs @ zs) = uv_loop i x bs"
  by (induction i x bs rule: uv_loop.induct) (auto simp: Let_def)

lemma uv_take: "uv_loop i x bs = (v, n) \<Longrightarrow> 0 < n \<Longrightarrow> int i < n \<and> uv_loop i x (take (nat n - i) bs) = (v, n)"
proof (induction i x bs rule: uv_loop.induct)
  case (2 i x b bs)
  show ?case
  proof (cases "i = 10 \<or> b < 0x80")
    case True
    have "nat (int i + 1) - i = 1" by simp
    then show ?thesis using True 2(2,3) by (auto split: if_splits)
  next
    case False
    then have "uv_loop (i + 1) (x OR push_bit (7 * i) (ucast (b AND 0x7f))) bs = (v, n)" using 2(2) by simp
    note IH = 2(1)[OF _ _ this 2(3)]
    have i: "i \<noteq> 10" "\<not> b < 0x80" using False by auto
    have "int i + 1 < n" using IH[OF i] by simp
    then obtain k where "nat n - i = Suc k" "nat n - (i + 1) = k" by (cases "nat n - i") auto
    then show ?thesis using IH[OF i] i by simp
  qed
qed simp

lemma Uvarint_local:
  assumes "Uvarint xs = (v, n)" "0 < n" "take (nat n) ys = take (nat n) xs"
  shows "Uvarint ys = (v, n)"
proof -
  have "uv_loop 0 0 (take (nat n) ys) = (v, n)"
    using uv_take[of 0 0 xs v n] assms by (simp add: Uvarint_def)
  then show ?thesis using uv_append[of 0 0 "take (nat n) ys" "drop (nat n) ys"] assms(2) by (simp add: Uvarint_def)
qed

lemma go_slice_sub:
  assumes "go_slice a b xs = go_slice a b ys" "a \<le> c" "c + n \<le> b"
  shows "take n (drop c xs) = take n (drop c ys)"
proof -
  have s: "take n (drop c zs) = take n (drop (c - a) (go_slice a b zs))" for zs :: "'a list"
    using assms(2,3) by (simp add: go_slice_def drop_take min_def)
  show ?thesis unfolding s[of xs] s[of ys] assms(1) ..
qed

lemma header_local:
  assumes "nextRecord data pos = Framed r" "go_slice pos (BodyStart r) data' = go_slice pos (BodyStart r) data"
  shows "\<exists>key n l m. Uvarint (drop pos data) = (key, n) \<and> Uvarint (drop pos data') = (key, n) \<and> 0 < n \<and>
    (key AND 7 = 2 \<or> key AND 7 = 0 \<longrightarrow>
       Uvarint (drop (pos + nat n) data) = (l, m) \<and> Uvarint (drop (pos + nat n) data') = (l, m) \<and> 0 < m) \<and>
    (key AND 7 = 2 \<longrightarrow> frEnd r = pos + nat n + nat m + unat l) \<and> (key AND 7 = 0 \<longrightarrow> frEnd r = pos + nat n + nat m) \<and>
    (key AND 7 = 5 \<longrightarrow> frEnd r = pos + nat n + 4) \<and> (key AND 7 = 1 \<longrightarrow> frEnd r = pos + nat n + 8) \<and>
    (key AND 7 = 2 \<or> key AND 7 = 0 \<or> key AND 7 = 5 \<or> key AND 7 = 1) \<and>
    Wire r = key AND 7 \<and> Field r = unat (drop_bit 3 key)"
proof -
  obtain key n where k: "Uvarint (drop pos data) = (key, n)" by fastforce
  obtain l m where l: "Uvarint (drop (pos + nat n) data) = (l, m)" by fastforce
  have n: "0 < n" using assms(1) by (auto simp: nextRecord_def k split: if_splits)
  have nb: "pos + nat n \<le> BodyStart r" and mb: "key AND 7 = 2 \<or> key AND 7 = 0 \<Longrightarrow> 0 < m \<and> pos + nat n + nat m \<le> BodyStart r"
    using assms(1) n by (auto simp: nextRecord_def k l Let_def split: if_splits)
  have fe: "(key AND 7 = 2 \<longrightarrow> frEnd r = pos + nat n + nat m + unat l) \<and> (key AND 7 = 0 \<longrightarrow> frEnd r = pos + nat n + nat m) \<and>
    (key AND 7 = 5 \<longrightarrow> frEnd r = pos + nat n + 4) \<and> (key AND 7 = 1 \<longrightarrow> frEnd r = pos + nat n + 8) \<and>
    (key AND 7 = 2 \<or> key AND 7 = 0 \<or> key AND 7 = 5 \<or> key AND 7 = 1) \<and>
    Wire r = key AND 7 \<and> Field r = unat (drop_bit 3 key)"
    using assms(1) n by (auto simp: nextRecord_def k l Let_def split: if_splits)
  have k': "Uvarint (drop pos data') = (key, n)"
    by (rule Uvarint_local[OF k n go_slice_sub[OF assms(2) order.refl nb]])
  have l': "key AND 7 = 2 \<or> key AND 7 = 0 \<longrightarrow>
      Uvarint (drop (pos + nat n) data) = (l, m) \<and> Uvarint (drop (pos + nat n) data') = (l, m) \<and> 0 < m"
    using Uvarint_local[OF l _ go_slice_sub[OF assms(2)]] mb l by auto
  show ?thesis
    by (intro exI[of _ key] exI[of _ n] exI[of _ l] exI[of _ m] conjI[OF k] conjI[OF k'] conjI[OF n] conjI[OF l'] fe)
qed

lemma nextRecord_local:
  assumes "nextRecord data pos = Framed r" "go_slice pos (BodyStart r) data' = go_slice pos (BodyStart r) data"
    and "frEnd r \<le> length data'"
  shows "nextRecord data' pos = Framed r"
proof -
  obtain key n l m where h: "Uvarint (drop pos data) = (key, n)" "Uvarint (drop pos data') = (key, n)" "0 < n"
    "key AND 7 = 2 \<or> key AND 7 = 0 \<longrightarrow>
       Uvarint (drop (pos + nat n) data) = (l, m) \<and> Uvarint (drop (pos + nat n) data') = (l, m) \<and> 0 < m"
    "key AND 7 = 2 \<longrightarrow> frEnd r = pos + nat n + nat m + unat l" "key AND 7 = 0 \<longrightarrow> frEnd r = pos + nat n + nat m"
    "key AND 7 = 5 \<longrightarrow> frEnd r = pos + nat n + 4" "key AND 7 = 1 \<longrightarrow> frEnd r = pos + nat n + 8"
    using header_local[OF assms(1,2)] by blast
  show ?thesis
  proof (cases "key AND 7 = 2 \<or> key AND 7 = 0")
    case True
    then show ?thesis
      using assms(1,3) h(3,5,6) mp[OF h(4) True]
      by (auto simp: nextRecord_def h(1,2) Let_def split: if_splits)
  next
    case False
    then show ?thesis
      using assms(1,3) h(3,7,8) by (auto simp: nextRecord_def h(1,2) Let_def split: if_splits)
  qed
qed

lemma nextRecord_append: "nextRecord p pos = Framed r \<Longrightarrow> nextRecord (p @ ext) pos = Framed r"
  by (rule nextRecord_local[where data = p]) (auto dest!: nextRecord_advances simp: go_slice_def)

text \<open>Following a stream with \<open>ScanLeading\<close> gives what one scan of the whole gives.\<close>

lemma ScanLeading_streams:
  assumes "ScanLeading p f pos = (e, Inr b)" "pos \<le> length p"
  shows "ScanLeading (p @ ext) f e = ScanLeading (p @ ext) f pos \<and>
    (b \<longrightarrow> ScanLeading (p @ ext) f pos = (e, Inr True))"
  using assms
proof (induction p f pos rule: ScanLeading.induct)
  case (1 p f pos)
  show ?case
  proof (cases "pos < length p")
    case False
    then show ?thesis using 1(2) by (subst (asm) ScanLeading.simps) simp
  next
    case lt: True
    show ?thesis
    proof (cases "nextRecord p pos")
      case (Framed r)
      note f' = nextRecord_append[OF Framed, of ext]
      show ?thesis
      proof (cases "Wire r = 2 \<and> Field r = f")
        case True
        have s: "ScanLeading q f pos = ScanLeading q f (frEnd r)" if "nextRecord q pos = Framed r" "pos < length q" for q
          using True that by (subst ScanLeading.simps) simp
        have "ScanLeading p f (frEnd r) = (e, Inr b)" using s[OF Framed lt] 1(2) by simp
        then show ?thesis
          using 1(1)[OF lt Framed] True nextRecord_advances[OF Framed] s[OF f'] lt by auto
      next
        case False
        have lt2: "pos < length (p @ ext)" using lt by simp
        have "ScanLeading q f pos = (if Wire r \<noteq> 2 then (pos, Inl (NotElement (Field r) (Wire r))) else (pos, Inr True))"
          if "nextRecord q pos = Framed r" "pos < length q" for q
          using False that by (subst ScanLeading.simps) auto
        from this[OF Framed lt] this[OF f' lt2] 1(2) show ?thesis by (auto split: if_splits)
      qed
    qed (use 1(2) lt in \<open>subst (asm) ScanLeading.simps; simp\<close>)+
  qed
qed

text \<open>
  \<open>FieldRanges\<close> covers the bytes of the records of the field and no others, in order, with
  a gap between any two ranges.
\<close>

definition covered :: "Range list \<Rightarrow> nat set" where
  "covered out = (\<Union>g\<in>set out. {Start g..<End g})"

definition ranges_ok :: "Range list \<Rightarrow> nat \<Rightarrow> bool" where
  "ranges_ok out pos \<longleftrightarrow> sorted_wrt (\<lambda>a b. End a < Start b) out \<and> (\<forall>g\<in>set out. Start g < End g \<and> End g \<le> pos)"

lemma ranges_loop_spec:
  assumes "frames data pos = Inr rs" "ranges_ok out pos"
  shows "\<exists>out'. ranges_loop data f pos out = Inr out' \<and> ranges_ok out' (max pos (length data)) \<and>
    covered out' = covered out \<union> (\<Union>r\<in>{r\<in>set rs. Field r = f}. {frStart r..<frEnd r})"
  using assms
proof (induction data f pos out arbitrary: rs rule: ranges_loop.induct)
  case (1 data f pos out)
  show ?case
  proof (cases "pos < length data")
    case False
    then show ?thesis using 1(4,5) by (simp add: frames.simps ranges_loop.simps max_def)
  next
    case lt: True
    then obtain r rs' where r: "nextRecord data pos = Framed r" "frames data (frEnd r) = Inr rs'" "rs = r # rs'"
      using 1(4) by (subst (asm) frames.simps) (auto split: framing.splits sum.splits)
    note a = nextRecord_advances[OF r(1)]
    have mx: "max (frEnd r) (length data) = length data" "max pos (length data) = length data" using a lt by auto
    show ?thesis
    proof (cases "Field r = f")
      case False
      have "ranges_ok out (frEnd r)" using 1(5) a unfolding ranges_ok_def by fastforce
      then show ?thesis using 1(1)[OF lt r(1) False r(2)] False lt r mx by (subst ranges_loop.simps) auto
    next
      case f: True
      show ?thesis
      proof (cases "out \<noteq> [] \<and> End (last out) = frStart r")
        case c: True
        let ?out = "butlast out @ [(last out)\<lparr>End := frEnd r\<rparr>]"
        have o: "out = butlast out @ [last out]" using c by simp
        have ok: "ranges_ok ?out (frEnd r)"
        proof -
          have s: "sorted_wrt (\<lambda>a b. End a < Start b) (butlast out @ [last out])"
            and g: "\<forall>g\<in>set (butlast out @ [last out]). Start g < End g \<and> End g \<le> pos"
            using 1(5) o by (simp_all add: ranges_ok_def)
          have "sorted_wrt (\<lambda>a b. End a < Start b) ?out" using s by (simp add: sorted_wrt_append)
          moreover have "Start g < End g \<and> End g \<le> frEnd r" if x: "g \<in> set ?out" for g
          proof (cases "g \<in> set (butlast out)")
            case True
            then show ?thesis using bspec[OF g, of g] a by auto
          next
            case False
            then show ?thesis using x bspec[OF g, of "last out"] a by auto
          qed
          ultimately show ?thesis unfolding ranges_ok_def by blast
        qed
        have "covered ?out = covered out \<union> {frStart r..<frEnd r}"
        proof -
          have "Start (last out) < frStart r" "frStart r \<le> frEnd r" using 1(5) c a by (auto simp: ranges_ok_def)
          then have "{Start (last out)..<frEnd r} = {Start (last out)..<End (last out)} \<union> {frStart r..<frEnd r}"
            using c by auto
          then show ?thesis by (subst (2) o) (auto simp: covered_def)
        qed
        then show ?thesis using 1(2)[OF lt r(1) _ c r(2) ok] f c lt r mx by (subst ranges_loop.simps) auto
      next
        case c: False
        let ?out = "out @ [\<lparr>Start = frStart r, End = frEnd r\<rparr>]"
        have ok: "ranges_ok ?out (frEnd r)"
        proof -
          have "End g < frStart r" if g: "g \<in> set out" for g
          proof -
            have ne: "out \<noteq> []" using g by auto
            then have o: "out = butlast out @ [last out]" by simp
            have s: "sorted_wrt (\<lambda>a b. End a < Start b) (butlast out @ [last out])"
              using 1(5) unfolding ranges_ok_def o[symmetric] by blast
            have l: "End g \<le> pos" "End (last out) \<le> pos" "Start (last out) < End (last out)"
              using 1(5) g ne by (auto simp: ranges_ok_def)
            have "End (last out) \<noteq> pos" using c a ne by auto
            moreover have "g = last out \<or> End g < Start (last out)"
            proof (cases "g \<in> set (butlast out)")
              case True
              then show ?thesis using s unfolding sorted_wrt_append by auto
            next
              case False
              then have "g \<in> set [last out]" using g o by (metis Un_iff set_append)
              then show ?thesis by simp
            qed
            ultimately show ?thesis using a l by auto
          qed
          then show ?thesis using 1(5) a by (fastforce simp: ranges_ok_def sorted_wrt_append)
        qed
        have "covered ?out = covered out \<union> {frStart r..<frEnd r}" by (simp add: covered_def Un_commute)
        then show ?thesis using 1(3)[OF lt r(1) _ c r(2) ok] f c lt r mx by (subst ranges_loop.simps) auto
      qed
    qed
  qed
qed

theorem FieldRanges_exact:
  assumes "frames data 0 = Inr rs"
  shows "\<exists>out. FieldRanges data f = Inr out \<and> ranges_ok out (length data) \<and>
    covered out = (\<Union>r\<in>{r\<in>set rs. Field r = f}. {frStart r..<frEnd r})"
  using ranges_loop_spec[OF assms, of "[]" f] by (simp add: FieldRanges_def ranges_ok_def covered_def)

subsection \<open>Flipping a payload byte\<close>

definition shift_frame :: "nat \<Rightarrow> frame \<Rightarrow> frame" where
  "shift_frame k r = r\<lparr>frStart := frStart r + k, BodyStart := BodyStart r + k, frEnd := frEnd r + k\<rparr>"

lemma nextRecord_drop:
  "nextRecord (drop k data) pos = Framed r \<Longrightarrow> nextRecord data (k + pos) = Framed (shift_frame k r)"
proof -
  assume a: "nextRecord (drop k data) pos = Framed r"
  have d: "drop p (drop k data) = drop (k + p) data" "length (drop k data) - p = length data - (k + p)" for p
    by (simp_all add: add.commute)
  obtain key n where u: "Uvarint (drop (k + pos) data) = (key, n)" by fastforce
  obtain l m where l: "Uvarint (drop (k + (pos + nat n)) data) = (l, m)" by fastforce
  have n: "0 < n" using a unfolding nextRecord_def[of "drop k data" pos] d u prod.case by (simp split: if_splits)
  note X = nextRecord_def[of "drop k data" pos, unfolded d u prod.case Let_def l]
  note Y = nextRecord_def[of data "k + pos", unfolded u prod.case Let_def add.assoc[of k pos "nat n"] l]
  consider (2) "(key AND 7 = 2) = True" | (0) "(key AND 7 = 2) = False" "(key AND 7 = 0) = True"
    | (5) "(key AND 7 = 2) = False" "(key AND 7 = 0) = False" "(key AND 7 = 5) = True"
    | (1) "(key AND 7 = 2) = False" "(key AND 7 = 0) = False" "(key AND 7 = 5) = False" "(key AND 7 = 1) = True"
    using a n unfolding X by (auto split: if_splits)
  then show ?thesis
  proof cases
    case 2
    show ?thesis using a n unfolding X Y by (auto simp add: 2 shift_frame_def add_ac split: if_splits)
  next
    case 0
    show ?thesis using a n unfolding X Y frame.simps 0 by (auto simp add: shift_frame_def add_ac split: if_splits)
  next
    case 5
    show ?thesis using a n unfolding X Y frame.simps 5 by (auto simp add: shift_frame_def add_ac split: if_splits)
  next
    case 1
    show ?thesis using a n unfolding X Y frame.simps 1 by (auto simp add: shift_frame_def add_ac split: if_splits)
  qed
qed

text \<open>The records of a body lie in the message at the same place.\<close>

lemma nextRecord_body:
  assumes "nextRecord (go_slice s e data) pos = Framed r"
  shows "nextRecord data (s + pos) = Framed (shift_frame s r)"
proof (rule nextRecord_drop)
  have "drop s data = go_slice s e data @ drop (e - s) (drop s data)" by (simp add: go_slice_def del: drop_drop)
  then show "nextRecord (drop s data) pos = Framed r" using nextRecord_append[OF assms] by metis
qed

function seq_frames :: "bytes \<Rightarrow> nat \<Rightarrow> nat \<Rightarrow> frame list" where
  "seq_frames data s stop =
     (if s < stop then (case nextRecord data s of Framed r \<Rightarrow> r # seq_frames data (frEnd r) stop | _ \<Rightarrow> []) else [])"
  by pat_completeness auto
termination
  by (relation "measure (\<lambda>(data, s, stop). stop - s)") (auto dest!: nextRecord_advances)

declare seq_frames.simps [simp del]

lemma frames_step:
  assumes "frames data pos = Inr rs" "pos < length data"
  obtains r rs' where "nextRecord data pos = Framed r" "frames data (frEnd r) = Inr rs'" "rs = r # rs'"
  using assms by (subst (asm) frames.simps) (auto split: framing.splits sum.splits)

lemma frames_end: "\<not> pos < length data \<Longrightarrow> frames data pos = Inr []"
  by (simp add: frames.simps)

lemma seq_frames_body:
  assumes "frames (go_slice s e data) pos = Inr rs" "e \<le> length data"
  shows "seq_frames data (s + pos) e = map (shift_frame s) rs"
  using assms(1)
proof (induction "go_slice s e data" pos arbitrary: rs rule: frames.induct)
  case (1 pos)
  show ?case
  proof (cases "pos < length (go_slice s e data)")
    case False
    then have "\<not> s + pos < e" using assms(2) by auto
    moreover have "rs = []" using 1(2) unfolding frames_end[OF False] by simp
    ultimately show ?thesis by (simp add: seq_frames.simps)
  next
    case True
    obtain r rs' where r: "nextRecord (go_slice s e data) pos = Framed r"
      "frames (go_slice s e data) (frEnd r) = Inr rs'" "rs = r # rs'" by (rule frames_step[OF 1(2) True])
    have lt: "s + pos < e" using True assms(2) by auto
    have "seq_frames data (s + frEnd r) e = map (shift_frame s) rs'" by (rule 1(1)[OF True r(1,2)])
    then show ?thesis
      using lt r(3) nextRecord_body[OF r(1)] by (subst seq_frames.simps) (simp add: shift_frame_def add.commute)
  qed
qed

lemma seq_frames_whole: "frames data 0 = Inr rs \<Longrightarrow> seq_frames data 0 (length data) = rs"
  using seq_frames_body[of 0 "length data" data 0 rs] by (simp add: go_slice_def shift_frame_def map_idI)

text \<open>Where \<open>PayloadOffset\<close> can point.\<close>

definition in_body :: "nat \<Rightarrow> frame \<Rightarrow> bool" where
  "in_body off r \<longleftrightarrow> Wire r = 2 \<and> BodyStart r \<le> off \<and> off < frEnd r"

lemma payload_bytes_hit:
  "fst (payload_bytes n b e st) = Some off \<Longrightarrow> fst st = Some off \<or> b \<le> off \<and> off < e"
  by (cases st) (auto simp: payload_bytes_def split: if_splits)

lemma label_scan_hit:
  "label_scan data n s stop st = Inr st' \<Longrightarrow> fst st' = Some off \<Longrightarrow>
   fst st = Some off \<or> (\<exists>l\<in>set (seq_frames data s stop). Field l = 1 \<and> in_body off l)"
proof (induction data n s stop st rule: label_scan.induct)
  case (1 data n s stop st)
  show ?case
  proof (cases "s < stop")
    case False
    then show ?thesis using 1(2,3) by (simp add: label_scan.simps)
  next
    case lt: True
    then obtain l where l: "nextRecord data s = Framed l"
      "label_scan data n (frEnd l) stop
         (if Field l = 1 \<and> Wire l = 2 then payload_bytes n (BodyStart l) (frEnd l) st else st) = Inr st'"
      using 1(2) by (subst (asm) label_scan.simps) (auto split: framing.splits)
    have q: "seq_frames data s stop = l # seq_frames data (frEnd l) stop"
      using lt l(1) by (subst seq_frames.simps) simp
    show ?thesis using 1(1)[OF lt l(1,2) 1(3)] payload_bytes_hit[of n "BodyStart l" "frEnd l" st off]
      by (auto simp: q in_body_def split: if_splits)
  qed
qed

definition elem_hit :: "bytes \<Rightarrow> nat \<Rightarrow> frame \<Rightarrow> bool" where
  "elem_hit data off e \<longleftrightarrow> Wire e = 2 \<and>
     (Field e = 2 \<and> in_body off e \<or>
      Field e = 1 \<and> (\<exists>l\<in>set (seq_frames data (BodyStart e) (frEnd e)). Field l = 1 \<and> in_body off l))"

lemma elem_scan_hit:
  "elem_scan data n q stop st = Inr st' \<Longrightarrow> fst st' = Some off \<Longrightarrow>
   fst st = Some off \<or> (\<exists>e\<in>set (seq_frames data q stop). elem_hit data off e)"
proof (induction data n q stop st rule: elem_scan.induct)
  case (1 data n q stop st)
  show ?case
  proof (cases "q < stop")
    case False
    then show ?thesis using 1(5,6) by (simp add: elem_scan.simps)
  next
    case lt: True
    then obtain e where e: "nextRecord data q = Framed e"
      using 1(5) by (subst (asm) elem_scan.simps) (auto split: framing.splits)
    have s: "seq_frames data q stop = e # seq_frames data (frEnd e) stop"
      using lt e by (subst seq_frames.simps) simp
    note u = 1(5)[unfolded elem_scan.simps[of data n q] if_P[OF lt] e framing.case]
    consider (skip) "Wire e \<noteq> 2" | (lab) "Wire e = 2" "Field e = 1" | (val) "Wire e = 2" "Field e = 2"
      | (other) "Wire e = 2" "Field e \<noteq> 1" "Field e \<noteq> 2" by blast
    then show ?thesis
    proof cases
      case skip
      then show ?thesis using 1(1)[OF lt e skip _ 1(6)] u s by auto
    next
      case lab
      then obtain st2 where st2: "label_scan data n (BodyStart e) (frEnd e) st = Inr st2"
        "elem_scan data n (frEnd e) stop st2 = Inr st'"
        using u by (auto split: sum.splits)
      have "fst st2 = Some off \<or> (\<exists>e\<in>set (seq_frames data (frEnd e) stop). elem_hit data off e)"
        using 1(2)[OF lt e _ lab(2) st2(1,2) 1(6)] lab(1) by blast
      then show ?thesis using label_scan_hit[OF st2(1)] lab s by (auto simp: elem_hit_def)
    next
      case val
      have "fst (payload_bytes n (BodyStart e) (frEnd e) st) = Some off \<or>
          (\<exists>e\<in>set (seq_frames data (frEnd e) stop). elem_hit data off e)"
        using 1(3)[OF lt e _ _ val(2) _ 1(6)] val u by auto
      then show ?thesis using payload_bytes_hit[of n "BodyStart e" "frEnd e" st off] val s
        by (auto simp: elem_hit_def in_body_def)
    next
      case other
      then show ?thesis using 1(4)[OF lt e _ other(2,3) _ 1(6)] u s by auto
    qed
  qed
qed

lemma payload_scan_hit:
  "payload_scan data f n pos st = Inr st' \<Longrightarrow> fst st' = Some off \<Longrightarrow>
   fst st = Some off \<or> (\<exists>r\<in>set (seq_frames data pos (length data)). Field r = f \<and> Wire r = 2 \<and>
     (\<exists>e\<in>set (seq_frames data (BodyStart r) (frEnd r)). elem_hit data off e))"
proof (induction data f n pos st rule: payload_scan.induct)
  case (1 data f n pos st)
  show ?case
  proof (cases "pos < length data")
    case False
    then show ?thesis using 1(3,4) by (simp add: payload_scan.simps)
  next
    case lt: True
    then obtain r where r: "nextRecord data pos = Framed r"
      using 1(3) by (subst (asm) payload_scan.simps) (auto split: framing.splits)
    have s: "seq_frames data pos (length data) = r # seq_frames data (frEnd r) (length data)"
      using lt r by (subst seq_frames.simps) simp
    note u = 1(3)[unfolded payload_scan.simps[of data f n pos] if_P[OF lt] r framing.case]
    show ?thesis
    proof (cases "Field r \<noteq> f \<or> Wire r \<noteq> 2")
      case True
      then show ?thesis using 1(1)[OF lt r True _ 1(4)] u s by auto
    next
      case False
      then obtain st2 where st2: "elem_scan data n (BodyStart r) (frEnd r) st = Inr st2"
        "payload_scan data f n (frEnd r) st2 = Inr st'"
        using u by (auto split: sum.splits)
      show ?thesis using 1(2)[OF lt r False st2 1(4)] elem_scan_hit[OF st2(1)] False s by auto
    qed
  qed
qed

lemma go_slice_update:
  assumes "off < a \<or> b \<le> off"
  shows "go_slice a b (d[off := x]) = go_slice a b d"
proof (cases "off < a")
  case True
  then show ?thesis by (simp add: go_slice_def)
next
  case False
  have "go_slice a b e = drop a (take b e)" for e :: "'a list" by (simp add: go_slice_def drop_take)
  then show ?thesis using False assms by (simp add: take_update_cancel)
qed

lemma body_update:
  "body (d[off := x]) r =
     (if BodyStart r \<le> off \<and> off < frEnd r then (body d r)[off - BodyStart r := x] else body d r)"
  by (auto simp: body_def go_slice_update) (simp add: go_slice_def drop_update_swap take_update_swap)

lemma frames_bounds:
  "frames d pos = Inr rs \<Longrightarrow> sorted_wrt (\<lambda>a b. frEnd a \<le> frStart b) rs \<and>
     (\<forall>r\<in>set rs. pos \<le> frStart r \<and> frStart r < BodyStart r \<and> BodyStart r \<le> frEnd r \<and> frEnd r \<le> length d)"
proof (induction d pos arbitrary: rs rule: frames.induct)
  case (1 d pos)
  show ?case
  proof (cases "pos < length d")
    case False
    then show ?thesis using 1(2) by (simp add: frames_end)
  next
    case True
    obtain r rs' where r: "nextRecord d pos = Framed r" "frames d (frEnd r) = Inr rs'" "rs = r # rs'"
      by (rule frames_step[OF 1(2) True])
    show ?thesis using 1(1)[OF True r(1,2)] nextRecord_advances[OF r(1)] r(3) by fastforce
  qed
qed

lemma frames_flip_from:
  assumes "frames d pos = Inr rs" "\<forall>r\<in>set rs. \<not> (frStart r \<le> off \<and> off < BodyStart r)"
  shows "frames (d[off := x]) pos = Inr rs"
  using assms
proof (induction d pos arbitrary: rs rule: frames.induct)
  case (1 d pos)
  show ?case
  proof (cases "pos < length d")
    case False
    then show ?thesis using 1(2) by (simp add: frames_end)
  next
    case True
    obtain r rs' where r: "nextRecord d pos = Framed r" "frames d (frEnd r) = Inr rs'" "rs = r # rs'"
      by (rule frames_step[OF 1(2) True])
    note a = nextRecord_advances[OF r(1)]
    have "nextRecord (d[off := x]) pos = Framed r"
      by (rule nextRecord_local[OF r(1)]) (use 1(3) r(3) a in \<open>auto intro!: go_slice_update\<close>)
    moreover have "frames (d[off := x]) (frEnd r) = Inr rs'" using 1(1)[OF True r(1,2)] 1(3) r(3) by simp
    ultimately show ?thesis using True r(3) by (subst frames.simps) simp
  qed
qed

lemma sorted_wrt_pick: "sorted_wrt P rs \<Longrightarrow> r \<in> set rs \<Longrightarrow> s \<in> set rs \<Longrightarrow> r = s \<or> P r s \<or> P s r"
  by (induction rs) auto

lemma in_body_unique:
  assumes "frames d pos = Inr rs" "r \<in> set rs" "in_body off r" "s \<in> set rs" "frStart s \<le> off" "off < frEnd s"
  shows "s = r"
proof -
  note b = frames_bounds[OF assms(1)]
  have "r = s \<or> frEnd r \<le> frStart s \<or> frEnd s \<le> frStart r"
    by (rule sorted_wrt_pick) (use b assms in auto)
  then show ?thesis using b assms(2-) by (auto simp: in_body_def)
qed

lemma frames_flip:
  assumes "frames d pos = Inr rs" "r \<in> set rs" "in_body off r"
  shows "frames (d[off := x]) pos = Inr rs"
proof (rule frames_flip_from[OF assms(1)], intro ballI notI)
  fix s assume s: "s \<in> set rs" "frStart s \<le> off \<and> off < BodyStart s"
  then have "s = r" using in_body_unique[OF assms(1-3) s(1)] frames_bounds[OF assms(1)] by fastforce
  then show False using s assms(3) by (simp add: in_body_def)
qed

lemma body_other:
  assumes "frames d pos = Inr rs" "r \<in> set rs" "in_body off r" "s \<in> set rs" "s \<noteq> r"
  shows "body (d[off := x]) s = body d s"
proof -
  have "\<not> (BodyStart s \<le> off \<and> off < frEnd s)"
    using in_body_unique[OF assms(1-4)] assms(5) frames_bounds[OF assms(1)] assms(4) by fastforce
  then show ?thesis by (auto simp: body_update)
qed

text \<open>A walk whose callback keeps a relation between two runs keeps it to the end.\<close>

lemma run_parts_related:
  assumes "run_parts fn d rs st = Inr st'" "R st st2"
    and "\<And>r s s' s2. r \<in> set rs \<Longrightarrow> Wire r = 2 \<Longrightarrow> fn (Field r) (body d r) s = Inr s' \<Longrightarrow> R s s2 \<Longrightarrow>
      \<exists>s2'. fn (Field r) (body d' r) s2 = Inr s2' \<and> R s' s2'"
  shows "\<exists>st2'. run_parts fn d' rs st2 = Inr st2' \<and> R st' st2'"
  using assms
proof (induction rs arbitrary: st st2)
  case (Cons r rs)
  show ?case
  proof (cases "Wire r = 2")
    case True
    then obtain s' where s': "fn (Field r) (body d r) st = Inr s'" "run_parts fn d rs s' = Inr st'"
      using Cons(2) by (auto split: sum.splits)
    obtain s2' where s2': "fn (Field r) (body d' r) st2 = Inr s2'" "R s' s2'"
      using Cons(4)[OF _ True s'(1) Cons(3)] by auto
    have "\<exists>st2'. run_parts fn d' rs s2' = Inr st2' \<and> R st' st2'"
      by (rule Cons(1)[OF s'(2) s2'(2)]) (use Cons(4) in auto)
    then show ?thesis using True s2'(1) by simp
  next
    case False
    then show ?thesis using Cons by auto
  qed
qed auto

lemma walk_ok_frames:
  assumes "walk fn d st = Inr st'"
  obtains rs where "frames d 0 = Inr rs" "run_parts fn d rs st = Inr st'"
  using walk_framing[where fn = fn and data = d and st = st] assms by (auto split: sum.splits)

lemma walk_frames: "frames d 0 = Inr rs \<Longrightarrow> walk fn d st = run_parts fn d rs st"
  using walk_framing[where fn = fn and data = d and st = st] by simp

lemma walk_flip:
  assumes "walk fn d st = Inr st'" "R st st2" "frames d 0 = Inr rs" "r0 \<in> set rs" "in_body off r0"
    and "\<And>r s s' s2. r \<in> set rs \<Longrightarrow> Wire r = 2 \<Longrightarrow> fn (Field r) (body d r) s = Inr s' \<Longrightarrow> R s s2 \<Longrightarrow>
      \<exists>s2'. fn (Field r) (body (d[off := x]) r) s2 = Inr s2' \<and> R s' s2'"
  shows "\<exists>st2'. walk fn (d[off := x]) st2 = Inr st2' \<and> R st' st2'"
proof -
  have f: "frames (d[off := x]) 0 = Inr rs" by (rule frames_flip[OF assms(3-5)])
  have "run_parts fn d rs st = Inr st'" using assms(1) walk_frames[OF assms(3), of fn st] by simp
  then show ?thesis unfolding walk_frames[OF f] by (rule run_parts_related) (use assms in blast)+
qed

lemma readLabelLen_flip:
  assumes "frames d pos = Inr rs" "\<forall>r\<in>set rs. \<not> (frStart r \<le> off \<and> off < BodyStart r)"
  shows "readLabelLen (drop pos (d[off := x])) out = readLabelLen (drop pos d) out"
  using assms
proof (induction d pos arbitrary: rs out rule: frames.induct)
  case (1 d pos)
  show ?case
  proof (cases "pos < length d")
    case False
    then show ?thesis by simp
  next
    case True
    obtain r rs' where r: "nextRecord d pos = Framed r" "frames d (frEnd r) = Inr rs'" "rs = r # rs'"
      by (rule frames_step[OF 1(2) True])
    note a = nextRecord_advances[OF r(1)]
    let ?d = "d[off := x]"
    have g: "go_slice pos (BodyStart r) ?d = go_slice pos (BodyStart r) d"
      using 1(3) r(3) a by (auto intro!: go_slice_update)
    have IH: "readLabelLen (drop (frEnd r) ?d) out = readLabelLen (drop (frEnd r) d) out" for out
      using 1(1)[OF True r(1,2)] 1(3) r(3) by simp
    obtain key n l m where h: "Uvarint (drop pos d) = (key, n)" "Uvarint (drop pos ?d) = (key, n)" "0 < n"
      "key AND 7 = 2 \<or> key AND 7 = 0 \<longrightarrow>
         Uvarint (drop (pos + nat n) d) = (l, m) \<and> Uvarint (drop (pos + nat n) ?d) = (l, m) \<and> 0 < m"
      "key AND 7 = 2 \<longrightarrow> frEnd r = pos + nat n + nat m + unat l" "key AND 7 = 0 \<longrightarrow> frEnd r = pos + nat n + nat m"
      "key AND 7 = 5 \<longrightarrow> frEnd r = pos + nat n + 4" "key AND 7 = 1 \<longrightarrow> frEnd r = pos + nat n + 8"
      "key AND 7 = 2 \<or> key AND 7 = 0 \<or> key AND 7 = 5 \<or> key AND 7 = 1"
      using header_local[OF r(1) g] by blast
    have ne: "drop pos d \<noteq> []" "drop pos ?d \<noteq> []" using True by auto
    have dd: "drop (nat n) (drop pos e) = drop (pos + nat n) e" for e :: bytes by (simp add: add.commute)
    note A = readLabelLen.simps[of "drop pos d" out, unfolded h(1) prod.case Let_def dd]
    note B = readLabelLen.simps[of "drop pos ?d" out, unfolded h(2) prod.case Let_def dd]
    have n: "\<not> n \<le> 0" using h(3) by simp
    have IH': "readLabelLen (drop k (drop (pos + nat n) ?d)) out = readLabelLen (drop k (drop (pos + nat n) d)) out"
      if "frEnd r = pos + nat n + k" for k out
    proof -
      have "drop k (drop (pos + nat n) e) = drop (frEnd r) e" for e :: bytes using that by (simp add: add.commute)
      then show ?thesis using IH by metis
    qed
    have len: "length (drop k ?d) = length (drop k d)" for k by simp
    from h(9) show ?thesis
    proof (elim disjE)
      assume w: "key AND 7 = 2"
      have u: "Uvarint (drop (pos + nat n) d) = (l, m)" "Uvarint (drop (pos + nat n) ?d) = (l, m)" using h(4) w by auto
      have "frEnd r = pos + nat n + (nat m + unat l)" using h(5) w by simp
      note i = IH'[OF this]
      have k: "(key AND 7 = 0) = False" unfolding w by (simp_all only: wire_types)
      show ?thesis unfolding A B u k if_False prod.case len i if_not_P[OF ne(1)] if_not_P[OF ne(2)] if_not_P[OF n] if_P[OF w] ..
    next
      assume w: "key AND 7 = 0"
      have u: "Uvarint (drop (pos + nat n) d) = (l, m)" "Uvarint (drop (pos + nat n) ?d) = (l, m)" using h(4) w by auto
      have "frEnd r = pos + nat n + nat m" using h(6) w by simp
      note i = IH'[OF this]
      show ?thesis unfolding A B u prod.case len i if_not_P[OF ne(1)] if_not_P[OF ne(2)] if_not_P[OF n] if_P[OF w] ..
    next
      assume w: "key AND 7 = 5"
      then have k: "(key AND 7 = 2) = False" "(key AND 7 = 0) = False"
        unfolding w by (simp_all only: wire_types)
      have "frEnd r = pos + nat n + 4" using h(7) w by simp
      note i = IH'[OF this]
      show ?thesis unfolding A B k if_False len i if_not_P[OF ne(1)] if_not_P[OF ne(2)] if_not_P[OF n] if_P[OF w] ..
    next
      assume w: "key AND 7 = 1"
      then have k: "(key AND 7 = 2) = False" "(key AND 7 = 0) = False" "(key AND 7 = 5) = False"
        unfolding w by (simp_all only: wire_types)
      have "frEnd r = pos + nat n + 8" using h(8) w by simp
      note i = IH'[OF this]
      show ?thesis unfolding A B k if_False len i if_not_P[OF ne(1)] if_not_P[OF ne(2)] if_not_P[OF n] if_P[OF w] ..
    qed
  qed
qed

lemma header_free:
  assumes "frames d pos = Inr rs" "r \<in> set rs" "in_body off r"
  shows "\<forall>s\<in>set rs. \<not> (frStart s \<le> off \<and> off < BodyStart s)"
proof (intro ballI notI)
  fix s assume s: "s \<in> set rs" "frStart s \<le> off \<and> off < BodyStart s"
  then have "s = r" using in_body_unique[OF assms s(1)] frames_bounds[OF assms(1)] by fastforce
  then show False using s assms(3) by (simp add: in_body_def)
qed

lemma length_body_update [simp]: "length (body (d[off := x]) r) = length (body d r)"
  by (simp add: body_update)

text \<open>A label message: only the bytes of the label change.\<close>

definition same_len :: "bytes \<Rightarrow> bytes \<Rightarrow> bool" where
  "same_len a b \<longleftrightarrow> length a = length b"

lemma label_part_len:
  assumes "label_part f lb lab = Inr lab2" "length lb' = length lb" "same_len lab lab'"
  shows "\<exists>lab2'. label_part f lb' lab' = Inr lab2' \<and> same_len lab2 lab2'"
  using assms by (auto simp: label_part_def same_len_def copy_over_def split: if_splits)

lemma label_same:
  assumes "walk label_part m lab = Inr lab2" "same_len lab lab'"
  shows "\<exists>lab2'. walk label_part m lab' = Inr lab2' \<and> same_len lab2 lab2'"
proof -
  obtain rs where f: "frames m 0 = Inr rs" "run_parts label_part m rs lab = Inr lab2" by (rule walk_ok_frames[OF assms(1)])
  show ?thesis unfolding walk_frames[OF f(1)]
    by (rule run_parts_related[where R = same_len, OF f(2) assms(2)]) (rule label_part_len, assumption, rule refl, assumption)
qed

lemma label_flip:
  assumes "walk label_part m lab = Inr lab2" "same_len lab lab'" "frames m 0 = Inr ls" "l \<in> set ls" "in_body o1 l"
  shows "\<exists>lab2'. walk label_part (m[o1 := x]) lab' = Inr lab2' \<and> same_len lab2 lab2'"
  by (rule walk_flip[where R = same_len, OF assms]) (rule label_part_len, assumption, simp, assumption)

definition elem_rel :: "elem_state \<Rightarrow> elem_state \<Rightarrow> bool" where
  "elem_rel = (\<lambda>(l, v, a, b) (l', v', a', b'). same_len l l' \<and> a = a' \<and> b = b')"

definition in_payload :: "bytes \<Rightarrow> nat \<Rightarrow> frame \<Rightarrow> bool" where
  "in_payload b o1 c \<longleftrightarrow> in_body o1 c \<and>
     (Field c = 2 \<or> Field c = 1 \<and>
      (\<exists>ls. frames (body b c) 0 = Inr ls \<and> (\<exists>l\<in>set ls. in_body (o1 - BodyStart c) l)))"

lemma elem_part_flip:
  assumes "elem_part (Field r) (body b r) s = Inr s'" "elem_rel s s2"
    and "frames b 0 = Inr es" "c \<in> set es" "in_payload b o1 c" "r \<in> set es"
  shows "\<exists>s2'. elem_part (Field r) (body (b[o1 := x]) r) s2 = Inr s2' \<and> elem_rel s' s2'"
proof -
  obtain l v f g where s: "s = (l, v, f, g)" by (cases s)
  obtain l2 v2 where s2: "s2 = (l2, v2, f, g)" "same_len l l2" using assms(2) s by (cases s2) (auto simp: elem_rel_def)
  consider (lab) "Field r = 1" | (val) "Field r = 2" | (other) "Field r \<noteq> 1" "Field r \<noteq> 2" by blast
  then show ?thesis
  proof cases
    case lab
    then obtain lx where lx: "walk label_part (body b r) l = Inr lx" "s' = (lx, v, True, g)"
      using assms(1) by (auto simp: elem_part_def s split: sum.splits)
    have "\<exists>ly. walk label_part (body (b[o1 := x]) r) l2 = Inr ly \<and> same_len lx ly"
    proof (cases "r = c")
      case True
      then obtain ls ll where ls: "frames (body b r) 0 = Inr ls" "ll \<in> set ls" "in_body (o1 - BodyStart r) ll"
        using assms(5) lab by (auto simp: in_payload_def)
      have "body (b[o1 := x]) r = (body b r)[o1 - BodyStart r := x]"
        using assms(5) True by (simp add: body_update in_payload_def in_body_def)
      then show ?thesis using label_flip[OF lx(1) s2(2) ls] by simp
    next
      case False
      have "in_body o1 c" using assms(5) by (simp add: in_payload_def)
      from body_other[OF assms(3,4) this assms(6) False] label_same[OF lx(1) s2(2)] show ?thesis by simp
    qed
    then show ?thesis using lab lx(2) by (auto simp: elem_part_def s2 elem_rel_def)
  next
    case val
    then show ?thesis using assms(1) s2(2) by (auto simp: elem_part_def s s2(1) elem_rel_def split: if_splits)
  next
    case other
    then show ?thesis using assms(1) s2(2) by (auto simp: elem_part_def s s2(1) elem_rel_def)
  qed
qed

lemma len_part_flip:
  assumes "frames b 0 = Inr es" "c \<in> set es" "in_payload b o1 c" "r \<in> set es"
  shows "len_part (Field r) (body (b[o1 := x]) r) n = len_part (Field r) (body b r) n"
proof (cases "r = c \<and> Field r = 1")
  case True
  then obtain ls ll where ls: "frames (body b r) 0 = Inr ls" "ll \<in> set ls" "in_body (o1 - BodyStart r) ll"
    using assms(3) by (auto simp: in_payload_def)
  have "body (b[o1 := x]) r = (body b r)[o1 - BodyStart r := x]"
    using assms(3) True by (simp add: body_update in_payload_def in_body_def)
  then show ?thesis using readLabelLen_flip[OF ls(1) header_free[OF ls], of x n] by (simp add: len_part_def)
next
  case False
  have "in_body o1 c" using assms(3) by (simp add: in_payload_def)
  then have "r \<noteq> c \<Longrightarrow> body (b[o1 := x]) r = body b r" by (rule body_other[OF assms(1,2) _ assms(4)])
  moreover have "Field r = 1 \<Longrightarrow> r \<noteq> c" using False by blast
  ultimately show ?thesis by (simp add: len_part_def)
qed

lemma decodeElement_flip:
  assumes "decodeElement b = Inr e" "frames b 0 = Inr es" "c \<in> set es" "in_payload b o1 c"
  shows "\<exists>e'. decodeElement (b[o1 := x]) = Inr e' \<and> Len e' = Len e"
proof -
  let ?b = "b[o1 := x]" and ?s0 = "(replicate 32 0, replicate 32 0, False, False) :: elem_state"
  have ib: "in_body o1 c" using assms(4) by (simp add: in_payload_def)
  obtain l v f g n where d: "walk elem_part b ?s0 = Inr (l, v, f, g)" "walk len_part b 0 = Inr n"
    "f" "g" "\<not> n > 256" "Len e = n"
    using assms(1) by (auto simp: decodeElement_def split: sum.splits prod.splits if_splits)
  have r0: "elem_rel ?s0 ?s0" by (simp add: elem_rel_def same_len_def)
  obtain s' where s': "walk elem_part ?b ?s0 = Inr s'" "elem_rel (l, v, f, g) s'"
    using walk_flip[where R = elem_rel and fn = elem_part and x = x, OF d(1) r0 assms(2,3) ib]
      elem_part_flip[OF _ _ assms(2-4)] by blast
  obtain l' v' where s: "s' = (l', v', f, g)" using s'(2) by (cases s') (auto simp: elem_rel_def)
  have "\<exists>n'. walk len_part ?b 0 = Inr n' \<and> n = n'"
    by (rule walk_flip[where R = "(=)" and fn = len_part, OF d(2) refl assms(2,3) ib])
      (use len_part_flip[OF assms(2-4)] in auto)
  then show ?thesis using d s'(1) s by (simp add: decodeElement_def)
qed


text \<open>The place \<open>PayloadOffset\<close> names lies in the payload of a record the decoder reads.\<close>

lemma in_body_shiftD: "in_body off (shift_frame k r) \<Longrightarrow> k \<le> off \<and> in_body (off - k) r"
  by (auto simp: in_body_def shift_frame_def)

lemma body_body:
  assumes "frEnd c \<le> length (body data r)" "BodyStart r \<le> frEnd r" "frEnd r \<le> length data"
  shows "body (body data r) c = go_slice (BodyStart r + BodyStart c) (BodyStart r + frEnd c) data"
proof -
  have "frEnd c \<le> frEnd r - BodyStart r" using assms by (simp add: body_def)
  then have "frEnd c - BodyStart c \<le> frEnd r - (BodyStart c + BodyStart r)" by linarith
  then show ?thesis by (simp add: body_def go_slice_def drop_take min_def add.commute)
qed

lemma elem_hit_payload:
  assumes "elem_hit data off e" "e = shift_frame (BodyStart r) c" "c \<in> set es"
    and "frames (body data r) 0 = Inr es" "BodyStart r \<le> frEnd r" "frEnd r \<le> length data"
    and "Field c = 1 \<Longrightarrow> \<exists>ls. frames (body (body data r) c) 0 = Inr ls"
  shows "BodyStart r \<le> off \<and> in_payload (body data r) (off - BodyStart r) c"
proof -
  have F: "Field e = Field c" "Wire e = Wire c" "BodyStart e = BodyStart r + BodyStart c" "frEnd e = BodyStart r + frEnd c"
    using assms(2) by (simp_all add: shift_frame_def add.commute)
  have cb: "frEnd c \<le> length (body data r)" "BodyStart c \<le> frEnd c" using frames_bounds[OF assms(4)] assms(3) by auto
  have bb: "body (body data r) c = go_slice (BodyStart e) (frEnd e) data" using body_body[OF cb(1) assms(5,6)] F by simp
  consider (val) "Field c = 2" "in_body off e"
    | (lab) l where "Field c = 1" "Wire c = 2" "l \<in> set (seq_frames data (BodyStart e) (frEnd e))" "in_body off l"
    using assms(1) F by (auto simp: elem_hit_def)
  then show ?thesis
  proof cases
    case val
    then show ?thesis using in_body_shiftD[of off "BodyStart r" c] assms(2) by (simp add: in_payload_def)
  next
    case lab
    obtain ls where ls: "frames (body (body data r) c) 0 = Inr ls" using assms(7)[OF lab(1)] by blast
    have "frEnd e \<le> length data" using F cb assms(5,6) by (simp add: body_def)
    then have "seq_frames data (BodyStart e) (frEnd e) = map (shift_frame (BodyStart e)) ls"
      using seq_frames_body[of "BodyStart e" "frEnd e" data 0 ls] ls bb by simp
    then obtain l' where l': "l' \<in> set ls" "l = shift_frame (BodyStart e) l'" using lab(3) by auto
    note s = in_body_shiftD[OF lab(4)[unfolded l'(2)]]
    have "frEnd l' \<le> frEnd c - BodyStart c" using frames_bounds[OF ls] l'(1) by (auto simp: body_def)
    then have "in_body (off - BodyStart r) c" using s lab(2) cb F(3) by (auto simp: in_body_def)
    moreover have "off - BodyStart r - BodyStart c = off - BodyStart e" using F(3) by simp
    ultimately show ?thesis using s F(3) ls l'(1) lab(1) by (auto simp: in_payload_def)
  qed
qed

lemma run_fill_decodes:
  "run_parts fill_part d rs st = Inr st' \<Longrightarrow> r \<in> set rs \<Longrightarrow> Wire r = 2 \<Longrightarrow> \<exists>e. decodeElement (body d r) = Inr e"
  by (induction rs arbitrary: st) (auto simp: fill_part_def split: sum.splits if_splits prod.splits)

lemma run_elem_labels:
  "run_parts elem_part d rs st = Inr st' \<Longrightarrow> r \<in> set rs \<Longrightarrow> Wire r = 2 \<Longrightarrow> Field r = 1 \<Longrightarrow>
   \<exists>ls. frames (body d r) 0 = Inr ls"
proof (induction rs arbitrary: st)
  case (Cons a rs)
  show ?case
  proof (cases "r = a")
    case True
    then obtain lab lab2 where "walk label_part (body d r) lab = Inr lab2"
      using Cons(2,4,5) by (cases st) (auto simp: elem_part_def split: sum.splits)
    then show ?thesis by (rule walk_ok_frames) blast
  next
    case False
    then show ?thesis using Cons by (auto split: if_splits sum.splits)
  qed
qed simp

lemma seq_frames_prefix: "x \<in> set (seq_frames (take k data) s stop) \<Longrightarrow> x \<in> set (seq_frames data s stop)"
proof (induction "take k data" s stop rule: seq_frames.induct)
  case (1 s stop)
  show ?case
  proof (cases "s < stop \<and> (\<exists>r. nextRecord (take k data) s = Framed r)")
    case True
    then obtain r where r: "nextRecord (take k data) s = Framed r" by blast
    have r': "nextRecord data s = Framed r" using nextRecord_append[OF r, of "drop k data"] by simp
    have "seq_frames (take k data) s stop = r # seq_frames (take k data) (frEnd r) stop"
      using True r by (simp add: seq_frames.simps[of _ s stop])
    moreover have "seq_frames data s stop = r # seq_frames data (frEnd r) stop"
      using True r' by (simp add: seq_frames.simps[of _ s stop])
    ultimately show ?thesis using True r 1 by auto
  next
    case False
    then have "seq_frames (take k data) s stop = []"
      by (subst seq_frames.simps) (auto split: framing.splits)
    then show ?thesis using 1(2) by simp
  qed
qed

lemma seq_frames_stop: "stop \<le> stop' \<Longrightarrow> x \<in> set (seq_frames data s stop) \<Longrightarrow> x \<in> set (seq_frames data s stop')"
proof (induction data s stop rule: seq_frames.induct)
  case (1 data s stop)
  show ?case
  proof (cases "s < stop \<and> (\<exists>r. nextRecord data s = Framed r)")
    case True
    then obtain r where r: "nextRecord data s = Framed r" by blast
    have "seq_frames data s stop = r # seq_frames data (frEnd r) stop"
      using True r by (simp add: seq_frames.simps[of data s stop])
    moreover have "seq_frames data s stop' = r # seq_frames data (frEnd r) stop'"
      using True r 1(2) by (simp add: seq_frames.simps[of data s stop'])
    ultimately show ?thesis using True r 1 by auto
  next
    case False
    then have "seq_frames data s stop = []"
      by (subst seq_frames.simps) (auto split: framing.splits)
    then show ?thesis using 1(3) by simp
  qed
qed

lemma elem_hit_prefix: "elem_hit (take k data) off e \<Longrightarrow> elem_hit data off e"
  using seq_frames_prefix unfolding elem_hit_def by blast

lemma payload_flip_prefix:
  assumes "Decode data = Inr (inserted, unchanged)" "PayloadOffset (take k data) 1 n = Inr (Some off, tot)"
  shows "off < length data \<and>
    (\<exists>inserted'. Decode (data[off := x]) = Inr (inserted', unchanged) \<and> map Len inserted' = map Len inserted)"
proof -
  obtain cnt where w: "walk count_part data (0, 0) = Inr cnt" "walk fill_part data ([], []) = Inr (inserted, unchanged)"
    using assms(1) by (auto simp: Decode_def split: sum.splits)
  obtain rs where rs: "frames data 0 = Inr rs" "run_parts fill_part data rs ([], []) = Inr (inserted, unchanged)"
    by (rule walk_ok_frames[OF w(2)])
  have "payload_scan (take k data) 1 n 0 (None, 0) = Inr (Some off, tot)" using assms(2) by (simp add: PayloadOffset_def)
  from payload_scan_hit[OF this, of off] obtain r e where r0: "r \<in> set (seq_frames (take k data) 0 (length (take k data)))"
    "Field r = 1" "Wire r = 2" and e0: "e \<in> set (seq_frames (take k data) (BodyStart r) (frEnd r))" "elem_hit (take k data) off e"
    by auto
  have "r \<in> set (seq_frames data 0 (length data))"
    using seq_frames_stop[where stop = "length (take k data)" and stop' = "length data" and data = data and s = 0]
      seq_frames_prefix[OF r0(1)] by simp
  then obtain r: "r \<in> set rs" "Field r = 1" "Wire r = 2"
    and e: "e \<in> set (seq_frames data (BodyStart r) (frEnd r))" "elem_hit data off e"
    using seq_frames_whole[OF rs(1)] r0 e0 seq_frames_prefix elem_hit_prefix by blast
  have rb: "BodyStart r \<le> frEnd r" "frEnd r \<le> length data" using frames_bounds[OF rs(1)] r(1) by auto
  obtain el where el: "decodeElement (body data r) = Inr el" using run_fill_decodes[OF rs(2) r(1,3)] by blast
  then obtain st where st: "walk elem_part (body data r) (replicate 32 0, replicate 32 0, False, False) = Inr st"
    by (auto simp: decodeElement_def split: sum.splits)
  obtain es where es: "frames (body data r) 0 = Inr es"
    "run_parts elem_part (body data r) es (replicate 32 0, replicate 32 0, False, False) = Inr st"
    by (rule walk_ok_frames[OF st])
  have "seq_frames data (BodyStart r) (frEnd r) = map (shift_frame (BodyStart r)) es"
    using seq_frames_body[of "BodyStart r" "frEnd r" data 0 es] es(1) rb(2) by (simp add: body_def)
  then obtain c where c: "c \<in> set es" "e = shift_frame (BodyStart r) c" using e(1) by auto
  have "Wire c = 2" using e(2) c(2) by (auto simp: elem_hit_def shift_frame_def)
  then have "BodyStart r \<le> off \<and> in_payload (body data r) (off - BodyStart r) c"
    using elem_hit_payload[OF e(2) c(2,1) es(1) rb] run_elem_labels[OF es(2) c(1)] by blast
  then have p: "BodyStart r \<le> off" "in_payload (body data r) (off - BodyStart r) c" by auto
  have ib: "in_body off r"
    using p frames_bounds[OF es(1)] c(1) rb r(3) by (fastforce simp: in_payload_def in_body_def body_def)
  have flipped: "body (data[off := x]) r = (body data r)[off - BodyStart r := x]"
    using ib by (simp add: body_update in_body_def)
  obtain el' where el': "decodeElement (body (data[off := x]) r) = Inr el'" "Len el' = Len el"
    using decodeElement_flip[OF el es(1) c(1) p(2)] flipped by metis
  let ?R = "\<lambda>(i :: Element list, u) (i' :: Element list, u'). map Len i = map Len i' \<and> (u :: Element list) = u'"
  have "\<exists>s2. walk fill_part (data[off := x]) ([], []) = Inr s2 \<and> ?R (inserted, unchanged) s2"
  proof (rule walk_flip[where R = ?R, OF w(2) _ rs(1) r(1) ib])
    fix s t s' t2 assume a: "s \<in> set rs" "Wire s = 2" "fill_part (Field s) (body data s) t = Inr s'" "?R t t2"
    obtain i u i' where t: "t = (i, u)" "t2 = (i', u)" "map Len i = map Len i'" using a(4) by (cases t; cases t2) auto
    show "\<exists>s2'. fill_part (Field s) (body (data[off := x]) s) t2 = Inr s2' \<and> ?R s' s2'"
    proof (cases "s = r")
      case True
      then show ?thesis using a(3) el el' r(2) t by (auto simp: fill_part_def)
    next
      case False
      then show ?thesis using a(3) t unfolding body_other[OF rs(1) r(1) ib a(1) False]
        by (auto simp: fill_part_def split: sum.splits)
    qed
  qed simp
  then obtain ins' where "walk fill_part (data[off := x]) ([], []) = Inr (ins', unchanged)" "map Len ins' = map Len inserted"
    by auto
  moreover have "\<exists>k'. walk count_part (data[off := x]) (0, 0) = Inr k' \<and> cnt = k'"
    by (rule walk_flip[where R = "(=)", OF w(1) refl rs(1) r(1) ib]) (auto simp: count_part_def)
  ultimately show ?thesis using ib rb by (auto simp: Decode_def in_body_def)
qed

text \<open>
C36. Whatever byte is written at an offset PayloadOffset reports for the inserted
  elements, a proof that decodes still decodes, with the same unchanged elements and the
  same number and label lengths of inserted ones: a canary flip never breaks the framing.
\<close>

theorem payload_flip_decodes:
  assumes "Decode data = Inr (inserted, unchanged)" "PayloadOffset data 1 n = Inr (Some off, tot)"
  shows "off < length data \<and>
    (\<exists>inserted'. Decode (data[off := x]) = Inr (inserted', unchanged) \<and> map Len inserted' = map Len inserted)"
proof -
  have "PayloadOffset (take (length data) data) 1 n = Inr (Some off, tot)" using assms(2) by simp
  from payload_flip_prefix[OF assms(1) this] show ?thesis .
qed

subsection \<open>Worked instances\<close>

definition wit_elem_bytes :: "byte \<Rightarrow> byte \<Rightarrow> bytes" where
  "wit_elem_bytes a v = [0x0a, 6, 0x0a, 1, a, 0x10, 0x80, 2, 0x12, 32] @ h32 v"

definition wit_proof :: bytes where
  "wit_proof = [0x0a, 42] @ wit_elem_bytes 0x10 3 @ [0x12, 42] @ wit_elem_bytes 0x80 1"

lemma wit_Decode: "Decode wit_proof = Inr ([wit_elem 0x10 3], [wit_elem 0x80 1])"
  by code_simp

lemma wit_PayloadOffset:
  "PayloadOffset wit_proof 1 0 = Inr (Some 6, 33)" "PayloadOffset wit_proof 1 5 = Inr (Some 16, 33)"
  "PayloadOffset wit_proof 1 (- 1) = Inr (None, 33)"
  by code_simp+

theorem payload_flip_decodes_witness:
  "Decode wit_proof = Inr ([wit_elem 0x10 3], [wit_elem 0x80 1]) \<and> PayloadOffset wit_proof 1 0 = Inr (Some 6, 33) \<and>
   6 < length wit_proof \<and>
   (\<exists>inserted'. Decode (wit_proof[6 := 0x11]) = Inr (inserted', [wit_elem 0x80 1]) \<and>
      map Len inserted' = map Len [wit_elem 0x10 3])"
  using payload_flip_decodes[OF wit_Decode wit_PayloadOffset(1), where x = "0x11"] wit_Decode wit_PayloadOffset by simp

lemma wit_frames: "map (\<lambda>r. (Field r, frStart r, frEnd r)) (case frames wit_proof 0 of Inr rs \<Rightarrow> rs) = [(1, 0, 44), (2, 44, 88)]"
  by code_simp

lemma wit_FieldRanges: "FieldRanges wit_proof 1 = Inr [\<lparr>Start = 0, End = 44\<rparr>]"
  by code_simp

text \<open>
  Protobuf keeps the last of two values.  In an element that repeats its value the first
  copy counts as payload, and a flip there changes nothing the verifier hashes.
\<close>

definition twice_valued :: bytes where
  "twice_valued = [0x0a, 76, 0x0a, 6, 0x0a, 1, 0x10, 0x10, 0x80, 2, 0x12, 32] @ h32 3 @ [0x12, 32] @ h32 4"

lemma flip_without_effect:
  "PayloadOffset twice_valued 1 1 = Inr (Some 12, 65) \<and>
   Decode (twice_valued[12 := 9]) = Decode twice_valued \<and> is_ok (Decode twice_valued)"
proof -
  have "PayloadOffset twice_valued 1 1 = Inr (Some 12, 65)" by code_simp
  moreover have "Decode (twice_valued[12 := 9]) = Inr ([wit_elem 0x10 4], [])" by code_simp
  moreover have "Decode twice_valued = Inr ([wit_elem 0x10 4], [])" by code_simp
  ultimately show ?thesis by simp
qed

text \<open>The length of a label is cut to 32 bits before it is checked.\<close>

lemma label_len_wraps:
  "decodeElement ([0x0a, 9, 0x0a, 1, 0x10, 0x10, 0x80, 0x82, 0x80, 0x80, 0x10, 0x12, 32] @ h32 3) = Inr (wit_elem 0x10 3)"
  by code_simp

end
