(* ===== verification/Proof_Cache.thy ===== *)
theory Proof_Cache
  imports Work_Queue "HOL-Library.Multiset"
begin

text \<open>
  The prefetcher's proof cache, \<open>internal/audit/prefetch.go\<close>, and the cache-backed source of
  \<open>cmd/kt-witness/worksource.go\<close>.  A critical section of the mutex is one function here:
  \<open>Fetch\<close> is \<open>fetch_begin\<close>, the unlocked download, and \<open>fetch_done\<close> or \<open>fetch_abort\<close>.
  The download, the free-space probe and the file system are arguments: the size read, a
  flag, the listing of the directory, the modification times.  SHA-256 is a parameter.
  A map that is ranged over is a list in the order the loop meets it.  What is on disk is what
  the cache's own map says is there: \<open>Release\<close> and \<open>Prune\<close> remove the file itself only after
  they have let the mutex go, and that removal is not a step here.
\<close>

subsection \<open>Keys\<close>

definition hex_digit :: "nat \<Rightarrow> char" where
  "hex_digit n = (if n < 10 then char_of (48 + n) else char_of (87 + n))"

definition EncodeToString :: "bytes \<Rightarrow> string" where
  "EncodeToString bs = concat (map (\<lambda>b. [hex_digit (unat b div 16), hex_digit (unat b mod 16)]) bs)"

definition dec_int :: "int \<Rightarrow> string" where
  "dec_int i = (if i < 0 then CHR ''-'' # dec (nat (- i)) else dec (nat i))"

definition is_digit :: "char \<Rightarrow> bool" where
  "is_digit c \<longleftrightarrow> 48 \<le> (of_char c :: nat) \<and> (of_char c :: nat) \<le> 57"

definition digits_value :: "string \<Rightarrow> nat" where
  "digits_value s = foldl (\<lambda>n c. n * 10 + (of_char c - 48)) 0 s"

text \<open>\<open>strconv.ParseInt(s, 10, 64)\<close>.\<close>

definition ParseInt :: "string \<Rightarrow> int option" where
  "ParseInt s =
     (case s of
        [] \<Rightarrow> None
      | c # rest \<Rightarrow>
          let (neg, ds) = (if c = CHR ''-'' then (True, rest) else if c = CHR ''+'' then (False, rest) else (False, s))
          in if ds = [] \<or> \<not> list_all is_digit ds then None
             else let v = (if neg then - int (digits_value ds) else int (digits_value ds))
                  in if - (2 ^ 63) \<le> v \<and> v < 2 ^ 63 then Some v else None)"

definition origin_hash :: "(bytes \<Rightarrow> bytes) \<Rightarrow> string \<Rightarrow> string" where
  "origin_hash sha origin = EncodeToString (take 6 (sha (map (\<lambda>c. of_nat (of_char c)) origin)))"

definition proof_ext :: string where "proof_ext = ''.proof''"

definition cacheKey :: "(bytes \<Rightarrow> bytes) \<Rightarrow> string \<Rightarrow> int \<Rightarrow> string" where
  "cacheKey sha origin epoch = origin_hash sha origin @ ''-'' @ dec_int epoch @ proof_ext"

definition TrimSuffix :: "string \<Rightarrow> string \<Rightarrow> string" where
  "TrimSuffix s suf =
     (if length suf \<le> length s \<and> drop (length s - length suf) s = suf then take (length s - length suf) s else s)"

text \<open>\<open>strings.LastIndex(name, "-")\<close>, None for -1.\<close>

definition LastIndex :: "char \<Rightarrow> string \<Rightarrow> nat option" where
  "LastIndex c s = (let k = length (takeWhile (\<lambda>x. x \<noteq> c) (rev s)) in if k = length s then None else Some (length s - 1 - k))"

definition by_hash :: "(bytes \<Rightarrow> bytes) \<Rightarrow> string list \<Rightarrow> string \<rightharpoonup> string" where
  "by_hash sha os = foldl (\<lambda>m o'. m(origin_hash sha o' \<mapsto> o')) Map.empty os"

definition splitKey :: "string \<Rightarrow> (string \<rightharpoonup> string) \<Rightarrow> (string \<times> int) option" where
  "splitKey base byHash =
     (let name = TrimSuffix base proof_ext
      in case LastIndex (CHR ''-'') name of
           None \<Rightarrow> None
         | Some i \<Rightarrow>
             if i = 0 \<or> name = base then None
             else case byHash (take i name) of
                    None \<Rightarrow> None
                  | Some origin \<Rightarrow> map_option (\<lambda>e. (origin, e)) (ParseInt (drop (i + 1) name)))"

subsection \<open>The cache\<close>

record Prefetcher =
  pfMaxBytes :: int
  pfOrigins :: "string list"
  cached :: "(string \<times> int) list"
  ready :: "string \<rightharpoonup> int list"
  pfBytes :: int
  inWork :: "string list"

definition defaultPrefetchBytes :: int where "defaultPrefetchBytes = 10 * 2 ^ 30"

definition maxBytes :: "Prefetcher \<Rightarrow> int" where
  "maxBytes p = (if pfMaxBytes p > 0 then pfMaxBytes p else defaultPrefetchBytes)"

definition ready_set :: "Prefetcher \<Rightarrow> string \<Rightarrow> int list" where
  "ready_set p origin = (case ready p origin of None \<Rightarrow> [] | Some m \<Rightarrow> m)"

definition markReady :: "string \<Rightarrow> int \<Rightarrow> Prefetcher \<Rightarrow> Prefetcher" where
  "markReady origin epoch p = p\<lparr>ready := (ready p)(origin \<mapsto> List.insert epoch (ready_set p origin))\<rparr>"

definition bdel :: "'k \<Rightarrow> ('k \<times> 'v) list \<Rightarrow> ('k \<times> 'v) list" where
  "bdel k b = filter (\<lambda>(l, _). l \<noteq> k) b"

text \<open>\<open>init\<close>: adopt the files of an earlier run; \<open>ext_part\<close> is \<open>filepath.Ext(path) == ".part"\<close>.\<close>

definition ext_part :: "string \<Rightarrow> bool" where
  "ext_part f = (case LastIndex (CHR ''.'') f of None \<Rightarrow> False | Some i \<Rightarrow> drop i f = ''.part'')"

definition adopt :: "(string \<rightharpoonup> string) \<Rightarrow> string \<times> int \<Rightarrow> Prefetcher \<Rightarrow> Prefetcher" where
  "adopt byHash = (\<lambda>(base, sz) p.
     if ext_part base then p
     else (let p = p\<lparr>cached := bput base sz (cached p), pfBytes := pfBytes p + sz\<rparr>
           in case splitKey base byHash of None \<Rightarrow> p | Some (origin, e) \<Rightarrow> markReady origin e p))"

definition pf_init :: "(bytes \<Rightarrow> bytes) \<Rightarrow> int \<Rightarrow> string list \<Rightarrow> (string \<times> int) list \<Rightarrow> Prefetcher" where
  "pf_init sha mx os files =
     fold (adopt (by_hash sha os)) files
       \<lparr>pfMaxBytes = mx, pfOrigins = os, cached = [], ready = Map.empty, pfBytes = 0, inWork = []\<rparr>"

text \<open>\<open>Ready\<close>: the lowest epoch at or after \<open>after\<close>, then as far as it runs.\<close>

definition lowest_from :: "int \<Rightarrow> int list \<Rightarrow> int" where
  "lowest_from after m = foldl (\<lambda>first e. if e \<ge> after \<and> (first < 0 \<or> e < first) then e else first) (- 1) m"

function run_last :: "int list \<Rightarrow> int \<Rightarrow> int \<Rightarrow> int \<Rightarrow> int" where
  "run_last m first n lst =
     (if lst + 1 \<in> set m \<and> lst - first + 1 < n then run_last m first n (lst + 1) else lst)"
  by pat_completeness auto
termination by (relation "measure (\<lambda>(m, first, n, lst). nat (n + first - lst))") auto

declare run_last.simps [simp del]

definition Ready :: "Prefetcher \<Rightarrow> string \<Rightarrow> int \<Rightarrow> int \<Rightarrow> (int \<times> int) option" where
  "Ready p origin after n =
     (if n < 1 then None
      else let m = ready_set p origin
           in if m = [] then None
              else let first = lowest_from after m
                   in if first < 0 then None else Some (first, run_last m first n first))"

definition Held :: "Prefetcher \<Rightarrow> string \<Rightarrow> nat" where
  "Held p origin = length (ready_set p origin)"

definition Path_held :: "(bytes \<Rightarrow> bytes) \<Rightarrow> Prefetcher \<Rightarrow> string \<Rightarrow> int \<Rightarrow> bool" where
  "Path_held sha p origin epoch \<longleftrightarrow> map_of (cached p) (cacheKey sha origin epoch) \<noteq> None"

definition unready :: "string \<Rightarrow> int \<Rightarrow> Prefetcher \<Rightarrow> Prefetcher" where
  "unready origin epoch p =
     (case ready p origin of None \<Rightarrow> p
      | Some m \<Rightarrow> p\<lparr>ready := (ready p)(origin \<mapsto> filter (\<lambda>e. e \<noteq> epoch) m)\<rparr>)"

definition Release :: "(bytes \<Rightarrow> bytes) \<Rightarrow> string \<Rightarrow> int \<Rightarrow> Prefetcher \<Rightarrow> Prefetcher" where
  "Release sha origin epoch p =
     (let k = cacheKey sha origin epoch
      in case map_of (cached p) k of
           None \<Rightarrow> p
         | Some sz \<Rightarrow> unready origin epoch (p\<lparr>cached := bdel k (cached p), pfBytes := pfBytes p - sz\<rparr>))"

text \<open>
  \<open>Fetch\<close>: the check under the lock says whether to go on.  A refusal for lack of disk, a
  cancelled context and a failed download all take the key out of \<open>inWork\<close>.
\<close>

definition fetch_begin :: "(bytes \<Rightarrow> bytes) \<Rightarrow> string \<Rightarrow> int \<Rightarrow> Prefetcher \<Rightarrow> bool \<times> Prefetcher" where
  "fetch_begin sha origin epoch p =
     (let k = cacheKey sha origin epoch
      in if map_of (cached p) k \<noteq> None \<or> k \<in> set (inWork p) \<or> pfBytes p \<ge> maxBytes p then (False, p)
         else (True, p\<lparr>inWork := List.insert k (inWork p)\<rparr>))"

definition fetch_abort :: "(bytes \<Rightarrow> bytes) \<Rightarrow> string \<Rightarrow> int \<Rightarrow> Prefetcher \<Rightarrow> Prefetcher" where
  "fetch_abort sha origin epoch p = p\<lparr>inWork := filter (\<lambda>k. k \<noteq> cacheKey sha origin epoch) (inWork p)\<rparr>"

definition fetch_done :: "(bytes \<Rightarrow> bytes) \<Rightarrow> string \<Rightarrow> int \<Rightarrow> int \<Rightarrow> Prefetcher \<Rightarrow> Prefetcher" where
  "fetch_done sha origin epoch n p =
     (let p = p\<lparr>cached := bput (cacheKey sha origin epoch) n (cached p)\<rparr>;
          p = markReady origin epoch p
      in p\<lparr>pfBytes := pfBytes p + n\<rparr>)"

text \<open>\<open>Prune\<close>: \<open>stat\<close> gives a file's modification time, None when it is not there.\<close>

definition prune_one :: "(string \<rightharpoonup> string) \<Rightarrow> string \<times> int \<Rightarrow> Prefetcher \<Rightarrow> Prefetcher" where
  "prune_one byHash = (\<lambda>(k, sz) p.
     if pfBytes p \<le> maxBytes p then p
     else (let p = p\<lparr>cached := bdel k (cached p), pfBytes := pfBytes p - sz\<rparr>
           in case splitKey k byHash of None \<Rightarrow> p | Some (origin, e) \<Rightarrow> unready origin e p))"

definition Prune :: "(bytes \<Rightarrow> bytes) \<Rightarrow> (string \<Rightarrow> int option) \<Rightarrow> Prefetcher \<Rightarrow> Prefetcher" where
  "Prune sha stat p =
     (if pfBytes p \<le> maxBytes p then p
      else fold (prune_one (by_hash sha (pfOrigins p)))
             (sort_key (\<lambda>(k, _). the (stat k)) (filter (\<lambda>(k, _). stat k \<noteq> None) (cached p))) p)"

definition cacheSource :: "Prefetcher \<Rightarrow> source" where
  "cacheSource p origin after n = Ready p origin after n"

subsection \<open>File names\<close>

lemma hex_digit_code: "n < 16 \<Longrightarrow> (of_char (hex_digit n) :: nat) \<in> {48..57} \<union> {97..102}"
  by (auto simp: hex_digit_def)

lemma hex_digit_not_minus: "n < 16 \<Longrightarrow> hex_digit n \<noteq> CHR ''-''"
  using hex_digit_code[of n] by (auto split: if_splits)

lemma EncodeToString_no_minus: "CHR ''-'' \<notin> set (EncodeToString bs)"
proof -
  have "unat (b :: 8 word) div 16 < 16" for b using unsigned_less[of b, where 'a = nat] by simp
  then have "CHR ''-'' \<noteq> hex_digit (unat (b :: 8 word) div 16)" "CHR ''-'' \<noteq> hex_digit (unat b mod 16)" for b
    using hex_digit_not_minus by (metis, metis mod_less_divisor zero_less_numeral)
  then show ?thesis by (auto simp: EncodeToString_def)
qed

lemma length_EncodeToString: "length (EncodeToString bs) = 2 * length bs"
  by (induction bs) (auto simp: EncodeToString_def)

lemma dec_nonempty [simp]: "dec n \<noteq> []" by (subst dec.simps) simp

lemma is_digit_digit: "(n :: nat) < 10 \<Longrightarrow> is_digit (char_of (48 + n))"
  by (simp add: is_digit_def)

lemma dec_digits: "list_all is_digit (dec n)"
  by (induction n rule: dec.induct) (subst dec.simps, auto simp: is_digit_digit)

lemma digits_value_snoc: "digits_value (s @ [c]) = digits_value s * 10 + (of_char c - 48)"
  by (simp add: digits_value_def)

lemma digits_value_dec [simp]: "digits_value (dec n) = n"
proof (induction n rule: dec.induct)
  case (1 n)
  show ?case
  proof (cases "n < 10")
    case True
    then show ?thesis by (subst dec.simps) (simp add: digits_value_def)
  next
    case False
    then show ?thesis using 1 by (subst dec.simps) (simp add: digits_value_snoc)
  qed
qed

lemma dec_no_minus: "CHR ''-'' \<notin> set (dec n)"
  using dec_digits[of n] by (auto simp: list_all_iff is_digit_def)

lemma dec_hd: "dec n = c # r \<Longrightarrow> c \<noteq> CHR ''-'' \<and> c \<noteq> CHR ''+''"
  using dec_digits[of n] by (auto simp: list_all_iff is_digit_def)

lemma ParseInt_dec: "int n < 2 ^ 63 \<Longrightarrow> ParseInt (dec n) = Some (int n)"
proof -
  assume n: "int n < 2 ^ 63"
  obtain c r where cr: "dec n = c # r" using dec_nonempty[of n] by (cases "dec n") auto
  have "digits_value (c # r) = n" "list_all is_digit (c # r)"
    using digits_value_dec[of n] dec_digits[of n] cr by auto
  then show ?thesis using n dec_hd[OF cr] by (simp add: cr ParseInt_def Let_def)
qed

lemma LastIndex_split: "c \<notin> set d \<Longrightarrow> LastIndex c (h @ c # d) = Some (length h)"
proof -
  assume "c \<notin> set d"
  then have "takeWhile (\<lambda>x. x \<noteq> c) (rev d @ [c] @ rev h) = rev d"
    by (subst takeWhile_append2) auto
  then show ?thesis by (simp add: LastIndex_def Let_def)
qed

lemma TrimSuffix_append [simp]: "TrimSuffix (x @ suf) suf = x"
  by (simp add: TrimSuffix_def)

lemma by_hash_lookup:
  "inj_on (origin_hash sha) (set os) \<Longrightarrow> o' \<in> set os \<Longrightarrow> by_hash sha os (origin_hash sha o') = Some o'"
proof (induction os rule: rev_induct)
  case (snoc x xs)
  have b: "by_hash sha (xs @ [x]) = (by_hash sha xs)(origin_hash sha x \<mapsto> x)" by (simp add: by_hash_def)
  show ?case
  proof (cases "o' = x")
    case True then show ?thesis by (simp add: b)
  next
    case False
    then have "origin_hash sha o' \<noteq> origin_hash sha x"
      using inj_onD[OF snoc.prems(1), of o' x] snoc.prems(2) by fastforce
    moreover have "inj_on (origin_hash sha) (set xs)" using snoc.prems(1) by (auto simp: inj_on_def)
    ultimately show ?thesis using snoc False by (simp add: b)
  qed
qed simp

text \<open>What the cache relies on: SHA-256 gives 32 bytes, and no two of the configured origins share 48 bits.\<close>

definition hash_ok :: "(bytes \<Rightarrow> bytes) \<Rightarrow> string list \<Rightarrow> bool" where
  "hash_ok sha os \<longleftrightarrow> (\<forall>x. length (sha x) = 32) \<and> inj_on (origin_hash sha) (set os)"

definition int64_epoch :: "int \<Rightarrow> bool" where "int64_epoch e \<longleftrightarrow> 0 \<le> e \<and> e < 2 ^ 63"

lemma splitKey_of_key:
  assumes "hash_ok sha os" "o' \<in> set os" "int64_epoch e"
  shows "splitKey (cacheKey sha o' e) (by_hash sha os) = Some (o', e)"
proof -
  let ?h = "origin_hash sha o'" and ?d = "dec (nat e)"
  have key: "cacheKey sha o' e = (?h @ CHR ''-'' # ?d) @ proof_ext"
    using assms(3) by (simp add: cacheKey_def dec_int_def int64_epoch_def)
  have "length ?h = 12"
    using assms(1) by (simp add: origin_hash_def length_EncodeToString hash_ok_def)
  then have h0: "length ?h \<noteq> 0" by simp
  have li: "LastIndex (CHR ''-'') (?h @ CHR ''-'' # ?d) = Some (length ?h)"
    by (rule LastIndex_split[OF dec_no_minus])
  have ne: "?h @ CHR ''-'' # ?d \<noteq> (?h @ CHR ''-'' # ?d) @ proof_ext" by (simp add: proof_ext_def)
  have pe: "ParseInt ?d = Some e" using ParseInt_dec[of "nat e"] assms(3) by (simp add: int64_epoch_def)
  have bh: "by_hash sha os ?h = Some o'" using assms by (simp add: by_hash_lookup hash_ok_def)
  show ?thesis
    unfolding splitKey_def key TrimSuffix_append Let_def li
    using h0 ne pe bh by simp
qed

lemma cacheKey_inj:
  assumes "hash_ok sha os" "o1 \<in> set os" "o2 \<in> set os" "int64_epoch e1" "int64_epoch e2"
    and "cacheKey sha o1 e1 = cacheKey sha o2 e2"
  shows "o1 = o2 \<and> e1 = e2"
proof -
  have "Some (o1, e1) = Some (o2, e2)"
    using splitKey_of_key[OF assms(1,2,4), unfolded assms(6)] splitKey_of_key[OF assms(1,3,5)]
    by (rule trans[OF sym])
  then show ?thesis by simp
qed

subsection \<open>The invariant of the cache\<close>

definition sizes :: "(string \<times> int) list \<Rightarrow> int" where "sizes b = sum_list (map snd b)"

lemma bdel_absent: "k \<notin> fst ` set b \<Longrightarrow> bdel k b = b"
  by (auto simp: bdel_def filter_id_conv image_iff)

lemma sizes_bdel:
  "distinct (map fst b) \<Longrightarrow> map_of b k = Some n \<Longrightarrow> sizes (bdel k b) = sizes b - n"
proof (induction b)
  case (Cons x b)
  obtain l v where x: "x = (l, v)" by (cases x)
  show ?case
  proof (cases "l = k")
    case True
    have "bdel k b = b" using Cons.prems(1) True x by (intro bdel_absent) auto
    then show ?thesis using Cons.prems True x by (simp add: sizes_def bdel_def)
  next
    case False
    then show ?thesis using Cons x by (simp add: sizes_def bdel_def)
  qed
qed (simp add: sizes_def)

lemma map_of_bdel: "map_of (bdel k b) l = (if l = k then None else map_of b l)"
  by (induction b) (auto simp: bdel_def)

lemma distinct_bdel: "distinct (map fst b) \<Longrightarrow> distinct (map fst (bdel k b))"
  by (induction b) (auto simp: bdel_def)

lemma set_bdel: "set (bdel k b) = {x \<in> set b. fst x \<noteq> k}"
  by (auto simp: bdel_def)

text \<open>The cache proper: sizes add up, and \<open>ready\<close> lists exactly the proofs on disk.\<close>

definition cache_wf :: "(bytes \<Rightarrow> bytes) \<Rightarrow> string list \<Rightarrow> Prefetcher \<Rightarrow> bool" where
  "cache_wf sha os p \<longleftrightarrow>
     pfOrigins p = os
     \<and> distinct (map fst (cached p)) \<and> (\<forall>(k, n) \<in> set (cached p). 0 \<le> n)
     \<and> pfBytes p = sizes (cached p)
     \<and> (\<forall>k \<in> fst ` set (cached p). \<exists>o' e. o' \<in> set os \<and> int64_epoch e \<and> k = cacheKey sha o' e)
     \<and> (\<forall>o'. distinct (ready_set p o'))
     \<and> (\<forall>o' e. e \<in> set (ready_set p o') \<longleftrightarrow>
          o' \<in> set os \<and> int64_epoch e \<and> map_of (cached p) (cacheKey sha o' e) \<noteq> None)"

lemma ready_set_markReady:
  "ready_set (markReady o1 e p) o2 = (if o2 = o1 then List.insert e (ready_set p o1) else ready_set p o2)"
  by (simp add: markReady_def ready_set_def)

lemma markReady_rest [simp]:
  "cached (markReady o1 e p) = cached p" "pfBytes (markReady o1 e p) = pfBytes p"
  "pfOrigins (markReady o1 e p) = pfOrigins p" "inWork (markReady o1 e p) = inWork p"
  "pfMaxBytes (markReady o1 e p) = pfMaxBytes p"
  by (simp_all add: markReady_def)

lemma ready_set_unready:
  "ready_set (unready o1 e p) o2 =
     (if o2 = o1 then filter (\<lambda>x. x \<noteq> e) (ready_set p o1) else ready_set p o2)"
  by (auto simp: unready_def ready_set_def split: option.splits)

lemma unready_rest [simp]:
  "cached (unready o1 e p) = cached p" "pfBytes (unready o1 e p) = pfBytes p"
  "pfOrigins (unready o1 e p) = pfOrigins p" "inWork (unready o1 e p) = inWork p"
  "pfMaxBytes (unready o1 e p) = pfMaxBytes p"
  by (auto simp: unready_def split: option.splits)

lemma ready_set_update [simp]:
  "ready_set (p\<lparr>cached := c\<rparr>) = ready_set p" "ready_set (p\<lparr>pfBytes := b\<rparr>) = ready_set p"
  "ready_set (p\<lparr>inWork := w\<rparr>) = ready_set p"
  by (auto simp: ready_set_def fun_eq_iff)

lemma cache_wfD:
  assumes "cache_wf sha os p"
  shows "pfOrigins p = os" "distinct (map fst (cached p))" "(k, n) \<in> set (cached p) \<Longrightarrow> 0 \<le> n"
    "pfBytes p = sizes (cached p)"
    "(k, n) \<in> set (cached p) \<Longrightarrow> \<exists>o' e. o' \<in> set os \<and> int64_epoch e \<and> k = cacheKey sha o' e"
    "distinct (ready_set p o')"
    "e \<in> set (ready_set p o') \<longleftrightarrow> o' \<in> set os \<and> int64_epoch e \<and> map_of (cached p) (cacheKey sha o' e) \<noteq> None"
  using assms unfolding cache_wf_def by (simp, simp, fastforce, simp, force, simp, simp)

lemma cache_wf_remove:
  assumes ok: "hash_ok sha os" and wf: "cache_wf sha os p"
    and o': "o' \<in> set os" "int64_epoch e" and k: "map_of (cached p) (cacheKey sha o' e) = Some n"
  shows "cache_wf sha os
           (unready o' e (p\<lparr>cached := bdel (cacheKey sha o' e) (cached p), pfBytes := pfBytes p - n\<rparr>))"
proof -
  note d = cache_wfD[OF wf]
  have inj: "cacheKey sha a b = cacheKey sha o' e \<longleftrightarrow> a = o' \<and> b = e"
    if "a \<in> set os" "int64_epoch b" for a b
    using cacheKey_inj[OF ok that(1) o'(1) that(2) o'(2)] by blast
  have keys: "\<forall>k' \<in> fst ` set (bdel (cacheKey sha o' e) (cached p)).
      \<exists>o1 e1. o1 \<in> set os \<and> int64_epoch e1 \<and> k' = cacheKey sha o1 e1"
    using d(5) by (auto simp: set_bdel)
  let ?q = "unready o' e (p\<lparr>cached := bdel (cacheKey sha o' e) (cached p), pfBytes := pfBytes p - n\<rparr>)"
  show ?thesis
    unfolding cache_wf_def
  proof (intro conjI)
    show "\<forall>k' \<in> fst ` set (cached ?q). \<exists>o1 e1. o1 \<in> set os \<and> int64_epoch e1 \<and> k' = cacheKey sha o1 e1"
      using keys by simp
  qed (use d(1,2,4,6) d(3) in \<open>auto simp: distinct_bdel sizes_bdel[OF d(2) k] set_bdel ready_set_unready
        map_of_bdel d(7) inj split: if_splits\<close>)
qed

lemma cache_wf_add:
  assumes ok: "hash_ok sha os" and wf: "cache_wf sha os p"
    and o': "o' \<in> set os" "int64_epoch e" and k: "map_of (cached p) (cacheKey sha o' e) = None" and n: "0 \<le> n"
  shows "cache_wf sha os
           ((markReady o' e (p\<lparr>cached := bput (cacheKey sha o' e) n (cached p)\<rparr>))\<lparr>pfBytes := pfBytes p + n\<rparr>)"
proof -
  note d = cache_wfD[OF wf]
  have inj: "cacheKey sha a b = cacheKey sha o' e \<longleftrightarrow> a = o' \<and> b = e"
    if "a \<in> set os" "int64_epoch b" for a b
    using cacheKey_inj[OF ok that(1) o'(1) that(2) o'(2)] by blast
  have ks: "cacheKey sha o' e \<notin> fst ` set (cached p)" using k by (simp add: map_of_eq_None_iff)
  have keys: "\<forall>k' \<in> fst ` set (bput (cacheKey sha o' e) n (cached p)).
      \<exists>o1 e1. o1 \<in> set os \<and> int64_epoch e1 \<and> k' = cacheKey sha o1 e1"
    using d(5) o' by (auto simp: bput_new[OF k])
  let ?q = "(markReady o' e (p\<lparr>cached := bput (cacheKey sha o' e) n (cached p)\<rparr>))\<lparr>pfBytes := pfBytes p + n\<rparr>"
  show ?thesis
    unfolding cache_wf_def
  proof (intro conjI)
    show "\<forall>k' \<in> fst ` set (cached ?q). \<exists>o1 e1. o1 \<in> set os \<and> int64_epoch e1 \<and> k' = cacheKey sha o1 e1"
      using keys by simp
  qed (use d(1,2,4,6) d(3) o' n ks in \<open>auto simp: bput_new[OF k] sizes_def ready_set_markReady d(7) inj
        map_add_def map_of_append split: if_splits option.splits\<close>)
qed

lemma Release_wf:
  assumes "hash_ok sha os" "cache_wf sha os p" "o' \<in> set os" "int64_epoch e"
  shows "cache_wf sha os (Release sha o' e p)"
  using cache_wf_remove[OF assms] assms(2) by (auto simp: Release_def Let_def split: option.splits)

lemma Release_rest [simp]: "inWork (Release sha o' e p) = inWork p" "pfMaxBytes (Release sha o' e p) = pfMaxBytes p"
  by (auto simp: Release_def Let_def split: option.splits)

lemma Release_cached: "cached (Release sha o' e p) = bdel (cacheKey sha o' e) (cached p)"
proof (cases "map_of (cached p) (cacheKey sha o' e)")
  case None
  then have "cacheKey sha o' e \<notin> fst ` set (cached p)" by (simp add: map_of_eq_None_iff)
  then show ?thesis using None by (simp add: Release_def Let_def bdel_absent)
qed (simp add: Release_def Let_def)

text \<open>\<open>Prune\<close>: along its loop the remaining entries are still in the cache, with their sizes.\<close>

lemma prune_one_wf:
  assumes ok: "hash_ok sha os" and wf: "cache_wf sha os p" and k: "map_of (cached p) k = Some n"
  shows "cache_wf sha os (prune_one (by_hash sha os) (k, n) p)"
proof -
  obtain o' e where oe: "o' \<in> set os" "int64_epoch e" "k = cacheKey sha o' e"
    using cache_wfD(5)[OF wf map_of_SomeD[OF k]] by blast
  then show ?thesis
    using cache_wf_remove[OF ok wf oe(1,2) k[unfolded oe(3)]] wf splitKey_of_key[OF ok oe(1,2)]
    by (simp add: prune_one_def Let_def)
qed

lemma prune_one_cached:
  "cached (prune_one h (k, n) p) = (if pfBytes p \<le> maxBytes p then cached p else bdel k (cached p))"
  by (auto simp: prune_one_def Let_def split: option.splits)

lemma prune_one_rest [simp]:
  "inWork (prune_one h x p) = inWork p" "pfMaxBytes (prune_one h x p) = pfMaxBytes p"
  by (auto simp: prune_one_def Let_def split: option.splits prod.splits)

lemma prune_one_bytes:
  "pfBytes (prune_one h (k, n) p) = (if pfBytes p \<le> maxBytes p then pfBytes p else pfBytes p - n)"
  by (auto simp: prune_one_def Let_def split: option.splits)

lemma prune_fold:
  assumes "hash_ok sha os" "cache_wf sha os p" "distinct (map fst xs)"
    "\<forall>x \<in> set xs. map_of (cached p) (fst x) = Some (snd x)"
  shows "cache_wf sha os (fold (prune_one (by_hash sha os)) xs p)
       \<and> set (cached (fold (prune_one (by_hash sha os)) xs p)) \<subseteq> set (cached p)
       \<and> inWork (fold (prune_one (by_hash sha os)) xs p) = inWork p
       \<and> pfMaxBytes (fold (prune_one (by_hash sha os)) xs p) = pfMaxBytes p
       \<and> pfBytes (fold (prune_one (by_hash sha os)) xs p) \<le> max (maxBytes p) (pfBytes p - sizes xs)"
  using assms(2-)
proof (induction xs arbitrary: p)
  case (Cons x xs)
  obtain k n where x: "x = (k, n)" by (cases x)
  define q where "q = prune_one (by_hash sha os) (k, n) p"
  have kn: "map_of (cached p) k = Some n" using Cons.prems(3) x by simp
  have wq: "cache_wf sha os q" unfolding q_def by (rule prune_one_wf[OF assms(1) Cons.prems(1) kn])
  have rest: "\<forall>y \<in> set xs. map_of (cached q) (fst y) = Some (snd y)"
  proof
    fix y assume y: "y \<in> set xs"
    then have "fst y \<noteq> k" using Cons.prems(2) x by force
    then show "map_of (cached q) (fst y) = Some (snd y)"
      using Cons.prems(3) y by (auto simp: q_def prune_one_cached map_of_bdel)
  qed
  have "set (cached q) \<subseteq> set (cached p)" by (auto simp: q_def prune_one_cached set_bdel)
  moreover have "maxBytes q = maxBytes p" by (simp add: q_def maxBytes_def)
  moreover have n0: "0 \<le> n" using cache_wfD(3)[OF Cons.prems(1) map_of_SomeD[OF kn]] .
  moreover have "0 \<le> sizes xs"
  proof -
    have "0 \<le> snd y" if "y \<in> set xs" for y
      using cache_wfD(3)[OF Cons.prems(1) map_of_SomeD, of "fst y" "snd y"] Cons.prems(3) that by auto
    then show ?thesis by (auto simp: sizes_def intro!: sum_list_nonneg)
  qed
  moreover have "pfBytes q \<le> max (maxBytes p) (pfBytes p - n)"
    by (auto simp: q_def prune_one_bytes)
  moreover have "inWork q = inWork p" "pfMaxBytes q = pfMaxBytes p" by (simp_all add: q_def)
  ultimately show ?case
    using Cons.IH[OF wq _ rest] Cons.prems(2) x by (auto simp: q_def[symmetric] sizes_def)
qed (auto simp: sizes_def)

lemma map_of_distinct: "distinct (map fst b) \<Longrightarrow> (k, v) \<in> set b \<Longrightarrow> map_of b k = Some v"
  by simp

lemma Prune_wf:
  assumes ok: "hash_ok sha os" and wf: "cache_wf sha os p"
  shows "cache_wf sha os (Prune sha stat p)" "set (cached (Prune sha stat p)) \<subseteq> set (cached p)"
    "inWork (Prune sha stat p) = inWork p" "pfMaxBytes (Prune sha stat p) = pfMaxBytes p"
    "\<forall>(k, n) \<in> set (cached p). stat k \<noteq> None \<Longrightarrow> 0 \<le> pfMaxBytes p \<Longrightarrow> pfBytes (Prune sha stat p) \<le> maxBytes p"
proof -
  define xs where "xs = sort_key (\<lambda>(k, _). the (stat k)) (filter (\<lambda>(k, _). stat k \<noteq> None) (cached p))"
  have "distinct (map fst (cached p))" using cache_wfD(2)[OF wf] .
  then have dm: "distinct (map fst (filter (\<lambda>(k, _). stat k \<noteq> None) (cached p)))"
    by (rule distinct_map_filter)
  have ms: "mset (map fst xs) = mset (map fst (filter (\<lambda>(k, _). stat k \<noteq> None) (cached p)))"
    by (metis xs_def mset_map mset_sort)
  have d: "distinct (map fst xs)" using dm mset_eq_imp_distinct_iff[OF ms] by blast
  have m: "\<forall>x \<in> set xs. map_of (cached p) (fst x) = Some (snd x)"
    using cache_wfD(2)[OF wf] by (auto simp: xs_def)
  have o': "pfOrigins p = os" using cache_wfD(1)[OF wf] .
  note f = prune_fold[OF ok wf d m]
  show "cache_wf sha os (Prune sha stat p)" "set (cached (Prune sha stat p)) \<subseteq> set (cached p)"
    "inWork (Prune sha stat p) = inWork p" "pfMaxBytes (Prune sha stat p) = pfMaxBytes p"
    using f wf by (simp_all add: Prune_def o' xs_def)
  assume st: "\<forall>(k, n) \<in> set (cached p). stat k \<noteq> None" and mx: "0 \<le> pfMaxBytes p"
  have "filter (\<lambda>(k, _). stat k \<noteq> None) (cached p) = cached p"
    using st by (auto intro!: filter_True)
  then have "mset xs = mset (cached p)" by (simp add: xs_def)
  then have "sizes xs = sizes (cached p)"
    unfolding sizes_def by (metis sum_mset_sum_list mset_map)
  then have "pfBytes p - sizes xs = 0" using cache_wfD(4)[OF wf] by simp
  moreover have "0 \<le> maxBytes p" by (simp add: maxBytes_def defaultPrefetchBytes_def)
  ultimately show "pfBytes (Prune sha stat p) \<le> maxBytes p"
    using f by (auto simp: Prune_def o' xs_def)
qed

subsection \<open>Reachable caches\<close>

text \<open>
  The cache with the downloads under way (\<open>dl\<close>) and those whose file is in place and whose
  deferred removal from \<open>inWork\<close> is still to come (\<open>fin\<close>).  Any of these may step next.
\<close>

definition own_files :: "(bytes \<Rightarrow> bytes) \<Rightarrow> string list \<Rightarrow> (string \<times> int) list \<Rightarrow> bool" where
  "own_files sha os files \<longleftrightarrow>
     distinct (map fst files)
     \<and> (\<forall>(f, n) \<in> set files. 0 \<le> n \<and> (ext_part f \<or> (\<exists>o' e. o' \<in> set os \<and> int64_epoch e \<and> f = cacheKey sha o' e)))"

inductive pf_reach ::
  "(bytes \<Rightarrow> bytes) \<Rightarrow> string list \<Rightarrow> Prefetcher \<Rightarrow> (string \<times> int) list \<Rightarrow> (string \<times> int) list \<Rightarrow> bool"
  for sha :: "bytes \<Rightarrow> bytes" and os :: "string list" where
  start: "own_files sha os files \<Longrightarrow> pf_reach sha os (pf_init sha mx os files) [] []"
| begins: "\<lbrakk>pf_reach sha os p dl fin; o' \<in> set os; int64_epoch e; fetch_begin sha o' e p = (True, p')\<rbrakk>
    \<Longrightarrow> pf_reach sha os p' ((o', e) # dl) fin"
| lands: "\<lbrakk>pf_reach sha os p dl fin; (o', e) \<in> set dl; 0 \<le> n\<rbrakk>
    \<Longrightarrow> pf_reach sha os (fetch_done sha o' e n p) (removeAll (o', e) dl) ((o', e) # fin)"
| fails: "\<lbrakk>pf_reach sha os p dl fin; (o', e) \<in> set dl\<rbrakk>
    \<Longrightarrow> pf_reach sha os (fetch_abort sha o' e p) (removeAll (o', e) dl) fin"
| leaves: "\<lbrakk>pf_reach sha os p dl fin; (o', e) \<in> set fin\<rbrakk>
    \<Longrightarrow> pf_reach sha os (fetch_abort sha o' e p) dl (removeAll (o', e) fin)"
| releases: "\<lbrakk>pf_reach sha os p dl fin; o' \<in> set os; int64_epoch e\<rbrakk>
    \<Longrightarrow> pf_reach sha os (Release sha o' e p) dl fin"
| prunes: "pf_reach sha os p dl fin \<Longrightarrow> pf_reach sha os (Prune sha stat p) dl fin"

definition fetch_wf :: "(bytes \<Rightarrow> bytes) \<Rightarrow> string list \<Rightarrow> Prefetcher \<Rightarrow> (string \<times> int) list \<Rightarrow> (string \<times> int) list \<Rightarrow> bool" where
  "fetch_wf sha os p dl fin \<longleftrightarrow>
     distinct (dl @ fin) \<and> (\<forall>(o', e) \<in> set (dl @ fin). o' \<in> set os \<and> int64_epoch e)
     \<and> (\<forall>(o', e) \<in> set dl. map_of (cached p) (cacheKey sha o' e) = None)
     \<and> distinct (inWork p) \<and> set (inWork p) = (\<lambda>(o', e). cacheKey sha o' e) ` set (dl @ fin)"

lemma init_wf:
  assumes ok: "hash_ok sha os" and f: "own_files sha os files"
  shows "cache_wf sha os (pf_init sha mx os files)"
proof -
  have "cache_wf sha os (fold (adopt (by_hash sha os)) fs p)"
    if "cache_wf sha os p" "own_files sha os fs" "\<forall>x \<in> set fs. map_of (cached p) (fst x) = None" for fs p
    using that
  proof (induction fs arbitrary: p)
    case (Cons x fs)
    obtain b n where x: "x = (b, n)" by (cases x)
    have fs: "own_files sha os fs" and b: "b \<notin> fst ` set fs" and n: "0 \<le> n"
      using Cons.prems(2) by (auto simp: own_files_def x)
    show ?case
    proof (cases "ext_part b")
      case True
      then have "adopt (by_hash sha os) x p = p" by (simp add: adopt_def x)
      then show ?thesis using Cons fs by simp
    next
      case False
      then obtain o' e where oe: "o' \<in> set os" "int64_epoch e" "b = cacheKey sha o' e"
        using Cons.prems(2) by (auto simp: own_files_def x)
      have none: "map_of (cached p) (cacheKey sha o' e) = None" using Cons.prems(3) by (simp add: x oe(3))
      let ?q = "(markReady o' e (p\<lparr>cached := bput (cacheKey sha o' e) n (cached p)\<rparr>))\<lparr>pfBytes := pfBytes p + n\<rparr>"
      have a: "adopt (by_hash sha os) x p = ?q"
        using False splitKey_of_key[OF ok oe(1,2)]
        by (simp add: adopt_def x oe(3) markReady_def ready_set_def)
      have "\<forall>y \<in> set fs. map_of (cached ?q) (fst y) = None"
        using Cons.prems(3) b oe(3) by force
      then show ?thesis
        using Cons.IH[OF cache_wf_add[OF ok Cons.prems(1) oe(1,2) none n] fs] by (simp add: a)
    qed
  qed simp
  moreover have "cache_wf sha os
      \<lparr>pfMaxBytes = mx, pfOrigins = os, cached = [], ready = Map.empty, pfBytes = 0, inWork = []\<rparr>"
    by (simp add: cache_wf_def sizes_def ready_set_def)
  ultimately show ?thesis using f by (simp add: pf_init_def)
qed

lemma init_inWork: "inWork (pf_init sha mx os files) = []"
proof -
  have "inWork (fold (adopt h) fs p) = inWork p" for h fs p
    by (induction fs arbitrary: p) (auto simp: adopt_def Let_def split: option.splits prod.splits)
  then show ?thesis by (simp add: pf_init_def)
qed

lemma fetch_begin_rest:
  assumes "fetch_begin sha o' e p = (True, p')"
  shows "map_of (cached p) (cacheKey sha o' e) = None" "cacheKey sha o' e \<notin> set (inWork p)"
    "pfBytes p < maxBytes p" "p' = p\<lparr>inWork := List.insert (cacheKey sha o' e) (inWork p)\<rparr>"
  using assms by (auto simp: fetch_begin_def Let_def split: if_splits)

lemma cache_wf_inWork [simp]: "cache_wf sha os (p\<lparr>inWork := w\<rparr>) = cache_wf sha os p"
  by (simp add: cache_wf_def)

lemma fetch_done_eq:
  "fetch_done sha o' e n p =
     (markReady o' e (p\<lparr>cached := bput (cacheKey sha o' e) n (cached p)\<rparr>))\<lparr>pfBytes := pfBytes p + n\<rparr>"
  by (simp add: fetch_done_def Let_def)

lemma fetch_done_rest [simp]:
  "cached (fetch_done sha o' e n p) = bput (cacheKey sha o' e) n (cached p)"
  "inWork (fetch_done sha o' e n p) = inWork p" "pfMaxBytes (fetch_done sha o' e n p) = pfMaxBytes p"
  "pfBytes (fetch_done sha o' e n p) = pfBytes p + n"
  by (simp_all add: fetch_done_def Let_def)

lemma map_of_subset_None: "set a \<subseteq> set b \<Longrightarrow> map_of b k = None \<Longrightarrow> map_of a k = None"
  by (auto simp: map_of_eq_None_iff)

lemma abort_wf:
  assumes ok: "hash_ok sha os" and f: "fetch_wf sha os p dl fin" and x: "(o', e) \<in> set (dl @ fin)"
    and s: "set (dl' @ fin') = set (dl @ fin) - {(o', e)}" and d: "distinct (dl' @ fin')" and sub: "set dl' \<subseteq> set dl"
  shows "fetch_wf sha os (fetch_abort sha o' e p) dl' fin'"
proof -
  let ?k = "\<lambda>(a, b). cacheKey sha a b"
  have al: "a \<in> set os \<and> int64_epoch b" if "(a, b) \<in> set (dl @ fin)" for a b
    using f that unfolding fetch_wf_def by fast
  have inj: "inj_on ?k (set (dl @ fin))"
  proof (rule inj_onI)
    fix u v assume "u \<in> set (dl @ fin)" "v \<in> set (dl @ fin)" "?k u = ?k v"
    then show "u = v"
      using al[of "fst u" "snd u"] al[of "fst v" "snd v"] cacheKey_inj[OF ok, of "fst u" "fst v" "snd u" "snd v"]
      by (simp add: case_prod_beta prod_eq_iff)
  qed
  have "set (inWork (fetch_abort sha o' e p)) = ?k ` set (dl @ fin) - {cacheKey sha o' e}"
    using f by (auto simp: fetch_abort_def fetch_wf_def)
  also have "\<dots> = ?k ` (set (dl @ fin) - {(o', e)})"
    using inj_on_image_set_diff[OF inj, of "set (dl @ fin)" "{(o', e)}"] x by auto
  finally have "set (inWork (fetch_abort sha o' e p)) = ?k ` set (dl' @ fin')" using s by simp
  moreover have "\<forall>(a, b) \<in> set (dl' @ fin'). a \<in> set os \<and> int64_epoch b"
    unfolding s using al by blast
  moreover have "\<forall>(a, b) \<in> set dl'. map_of (cached (fetch_abort sha o' e p)) (cacheKey sha a b) = None"
    using f sub by (auto simp: fetch_abort_def fetch_wf_def)
  moreover have "distinct (inWork (fetch_abort sha o' e p))"
    using f by (simp add: fetch_abort_def fetch_wf_def)
  ultimately show ?thesis using d unfolding fetch_wf_def by blast
qed

lemma reach_wf:
  assumes "pf_reach sha os p dl fin" "hash_ok sha os"
  shows "cache_wf sha os p \<and> fetch_wf sha os p dl fin"
  using assms
proof (induction rule: pf_reach.induct)
  case (start files mx)
  then show ?case by (simp add: init_wf fetch_wf_def init_inWork)
next
  case (begins p dl fin o' e p')
  note b = fetch_begin_rest[OF begins(4)]
  have f: "fetch_wf sha os p dl fin" using begins by simp
  have "(o', e) \<notin> set (dl @ fin)" using b(2) f by (force simp: fetch_wf_def)
  then show ?case using begins f b(1,2) by (auto simp: b(4) fetch_wf_def)
next
  case (lands p dl fin o' e n)
  have w: "cache_wf sha os p" and f: "fetch_wf sha os p dl fin" using lands by simp_all
  have oe: "o' \<in> set os" "int64_epoch e" "map_of (cached p) (cacheKey sha o' e) = None"
    using f lands(2) by (auto simp: fetch_wf_def)
  have "\<forall>(a, b) \<in> set (removeAll (o', e) dl). map_of (cached (fetch_done sha o' e n p)) (cacheKey sha a b) = None"
  proof clarify
    fix a b assume that: "(a, b) \<in> set (removeAll (o', e) dl)"
    have ab: "a \<in> set os" "int64_epoch b" "map_of (cached p) (cacheKey sha a b) = None" "(a, b) \<noteq> (o', e)"
      using that f by (auto simp: fetch_wf_def)
    then have "cacheKey sha a b \<noteq> cacheKey sha o' e"
      using cacheKey_inj[OF lands(5) ab(1) oe(1) ab(2) oe(2)] by blast
    then show "map_of (cached (fetch_done sha o' e n p)) (cacheKey sha a b) = None" using ab(3) by simp
  qed
  moreover have st: "set (removeAll (o', e) dl @ (o', e) # fin) = set (dl @ fin)" using lands(2) by auto
  moreover have "distinct (removeAll (o', e) dl @ (o', e) # fin)"
    using f lands(2) by (auto simp: fetch_wf_def distinct_removeAll)
  ultimately have "fetch_wf sha os (fetch_done sha o' e n p) (removeAll (o', e) dl) ((o', e) # fin)"
    using f unfolding fetch_wf_def st fetch_done_rest by blast
  then show ?case
    using cache_wf_add[OF lands(5) w oe lands(3)] by (simp add: fetch_done_eq)
next
  case (fails p dl fin o' e)
  have "fetch_wf sha os (fetch_abort sha o' e p) (removeAll (o', e) dl) fin"
    by (rule abort_wf[where dl = dl and fin = fin]) (use fails in \<open>auto simp: fetch_wf_def distinct_removeAll\<close>)
  then show ?case using fails by (simp add: fetch_abort_def)
next
  case (leaves p dl fin o' e)
  have "fetch_wf sha os (fetch_abort sha o' e p) dl (removeAll (o', e) fin)"
    by (rule abort_wf[where dl = dl and fin = fin]) (use leaves in \<open>auto simp: fetch_wf_def distinct_removeAll\<close>)
  then show ?case using leaves by (simp add: fetch_abort_def)
next
  case (releases p dl fin o' e)
  then have "fetch_wf sha os (Release sha o' e p) dl fin"
    by (auto simp: fetch_wf_def Release_cached map_of_bdel)
  then show ?case using releases Release_wf by blast
next
  case (prunes p dl fin stat)
  then have w: "cache_wf sha os p" and f: "fetch_wf sha os p dl fin" by simp_all
  note pr = Prune_wf[OF prunes(3) w, of stat]
  have "fetch_wf sha os (Prune sha stat p) dl fin"
    using f pr(3) map_of_subset_None[OF pr(2)] unfolding fetch_wf_def by fastforce
  then show ?case using pr(1) by blast
qed

subsection \<open>What \<open>Ready\<close> hands out\<close>

lemma lowest_from_snoc:
  "lowest_from after (m @ [e]) =
     (if e \<ge> after \<and> (lowest_from after m < 0 \<or> e < lowest_from after m) then e else lowest_from after m)"
  by (auto simp: lowest_from_def)

lemma lowest_from_mem: "0 \<le> lowest_from after m \<Longrightarrow> lowest_from after m \<in> set m \<and> after \<le> lowest_from after m"
proof (induction m rule: rev_induct)
  case Nil then show ?case by (simp add: lowest_from_def)
next
  case (snoc e m)
  then show ?case by (auto simp: lowest_from_snoc split: if_splits)
qed

lemma lowest_from_least:
  "\<forall>e \<in> set m. 0 \<le> e \<Longrightarrow>
     (\<forall>e \<in> set m. after \<le> e \<longrightarrow> 0 \<le> lowest_from after m \<and> lowest_from after m \<le> e)"
proof (induction m rule: rev_induct)
  case (snoc x m)
  then show ?case by (fastforce simp: lowest_from_snoc)
qed simp

lemma run_last_spec:
  "\<lbrakk>r = run_last m first n lst; first \<le> lst; lst - first < n\<rbrakk> \<Longrightarrow>
     lst \<le> r \<and> r - first < n \<and> (\<forall>e. lst < e \<and> e \<le> r \<longrightarrow> e \<in> set m) \<and> (r + 1 \<notin> set m \<or> r - first + 1 = n)"
proof (induction m first n lst rule: run_last.induct)
  case (1 m first n lst)
  show ?case
  proof (cases "lst + 1 \<in> set m \<and> lst - first + 1 < n")
    case True
    have r: "r = run_last m first n (lst + 1)" using 1(2) True by (subst (asm) run_last.simps) simp
    have "lst + 1 \<le> r \<and> r - first < n \<and> (\<forall>e. lst + 1 < e \<and> e \<le> r \<longrightarrow> e \<in> set m)
        \<and> (r + 1 \<notin> set m \<or> r - first + 1 = n)"
      by (rule 1(1)[OF True r]) (use 1(3) True in auto)
    moreover have "e \<in> set m" if "lst < e" "e \<le> r" "\<not> lst + 1 < e" for e
      using that True by (metis add1_zle_eq order_antisym not_le)
    ultimately show ?thesis by auto
  next
    case False
    then have "r = lst" using 1(2) by (subst (asm) run_last.simps) auto
    then show ?thesis using False 1(3,4) by auto
  qed
qed

lemma Ready_run:
  assumes "Ready p o' after n = Some (f, t)"
  shows "0 \<le> f \<and> after \<le> f \<and> f \<le> t \<and> t < f + n
     \<and> (\<forall>e. f \<le> e \<and> e \<le> t \<longrightarrow> e \<in> set (ready_set p o'))
     \<and> (t + 1 \<notin> set (ready_set p o') \<or> t - f + 1 = n)"
proof -
  have n: "1 \<le> n" and f: "0 \<le> f" "f = lowest_from after (ready_set p o')"
    and t: "t = run_last (ready_set p o') f n f"
    using assms by (auto simp: Ready_def Let_def split: if_splits)
  have m: "f \<in> set (ready_set p o')" "after \<le> f" using lowest_from_mem f by metis+
  have "f \<le> t \<and> t - f < n \<and> (\<forall>e. f < e \<and> e \<le> t \<longrightarrow> e \<in> set (ready_set p o'))
      \<and> (t + 1 \<notin> set (ready_set p o') \<or> t - f + 1 = n)"
    by (rule run_last_spec[OF t]) (use n in auto)
  then show ?thesis using f(1) m by (metis diff_less_eq add.commute order_le_less)
qed

lemma Ready_least:
  assumes "\<forall>e \<in> set (ready_set p o'). 0 \<le> e" "1 \<le> n"
  shows "(case Ready p o' after n of None \<Rightarrow> \<forall>e \<in> set (ready_set p o'). e < after
          | Some (f, t) \<Rightarrow> \<forall>e \<in> set (ready_set p o'). after \<le> e \<longrightarrow> f \<le> e)"
  using lowest_from_least[OF assms(1), of after] assms(2)
  by (auto simp: Ready_def Let_def not_less dest!: bspec)

text \<open>The cache is one of the queue's sources: the laws of \<open>work_source\<close> hold for it.\<close>

interpretation cache_source: work_source "cacheSource p"
  using Ready_run by unfold_locales (auto simp: cacheSource_def)

lemma not_ext_part_key: "\<not> ext_part (cacheKey sha o' e)"
proof -
  have k: "cacheKey sha o' e = (origin_hash sha o' @ ''-'' @ dec_int e) @ CHR ''.'' # ''proof''"
    by (simp add: cacheKey_def proof_ext_def)
  have "LastIndex (CHR ''.'') (cacheKey sha o' e) = Some (length (origin_hash sha o' @ ''-'' @ dec_int e))"
    unfolding k by (rule LastIndex_split) simp
  then show ?thesis unfolding ext_part_def k by simp
qed

lemma set_init_cached:
  assumes "distinct (map fst files)"
  shows "set (cached (pf_init sha mx os files)) = {x \<in> set files. \<not> ext_part (fst x)}"
proof -
  have G: "set (cached (fold (adopt h) fs p)) = set (cached p) \<union> {x \<in> set fs. \<not> ext_part (fst x)}"
    if "distinct (map fst fs)" "\<forall>x \<in> set fs. map_of (cached p) (fst x) = None" for h fs p
    using that
  proof (induction fs arbitrary: p)
    case (Cons x fs)
    obtain b n where x: "x = (b, n)" by (cases x)
    have c: "cached (adopt h x p) = (if ext_part b then cached p else bput b n (cached p))"
      by (auto simp: adopt_def x Let_def split: option.splits)
    have "\<forall>y \<in> set fs. map_of (cached (adopt h x p)) (fst y) = None"
      using Cons.prems by (auto simp: x c[unfolded x] image_iff)
    then have "set (cached (fold (adopt h) fs (adopt h x p)))
        = set (cached (adopt h x p)) \<union> {y \<in> set fs. \<not> ext_part (fst y)}"
      using Cons.IH Cons.prems(1) by simp
    moreover have "map_of (cached p) b = None" using Cons.prems(2) by (simp add: x)
    then have "set (cached (adopt h x p)) = set (cached p) \<union> {y. y = x \<and> \<not> ext_part (fst y)}"
      unfolding c by (auto simp: bput_new x)
    ultimately have "set (cached (fold (adopt h) (x # fs) p))
        = set (cached p) \<union> {y. y = x \<and> \<not> ext_part (fst y)} \<union> {y \<in> set fs. \<not> ext_part (fst y)}"
      by simp
    also have "\<dots> = set (cached p) \<union> {y \<in> set (x # fs). \<not> ext_part (fst y)}" by auto
    finally show ?case .
  qed simp
  let ?p = "\<lparr>pfMaxBytes = mx, pfOrigins = os, cached = [], ready = Map.empty, pfBytes = 0, inWork = []\<rparr>"
  have "\<forall>x \<in> set files. map_of (cached ?p) (fst x) = None" by simp
  from G[OF assms this] show ?thesis unfolding pf_init_def by simp
qed

lemma sizes_same_set:
  "distinct (map fst a) \<Longrightarrow> distinct (map fst b) \<Longrightarrow> set a = set b \<Longrightarrow> sizes a = sizes b"
  by (metis distinct_map set_eq_iff_mset_eq_distinct sizes_def mset_map sum_mset_sum_list)

subsection \<open>Properties\<close>

text \<open>
C19. Through any interleaving of downloads, releases and prunings the cache stays well-
  formed: its byte count is the sum of the sizes on disk and the epochs on offer are exactly
  the cached ones, so every epoch of a run that Ready hands out is on disk, and the run is
  the lowest one at or after the cursor, at most n long and not cut short.
\<close>

theorem ready_run_on_disk:
  assumes "hash_ok sha os" "pf_reach sha os p dl fin" "1 \<le> n"
  shows "pfBytes p = sizes (cached p)
     \<and> (case Ready p o' after n of
          None \<Rightarrow> \<forall>e. Path_held sha p o' e \<and> o' \<in> set os \<and> int64_epoch e \<longrightarrow> e < after
        | Some (f, t) \<Rightarrow>
            o' \<in> set os \<and> after \<le> f \<and> f \<le> t \<and> t < f + n
            \<and> (\<forall>e. f \<le> e \<and> e \<le> t \<longrightarrow> Path_held sha p o' e)
            \<and> (\<forall>e. Path_held sha p o' e \<and> int64_epoch e \<and> after \<le> e \<longrightarrow> f \<le> e)
            \<and> (t - f + 1 = n \<or> \<not> int64_epoch (t + 1) \<or> \<not> Path_held sha p o' (t + 1)))"
proof -
  have wf: "cache_wf sha os p" using reach_wf[OF assms(2,1)] by blast
  note r = cache_wfD(7)[OF wf]
  have nn: "\<forall>e \<in> set (ready_set p o'). 0 \<le> e" using r by (auto simp: int64_epoch_def)
  have held: "e \<in> set (ready_set p o') \<longleftrightarrow> o' \<in> set os \<and> int64_epoch e \<and> Path_held sha p o' e" for e
    using r by (simp add: Path_held_def)
  show ?thesis
  proof (cases "Ready p o' after n")
    case None
    then show ?thesis using Ready_least[OF nn assms(3), of after] cache_wfD(4)[OF wf] by (simp add: held)
  next
    case (Some ft)
    obtain f t where ft: "ft = (f, t)" by (cases ft)
    note run = Ready_run[OF Some[unfolded ft], unfolded held]
    have "o' \<in> set os" using run by blast
    moreover have "\<forall>e. Path_held sha p o' e \<and> int64_epoch e \<and> after \<le> e \<longrightarrow> f \<le> e"
      using Ready_least[OF nn assms(3), of after] calculation by (simp add: held Some ft)
    ultimately show ?thesis
      using run cache_wfD(4)[OF wf] unfolding Some ft option.case prod.case by blast
  qed
qed

text \<open>
C37. A restart takes over exactly what the last run had on disk: the file names lead back
  to the origins and epochs they were made from, half-written files are left out, and the
  byte count is the same.
\<close>

theorem restart_restores_cache:
  assumes ok: "hash_ok sha os" and p: "pf_reach sha os p dl fin"
    and files: "distinct (map fst files)" "\<forall>x \<in> set files. 0 \<le> snd x"
    and disk: "{x \<in> set files. \<not> ext_part (fst x)} = set (cached p)"
  shows "cache_wf sha os (pf_init sha mx os files)
       \<and> (\<forall>o'. set (ready_set (pf_init sha mx os files) o') = set (ready_set p o'))
       \<and> pfBytes (pf_init sha mx os files) = pfBytes p"
proof -
  have wf: "cache_wf sha os p" using reach_wf[OF p ok] by blast
  have "own_files sha os files"
    unfolding own_files_def
  proof (intro conjI files(1) ballI, clarify)
    fix f n assume fn: "(f, n) \<in> set files"
    then have "\<not> ext_part f \<Longrightarrow> (f, n) \<in> {x \<in> set files. \<not> ext_part (fst x)}" by simp
    then have "\<not> ext_part f \<Longrightarrow> (f, n) \<in> set (cached p)" unfolding disk .
    then show "0 \<le> n \<and> (ext_part f \<or> (\<exists>o' e. o' \<in> set os \<and> int64_epoch e \<and> f = cacheKey sha o' e))"
      using files(2)[THEN bspec, OF fn] cache_wfD(5)[OF wf, of f n] unfolding snd_conv by blast
  qed
  then have wi: "cache_wf sha os (pf_init sha mx os files)" by (rule init_wf[OF ok])
  have c: "set (cached (pf_init sha mx os files)) = set (cached p)"
    using set_init_cached[OF files(1)] disk by simp
  have "map_of (cached (pf_init sha mx os files)) = map_of (cached p)"
    using map_of_inject_set[OF cache_wfD(2)[OF wi] cache_wfD(2)[OF wf]] c by blast
  then have "set (ready_set (pf_init sha mx os files) o') = set (ready_set p o')" for o'
    using cache_wfD(7)[OF wi] cache_wfD(7)[OF wf] by auto
  moreover have "pfBytes (pf_init sha mx os files) = pfBytes p"
    using sizes_same_set[OF cache_wfD(2)[OF wi] cache_wfD(2)[OF wf] c] cache_wfD(4)[OF wi] cache_wfD(4)[OF wf]
    by simp
  ultimately show ?thesis using wi by blast
qed

text \<open>
  The cap is compared with what has landed, not with what is under way: Fetches that start
  below it all run to the end, and the cache ends above its cap by all but the first of them.
\<close>

lemma begins_below_cap:
  assumes "pfBytes p < maxBytes p" "\<forall>e \<in> set es. map_of (cached p) (cacheKey sha o' e) = None"
    "distinct (map (cacheKey sha o') es)" "\<forall>e \<in> set es. cacheKey sha o' e \<notin> set (inWork p)"
  shows "\<exists>q. fold (\<lambda>e (b, p). let (b', p') = fetch_begin sha o' e p in (b \<and> b', p')) es (True, p) = (True, q)
           \<and> pfBytes q = pfBytes p"
  using assms
proof (induction es arbitrary: p)
  case (Cons e es)
  let ?q = "p\<lparr>inWork := List.insert (cacheKey sha o' e) (inWork p)\<rparr>"
  have b: "fetch_begin sha o' e p = (True, ?q)"
    using Cons.prems by (simp add: fetch_begin_def Let_def)
  have m: "maxBytes ?q = maxBytes p" by (simp add: maxBytes_def)
  have "\<exists>q. fold (\<lambda>e (b, p). let (b', p') = fetch_begin sha o' e p in (b \<and> b', p')) es (True, ?q) = (True, q)
          \<and> pfBytes q = pfBytes ?q"
    by (rule Cons.IH) (use Cons.prems m in \<open>auto simp: image_iff\<close>)
  then show ?case by (simp add: b)
qed simp

lemma landings_add_up:
  "pfBytes (fold (\<lambda>e p. fetch_done sha o' e n p) es p) = pfBytes p + int (length es) * n"
  by (induction es arbitrary: p) (simp_all add: algebra_simps)

subsection \<open>Witnesses\<close>

definition test_sha :: "bytes \<Rightarrow> bytes" where "test_sha m = replicate 31 0 @ [of_nat (length m)]"

lemma test_hash_ok: "hash_ok test_sha [''a'']" by (simp add: hash_ok_def test_sha_def)

lemma test_int64: "int64_epoch 7" "int64_epoch 8" by (simp_all add: int64_epoch_def)

definition test_files :: "(string \<times> int) list" where
  "test_files = [(cacheKey test_sha ''a'' 7, 10), (cacheKey test_sha ''a'' 8, 20), (''x.part'', 5)]"

lemma test_keys:
  "cacheKey test_sha ''a'' 7 = ''000000000000-7.proof''" "cacheKey test_sha ''a'' 8 = ''000000000000-8.proof''"
  by code_simp+

lemma test_own: "own_files test_sha [''a''] test_files"
proof -
  have "ext_part ''x.part''" by code_simp
  moreover have "distinct (map fst test_files)" by (simp add: test_files_def test_keys)
  moreover have "\<exists>o' e. o' \<in> set [''a''] \<and> int64_epoch e \<and> cacheKey test_sha ''a'' 7 = cacheKey test_sha o' e"
    "\<exists>o' e. o' \<in> set [''a''] \<and> int64_epoch e \<and> cacheKey test_sha ''a'' 8 = cacheKey test_sha o' e"
    using test_int64 by fastforce+
  ultimately show ?thesis by (auto simp: own_files_def test_files_def)
qed

lemma test_start: "pf_reach test_sha [''a''] (pf_init test_sha 0 [''a''] test_files) [] []"
  by (rule pf_reach.start[OF test_own])

lemma test_ready: "Ready (pf_init test_sha 0 [''a''] test_files) ''a'' 3 5 = Some (7, 8)"
  "cached (pf_init test_sha 0 [''a''] test_files) = [(''000000000000-7.proof'', 10), (''000000000000-8.proof'', 20)]"
  by code_simp+

theorem ready_run_on_disk_witness:
  "Path_held test_sha (pf_init test_sha 0 [''a''] test_files) ''a'' 7
   \<and> \<not> Path_held test_sha (pf_init test_sha 0 [''a''] test_files) ''a'' 9"
  using ready_run_on_disk[OF test_hash_ok test_start, of 5 "''a''" 3] test_ready(1)
  by (auto simp: int64_epoch_def)

theorem restart_restores_cache_witness:
  "set (ready_set (pf_init test_sha 100 [''a''] test_files) ''a'') = {7, 8}"
proof -
  have "{x \<in> set test_files. \<not> ext_part (fst x)} = set (cached (pf_init test_sha 0 [''a''] test_files))"
    using set_init_cached[of test_files] test_own unfolding own_files_def by blast
  moreover have "set (ready_set (pf_init test_sha 0 [''a''] test_files) ''a'') = {7, 8}" by code_simp
  moreover have "\<forall>x \<in> set test_files. 0 \<le> snd x" by (simp add: test_files_def)
  ultimately show ?thesis
    using restart_restores_cache[OF test_hash_ok test_start, of test_files 100] test_own
    unfolding own_files_def by blast
qed

end
