(* ===== verification/Proof_Server.thy ===== *)
theory Proof_Server
  imports Akd_Wire Proof_Cache
begin

text \<open>
  The proof server, \<open>internal/workrpc/proofs.go\<close>: every worker reads every proof here, and one
  in \<open>Every\<close> has a bit flipped.  A reader is the list of what its successive \<open>Read\<close> calls
  answer, data and error together; past the end of the list it answers EOF.  Random draws are a
  function of their place, the clock, the fetch and the failing writes are arguments.
\<close>

subsection \<open>Readers\<close>

datatype read_error = EOF | Broken string

type_synonym reader = "(bytes \<times> read_error option) list"

datatype outcome = Copied | ReadFailed string | WriteFailed

definition outcome_of :: "read_error \<Rightarrow> outcome" where
  "outcome_of e = (case e of EOF \<Rightarrow> Copied | Broken s \<Rightarrow> ReadFailed s)"

text \<open>What a reader delivers before its first error.\<close>

fun stream :: "reader \<Rightarrow> bytes \<times> outcome" where
  "stream [] = ([], Copied)"
| "stream ((d, Some e) # as) = (d, outcome_of e)"
| "stream ((d, None) # as) = (d @ fst (stream as), snd (stream as))"

text \<open>\<open>io.Reader\<close>: after an error the next calls give no data and the same error.\<close>

fun reader_ok :: "reader \<Rightarrow> bool" where
  "reader_ok [] = True"
| "reader_ok ((d, Some e) # as) = (stream as = ([], outcome_of e) \<and> reader_ok as)"
| "reader_ok ((d, None) # as) = reader_ok as"

text \<open>\<open>io.MultiReader(bytes.NewReader(head), body)\<close>, read through a buffer of a mebibyte.\<close>

function chunks :: "nat \<Rightarrow> bytes \<Rightarrow> bytes list" where
  "chunks k bs = (if bs = [] \<or> k = 0 then [] else take k bs # chunks k (drop k bs))"
  by pat_completeness auto
termination by (relation "measure (\<lambda>(k, bs). length bs)") auto

declare chunks.simps [simp del]

definition copyBuffer :: nat where "copyBuffer = 2 ^ 20"

definition MultiReader :: "bytes \<Rightarrow> reader \<Rightarrow> reader" where
  "MultiReader head rd = map (\<lambda>c. (c, None)) (chunks copyBuffer head) @ rd"

subsection \<open>Copying\<close>

text \<open>\<open>copyFlipping\<close>; \<open>fails k\<close> says that write \<open>k\<close> fails, and its bytes are left out.\<close>

fun copyFlipping :: "(nat \<Rightarrow> bool) \<Rightarrow> reader \<Rightarrow> int \<Rightarrow> byte \<Rightarrow> int \<Rightarrow> nat \<Rightarrow> bytes \<times> outcome" where
  "copyFlipping fails [] offset msk pos k = ([], Copied)"
| "copyFlipping fails ((d, e) # as) offset msk pos k =
     (let d' = (if offset \<ge> pos \<and> offset < pos + int (length d)
                then d[nat (offset - pos) := d ! nat (offset - pos) XOR msk] else d)
      in if d \<noteq> [] \<and> fails k then ([], WriteFailed)
         else case e of
                Some err \<Rightarrow> (d', outcome_of err)
              | None \<Rightarrow>
                  (let r = copyFlipping fails as offset msk (pos + int (length d)) (if d \<noteq> [] then k + 1 else k)
                   in (d' @ fst r, snd r)))"

text \<open>\<open>io.Copy\<close>.\<close>

fun Copy :: "(nat \<Rightarrow> bool) \<Rightarrow> reader \<Rightarrow> nat \<Rightarrow> bytes \<times> outcome" where
  "Copy fails [] k = ([], Copied)"
| "Copy fails ((d, e) # as) k =
     (if d \<noteq> [] \<and> fails k then ([], WriteFailed)
      else case e of
             Some err \<Rightarrow> (d, outcome_of err)
           | None \<Rightarrow> (let r = Copy fails as (if d \<noteq> [] then k + 1 else k) in (d @ fst r, snd r)))"

subsection \<open>The front of a proof\<close>

definition insertedField :: nat where "insertedField = 1"
definition canaryInsertedShare :: int where "canaryInsertedShare = 3"
definition canaryShareOf :: int where "canaryShareOf = 4"
definition insertedScanLimit :: int where "insertedScanLimit = 16 * 2 ^ 20"

record insertedSpan =
  spEnd :: nat
  capped :: bool
  known :: bool

text \<open>One look at the buffer: the span found, and whether reading ends with it.\<close>

definition scan_front :: "int \<Rightarrow> bytes \<Rightarrow> nat \<Rightarrow> insertedSpan \<times> bool" where
  "scan_front limit buf pos =
     (case ScanLeading buf insertedField pos of
        (_, Inl _) \<Rightarrow> (\<lparr>spEnd = 0, capped = False, known = False\<rparr>, True)
      | (e, Inr ended) \<Rightarrow>
          if ended then (\<lparr>spEnd = e, capped = False, known = True\<rparr>, True)
          else if int e \<ge> limit then (\<lparr>spEnd = e, capped = True, known = True\<rparr>, True)
          else (\<lparr>spEnd = e, capped = False, known = True\<rparr>, False))"

fun read_loop :: "int \<Rightarrow> reader \<Rightarrow> bytes \<Rightarrow> nat \<Rightarrow> nat \<Rightarrow> bytes \<times> insertedSpan \<times> reader" where
  "read_loop limit [] buf pos idle = (buf, fst (scan_front limit buf pos), [])"
| "read_loop limit ((d, e) # as) buf pos idle =
     (let (sp, stop) = scan_front limit buf pos
      in if stop then (buf, sp, (d, e) # as)
         else if d \<noteq> [] then read_loop limit as (buf @ d) (spEnd sp) 0
         else if e = None
         then (if idle + 1 < 8 then read_loop limit as buf (spEnd sp) (idle + 1) else (buf, sp, as))
         else (buf, sp, as))"

definition readInserted :: "reader \<Rightarrow> int \<Rightarrow> bytes \<times> insertedSpan \<times> reader" where
  "readInserted src limit = read_loop limit src [] 0 0"

subsection \<open>Where to flip\<close>

definition randBelow :: "(nat \<Rightarrow> int) \<Rightarrow> nat \<Rightarrow> int \<Rightarrow> int" where
  "randBelow raw i n = (if n \<le> 0 then 0 else raw i mod n)"

definition aim :: "(nat \<Rightarrow> int) \<Rightarrow> bytes \<Rightarrow> insertedSpan \<Rightarrow> nat option" where
  "aim raw head sp =
     (if known sp \<and> spEnd sp > 0 \<and> randBelow raw 1 canaryShareOf < canaryInsertedShare
      then let field = take (spEnd sp) head
           in case PayloadOffset field insertedField (- 1) of
                Inl _ \<Rightarrow> None
              | Inr (_, tot) \<Rightarrow>
                  if tot > 0
                  then (case PayloadOffset field insertedField (randBelow raw 2 (int tot)) of
                          Inl _ \<Rightarrow> None
                        | Inr (off, _) \<Rightarrow> off)
                  else None
      else None)"

definition pickCanaryBit :: "(nat \<Rightarrow> int) \<Rightarrow> bytes \<Rightarrow> insertedSpan \<Rightarrow> int \<Rightarrow> int \<times> nat \<times> string" where
  "pickCanaryBit raw head sp sz =
     (let bt = nat (randBelow raw 0 8)
      in case aim raw head sp of
           Some off \<Rightarrow> (int off, bt, ''inserted'')
         | None \<Rightarrow>
             (let at = (if sz > 0 then randBelow raw 3 sz else 0)
              in (at, bt,
                  if \<not> known sp then ''unknown; the framing did not parse''
                  else if at < int (spEnd sp) then ''inserted''
                  else if capped sp then ''past the scanned prefix, field unknown''
                  else ''unchanged'')))"

subsection \<open>The server\<close>

record ProofServer =
  Every :: int
  psSeen :: int
  canaries :: "string \<rightharpoonup> int"
  sessions :: "string \<rightharpoonup> string"

definition NewProofServer :: "int \<Rightarrow> ProofServer" where
  "NewProofServer every = \<lparr>Every = every, psSeen = 0, canaries = Map.empty, sessions = Map.empty\<rparr>"

text \<open>\<open>Session\<close>: \<open>b\<close> is the sixteen random bytes, None when there are none to be had.\<close>

definition Session :: "bytes option \<Rightarrow> string \<Rightarrow> ProofServer \<Rightarrow> string option \<times> ProofServer" where
  "Session b worker p =
     (case b of
        None \<Rightarrow> (None, p)
      | Some bs \<Rightarrow>
          (let token = EncodeToString bs in (Some token, p\<lparr>sessions := (sessions p)(token \<mapsto> worker)\<rparr>)))"

definition EndSession :: "string \<Rightarrow> ProofServer \<Rightarrow> ProofServer" where
  "EndSession token p = p\<lparr>sessions := (sessions p)(token := None)\<rparr>"

definition workerFor :: "string \<Rightarrow> ProofServer \<Rightarrow> string option" where
  "workerFor token p = sessions p token"

definition due :: "ProofServer \<Rightarrow> bool \<times> ProofServer" where
  "due p =
     (let every = (if Every p \<le> 0 then 100 else Every p);
          p = p\<lparr>psSeen := psSeen p + 1\<rparr>
      in (psSeen p mod every = 0, p))"

definition canary_key :: "string \<Rightarrow> int \<Rightarrow> string" where
  "canary_key origin epoch = origin @ char_of (0 :: nat) # dec_int epoch"

definition mark :: "int \<Rightarrow> string \<Rightarrow> int \<Rightarrow> ProofServer \<Rightarrow> ProofServer" where
  "mark now origin epoch p = p\<lparr>canaries := (canaries p)(canary_key origin epoch \<mapsto> now div 10^9)\<rparr>"

definition WasCanary :: "string \<Rightarrow> int \<Rightarrow> ProofServer \<Rightarrow> bool \<times> ProofServer" where
  "WasCanary origin epoch p =
     (let k = canary_key origin epoch
      in (canaries p k \<noteq> None, p\<lparr>canaries := (canaries p)(k := None)\<rparr>))"

definition Outstanding :: "ProofServer \<Rightarrow> nat" where
  "Outstanding p = card (dom (canaries p))"

text \<open>\<open>strings.TrimPrefix\<close>, \<open>strings.Index\<close> of one character, and the path of a request.\<close>

definition TrimPrefix :: "string \<Rightarrow> string \<Rightarrow> string" where
  "TrimPrefix s pre = (if take (length pre) s = pre then drop (length pre) s else s)"

definition Index :: "char \<Rightarrow> string \<Rightarrow> nat option" where
  "Index c s = (let k = length (takeWhile (\<lambda>x. x \<noteq> c) s) in if k = length s then None else Some k)"

definition parse_path :: "string \<Rightarrow> (string \<times> string \<times> int) option" where
  "parse_path path =
     (let rest = TrimPrefix path ''/proof/''
      in case Index (CHR ''/'') rest of
           None \<Rightarrow> None
         | Some j \<Rightarrow>
             (let session = take j rest; rest = drop (j + 1) rest
              in case LastIndex (CHR ''/'') rest of
                   None \<Rightarrow> None
                 | Some i \<Rightarrow>
                     (let origin = take i rest
                      in case ParseInt (drop (i + 1) rest) of
                           None \<Rightarrow> None
                         | Some epoch \<Rightarrow> if origin = [] then None else Some (session, origin, epoch))))"

datatype response = NotFound | Proof int bytes outcome

text \<open>\<open>serve\<close> without an interleaving of its own: \<open>workerFor\<close>, \<open>MayRead\<close>, \<open>due\<close> and \<open>mark\<close> in turn.\<close>

definition serve ::
  "int \<Rightarrow> (string \<Rightarrow> int \<Rightarrow> (reader \<times> int) option) \<Rightarrow> (nat \<Rightarrow> int) \<Rightarrow> (nat \<Rightarrow> bool) \<Rightarrow> string
     \<Rightarrow> ProofServer \<Rightarrow> Queue \<Rightarrow> response \<times> ProofServer \<times> Queue" where
  "serve now fetch raw fails path p q =
     (case parse_path path of
        None \<Rightarrow> (NotFound, p, q)
      | Some (session, origin, epoch) \<Rightarrow>
          (case workerFor session p of
             None \<Rightarrow> (NotFound, p, q)
           | Some worker \<Rightarrow>
               (let (may, q) = LeasedBy now worker origin epoch q
                in if \<not> may then (NotFound, p, q)
                   else case fetch origin epoch of
                          None \<Rightarrow> (NotFound, p, q)
                        | Some (rd, sz) \<Rightarrow>
                            (let (corrupt, p) = due p;
                                 p = (if corrupt then mark now origin epoch p else p);
                                 (head, sp, rd) = readInserted rd insertedScanLimit;
                                 src = MultiReader head rd
                             in if \<not> corrupt
                                then (case Copy fails src 0 of (bs, out) \<Rightarrow> (Proof sz bs out, p, q))
                                else (case pickCanaryBit raw head sp sz of
                                        (at, bt, region) \<Rightarrow>
                                          (case copyFlipping fails src at (push_bit bt 1) 0 0 of
                                             (bs, out) \<Rightarrow> (Proof sz bs out, p, q)))))))"

subsection \<open>Copying\<close>

lemma concat_chunks: "0 < k \<Longrightarrow> concat (chunks k bs) = bs"
proof (induction k bs rule: chunks.induct)
  case (1 k bs)
  then show ?case by (subst chunks.simps) auto
qed

lemma stream_append_ok: "stream (map (\<lambda>c. (c, None)) cs @ as) = (concat cs @ fst (stream as), snd (stream as))"
  by (induction cs) auto

lemma stream_MultiReader: "stream (MultiReader head rd) = (head @ fst (stream rd), snd (stream rd))"
  by (simp add: MultiReader_def stream_append_ok concat_chunks copyBuffer_def)

text \<open>One byte of a list changed by a mask, at an absolute place.\<close>

definition flip_at :: "bytes \<Rightarrow> int \<Rightarrow> byte \<Rightarrow> bytes" where
  "flip_at bs off m = (if 0 \<le> off \<and> off < int (length bs) then bs[nat off := bs ! nat off XOR m] else bs)"

lemma flip_at_append:
  "flip_at (d @ bs) off m = flip_at d off m @ flip_at bs (off - int (length d)) m"
proof -
  consider "off < 0" | "0 \<le> off" "off < int (length d)" | "int (length d) \<le> off" by linarith
  then show ?thesis
  proof cases
    case 2
    then show ?thesis by (simp add: flip_at_def list_update_append nth_append nat_less_iff)
  next
    case 3
    then have n: "nat (off - int (length d)) = nat off - length d" "\<not> nat off < length d" by auto
    show ?thesis using 3 unfolding flip_at_def by (auto simp: n list_update_append nth_append)
  qed (simp add: flip_at_def)
qed

lemma length_flip_at [simp]: "length (flip_at bs off m) = length bs" by (simp add: flip_at_def)

lemma copyFlipping_stream:
  "copyFlipping (\<lambda>_. False) as off m pos k = (flip_at (fst (stream as)) (off - pos) m, snd (stream as))"
proof (induction "\<lambda>_ :: nat. False" as off m pos k rule: copyFlipping.induct)
  case (1 off m pos k)
  then show ?case by (simp add: flip_at_def)
next
  case (2 d e as off m pos k)
  have d: "(if pos \<le> off \<and> off < pos + int (length d) then d[nat (off - pos) := d ! nat (off - pos) XOR m] else d)
      = flip_at d (off - pos) m" by (auto simp: flip_at_def)
  show ?case
  proof (cases e)
    case None
    then show ?thesis using 2 by (simp add: Let_def d flip_at_append diff_diff_eq)
  qed (simp add: Let_def d)
qed

lemma Copy_stream: "Copy (\<lambda>_. False) as k = stream as"
  by (induction "\<lambda>_ :: nat. False" as k rule: Copy.induct) (auto simp: Let_def split: option.splits)

text \<open>A write that fails cuts the copy short and changes nothing before it.\<close>

lemma copyFlipping_prefix:
  "\<exists>n. fst (copyFlipping fails as off m pos k) = take n (flip_at (fst (stream as)) (off - pos) m)"
proof (induction fails as off m pos k rule: copyFlipping.induct)
  case (1 fails off m pos k)
  then show ?case by (simp add: flip_at_def)
next
  case (2 fails d e as off m pos k)
  have d: "(if pos \<le> off \<and> off < pos + int (length d) then d[nat (off - pos) := d ! nat (off - pos) XOR m] else d)
      = flip_at d (off - pos) m" by (auto simp: flip_at_def)
  show ?case
  proof (cases "d \<noteq> [] \<and> fails k")
    case True
    then show ?thesis by (intro exI[of _ 0]) (simp add: Let_def)
  next
    case False
    show ?thesis
    proof (cases e)
      case (Some err)
      then show ?thesis using False by (intro exI[of _ "length d"]) (auto simp: Let_def d)
    next
      case None
      obtain n where "fst (copyFlipping fails as off m (pos + int (length d)) (if d \<noteq> [] then k + 1 else k))
          = take n (flip_at (fst (stream as)) (off - (pos + int (length d))) m)"
        using 2 None False by (auto simp: Let_def)
      then show ?thesis using False None
        by (intro exI[of _ "length d + n"]) (auto simp: Let_def d flip_at_append diff_diff_eq split: if_splits)
    qed
  qed
qed

subsection \<open>The front is read without loss\<close>

lemma read_loop_lossless:
  "reader_ok as \<Longrightarrow> read_loop limit as buf pos idle = (head, sp, rest) \<Longrightarrow>
     head @ fst (stream rest) = buf @ fst (stream as) \<and> snd (stream rest) = snd (stream as)"
proof (induction limit as buf pos idle rule: read_loop.induct)
  case (1 limit buf pos idle)
  then show ?case by auto
next
  case (2 limit d e as buf pos idle)
  obtain sp' stop where sf: "scan_front limit buf pos = (sp', stop)" by (cases "scan_front limit buf pos")
  show ?case
  proof (cases stop)
    case True
    then show ?thesis using 2(4) sf by auto
  next
    case False
    have ok: "reader_ok as" "e = None \<or> (\<exists>x. e = Some x \<and> stream as = ([], outcome_of x))"
      using 2(3) by (cases e; simp)+
    show ?thesis
    proof (cases "d = []")
      case True
      then show ?thesis using 2(2)[OF sf[symmetric] refl False] 2(4) sf False ok
        by (auto split: if_splits)
    next
      case dn: False
      have r: "read_loop limit as (buf @ d) (spEnd sp') 0 = (head, sp, rest)" using 2(4) sf False dn by simp
      have "head @ fst (stream rest) = (buf @ d) @ fst (stream as) \<and> snd (stream rest) = snd (stream as)"
        by (rule 2(1)[OF sf[symmetric] refl False dn ok(1) r])
      then show ?thesis using ok(2) by auto
    qed
  qed
qed

text \<open>The span found so far can be resumed: scanning on from it is scanning from the start.\<close>

definition resumable :: "bytes \<Rightarrow> nat \<Rightarrow> bool" where
  "resumable buf pos \<longleftrightarrow>
     pos \<le> length buf \<and> (\<forall>ext. ScanLeading (buf @ ext) insertedField pos = ScanLeading (buf @ ext) insertedField 0)"

lemma ScanLeading_end_le: "ScanLeading d f pos = (e, r) \<Longrightarrow> pos \<le> length d \<Longrightarrow> e \<le> length d"
proof (induction d f pos rule: ScanLeading.induct)
  case (1 d f pos)
  show ?case
  proof (cases "pos < length d")
    case False
    then show ?thesis using 1(2,3) by (subst (asm) ScanLeading.simps) simp
  next
    case lt: True
    show ?thesis
    proof (cases "nextRecord d pos")
      case (Framed fr)
      then have fe: "frEnd fr \<le> length d" using nextRecord_advances by blast
      show ?thesis
      proof (cases "Wire fr = 2 \<and> Field fr = f")
        case True
        then have "ScanLeading d f (frEnd fr) = (e, r)" using 1(2) lt Framed by (subst (asm) ScanLeading.simps) simp
        then show ?thesis using 1(1)[OF lt Framed] True fe by simp
      next
        case False
        then show ?thesis using 1(2,3) lt Framed by (subst (asm) ScanLeading.simps) (auto split: if_splits)
      qed
    qed (use 1(2,3) lt in \<open>subst (asm) ScanLeading.simps, simp\<close>)+
  qed
qed

lemma scan_front_resumable:
  assumes "resumable buf pos" "scan_front limit buf pos = (sp, stop)" "known sp"
  shows "resumable buf (spEnd sp)"
proof -
  obtain e r where s: "ScanLeading buf insertedField pos = (e, r)" by (cases "ScanLeading buf insertedField pos")
  then obtain b where r: "r = Inr b" and e: "spEnd sp = e"
    using assms(2,3) by (auto simp: scan_front_def split: sum.splits if_splits)
  have p: "pos \<le> length buf" using assms(1) by (simp add: resumable_def)
  have "ScanLeading (buf @ ext) insertedField e = ScanLeading (buf @ ext) insertedField pos" for ext
    using ScanLeading_streams[OF s[unfolded r] p] by blast
  then show ?thesis using assms(1) ScanLeading_end_le[OF s p] by (simp add: resumable_def e)
qed

lemma resumable_append: "resumable buf pos \<Longrightarrow> resumable (buf @ d) pos"
  by (auto simp: resumable_def)

lemma scan_front_go: "scan_front limit buf pos = (sp, stop) \<Longrightarrow> \<not> stop \<Longrightarrow> known sp"
  by (auto simp: scan_front_def split: prod.splits sum.splits if_splits)

lemma read_loop_span:
  "resumable buf pos \<Longrightarrow> read_loop limit as buf pos idle = (head, sp, rest) \<Longrightarrow> known sp \<Longrightarrow> resumable head (spEnd sp)"
proof (induction limit as buf pos idle rule: read_loop.induct)
  case (1 limit buf pos idle)
  obtain sp' stop where "scan_front limit buf pos = (sp', stop)" by (cases "scan_front limit buf pos")
  then show ?case using 1 scan_front_resumable by auto
next
  case (2 limit d e as buf pos idle)
  obtain sp' stop where sf: "scan_front limit buf pos = (sp', stop)" by (cases "scan_front limit buf pos")
  show ?case
  proof (cases stop)
    case True
    then have "sp = sp'" "head = buf" using 2(4) sf by auto
    then show ?thesis using scan_front_resumable[OF 2(3) sf] 2(5) by simp
  next
    case False
    have k: "known sp'" using scan_front_go sf False by blast
    have rs: "resumable buf (spEnd sp')" by (rule scan_front_resumable[OF 2(3) sf k])
    consider (data) "d \<noteq> []" | (idle) "d = []" "e = None" "idle + 1 < 8" | (give_up) "d = []" "e \<noteq> None \<or> \<not> idle + 1 < 8"
      by blast
    then show ?thesis
    proof cases
      case data
      have r: "read_loop limit as (buf @ d) (spEnd sp') 0 = (head, sp, rest)" using 2(4) sf False data by simp
      show ?thesis by (rule 2(1)[OF sf[symmetric] refl False data resumable_append[OF rs] r 2(5)])
    next
      case idle
      have r: "read_loop limit as buf (spEnd sp') (idle + 1) = (head, sp, rest)" using 2(4) sf False idle by simp
      show ?thesis by (rule 2(2)[OF sf[symmetric] refl False _ idle(2,3) rs r 2(5)]) (use idle in simp)
    next
      case give_up
      then have "sp = sp'" "head = buf" using 2(4) sf False by (auto split: if_splits)
      then show ?thesis using rs by simp
    qed
  qed
qed

lemma readInserted_spec:
  assumes "reader_ok src" "readInserted src limit = (head, sp, rest)"
  shows "stream (MultiReader head rest) = stream src"
    "known sp \<Longrightarrow> spEnd sp \<le> length head"
    "known sp \<Longrightarrow> ScanLeading (fst (stream src)) insertedField (spEnd sp) = ScanLeading (fst (stream src)) insertedField 0"
    "\<exists>ext. fst (stream src) = head @ ext"
proof -
  have r: "read_loop limit src [] 0 0 = (head, sp, rest)" using assms(2) by (simp add: readInserted_def)
  have l: "head @ fst (stream rest) = fst (stream src)" "snd (stream rest) = snd (stream src)"
    using read_loop_lossless[OF assms(1) r] by simp_all
  show "stream (MultiReader head rest) = stream src" by (simp add: stream_MultiReader l)
  show "\<exists>ext. fst (stream src) = head @ ext" using l(1) by metis
  assume k: "known sp"
  have "resumable [] 0" by (simp add: resumable_def)
  from read_loop_span[OF this r k] show "spEnd sp \<le> length head"
    "ScanLeading (fst (stream src)) insertedField (spEnd sp) = ScanLeading (fst (stream src)) insertedField 0"
    unfolding resumable_def l(1)[symmetric] by blast+
qed

lemma Uvarint_append: "Uvarint bs = (x, n) \<Longrightarrow> n \<noteq> 0 \<Longrightarrow> Uvarint (bs @ zs) = (x, n)"
  using uv_append[of 0 0 bs zs] by (simp add: Uvarint_def)

lemma nextRecord_append_corrupt:
  assumes "nextRecord p 0 = Corrupt e"
  shows "nextRecord (p @ ext) 0 = Corrupt e"
proof -
  obtain key n where k: "Uvarint p = (key, n)" by fastforce
  have n: "n \<noteq> 0" using assms by (auto simp: nextRecord_def k)
  note k' = Uvarint_append[OF k n, of ext]
  show ?thesis
  proof (cases "n < 0")
    case True
    then show ?thesis using assms k k' by (simp add: nextRecord_def)
  next
    case False
    have le: "nat n \<le> length p" using Uvarint_len[OF k] False by simp
    obtain l m where m: "Uvarint (drop (nat n) p) = (l, m)" by fastforce
    have m': "m \<noteq> 0 \<Longrightarrow> Uvarint (drop (nat n) (p @ ext)) = (l, m)"
      using Uvarint_append[OF m, of ext] le by simp
    show ?thesis
    proof (cases "m = 0")
      case True
      then show ?thesis using assms k k' m n False by (auto simp: nextRecord_def Let_def split: if_splits)
    next
      case m0: False
      show ?thesis using assms k k' m m'[OF m0] n False m0 by (auto simp: nextRecord_def Let_def split: if_splits)
    qed
  qed
qed

lemma unfinished_record_never_ends:
  assumes "nextRecord (p @ z) 0 = Partial"
  shows "ScanLeading p f 0 = (0, Inr False)"
proof -
  have "nextRecord p 0 = Partial"
    using assms nextRecord_append[of p 0 _ z] nextRecord_append_corrupt[of p _ z] by (cases "nextRecord p 0") auto
  then show ?thesis by (simp add: ScanLeading.simps[of p])
qed

text \<open>
  The limit is compared with the end of the last whole record and not with the buffer: while
  the first record of a proof is incomplete everything that arrives is kept.
\<close>

lemma reads_on_inside_a_record:
  assumes "0 < limit" "nextRecord whole 0 = Partial"
    "\<forall>(d, e) \<in> set as. d \<noteq> [] \<and> e = None" "whole = buf @ fst (stream as)"
  shows "read_loop limit as buf 0 idle = (whole, \<lparr>spEnd = 0, capped = False, known = True\<rparr>, [])"
  using assms(3,4)
proof (induction as arbitrary: buf idle)
  have sf: "scan_front limit p 0 = (\<lparr>spEnd = 0, capped = False, known = True\<rparr>, False)" if "whole = p @ z" for p z
    using assms(1,2) unfinished_record_never_ends[of p z insertedField] that by (simp add: scan_front_def)
  {
    case Nil
    then show ?case using sf[of buf "[]"] by simp
  next
    case (Cons x as)
    obtain d where x: "x = (d, None)" "d \<noteq> []" using Cons(2) by (cases x) auto
    have w: "whole = (buf @ d) @ fst (stream as)" using Cons(3) x by simp
    have "scan_front limit buf 0 = (\<lparr>spEnd = 0, capped = False, known = True\<rparr>, False)"
      using sf[of buf "d @ fst (stream as)"] w by simp
    then have "read_loop limit (x # as) buf 0 idle = read_loop limit as (buf @ d) 0 0"
      using x by simp
    then show ?case using Cons.IH[OF _ w] Cons(2) by simp
  }
qed

lemma whole_proof_is_buffered:
  assumes "nextRecord whole 0 = Partial" "\<forall>(d, e) \<in> set as. d \<noteq> [] \<and> e = None" "fst (stream as) = whole" "0 < limit"
  shows "fst (readInserted as limit) = whole"
  using reads_on_inside_a_record[OF assms(4,1,2), of "[]" 0] assms(3) by (simp add: readInserted_def)

subsection \<open>Keys of canaries\<close>

lemma dec_inj: "dec m = dec n \<Longrightarrow> m = n"
  by (metis digits_value_dec)

lemma dec_no_char: "c \<in> set (dec n) \<Longrightarrow> is_digit c"
  using dec_digits[of n] by (auto simp: list_all_iff)

lemma dec_int_inj: "dec_int i = dec_int j \<Longrightarrow> i = j"
proof -
  assume eq: "dec_int i = dec_int j"
  have m: "CHR ''-'' \<notin> set (dec n)" for n by (rule dec_no_minus)
  show "i = j"
  proof (cases "i < 0 \<longleftrightarrow> j < 0")
    case True
    then show ?thesis using eq by (auto simp: dec_int_def dest!: dec_inj split: if_splits)
  next
    case False
    then show ?thesis using eq m[of "nat i"] m[of "nat j"]
      by (auto simp: dec_int_def split: if_splits) (metis list.set_intros(1))+
  qed
qed

lemma dec_int_no_nul: "char_of (0 :: nat) \<notin> set (dec_int i)"
proof -
  have "char_of (0 :: nat) \<noteq> CHR ''-''"
    by (rule notI, drule arg_cong[where f = "of_char :: char \<Rightarrow> nat"]) simp
  moreover have "\<not> is_digit (char_of (0 :: nat))" by (simp add: is_digit_def)
  ultimately show ?thesis by (auto simp: dec_int_def dest: dec_no_char)
qed

lemma canary_key_inj: "canary_key o1 e1 = canary_key o2 e2 \<longleftrightarrow> o1 = o2 \<and> e1 = e2"
proof
  assume eq: "canary_key o1 e1 = canary_key o2 e2"
  have "Some (length o1) = Some (length o2)"
    using LastIndex_split[OF dec_int_no_nul, of o1 e1] LastIndex_split[OF dec_int_no_nul, of o2 e2] eq
    unfolding canary_key_def by (metis (no_types))
  then have "o1 = o2 \<and> dec_int e1 = dec_int e2" using eq by (simp add: canary_key_def)
  then show "o1 = o2 \<and> e1 = e2" using dec_int_inj by blast
qed simp

subsection \<open>What a worker is served\<close>

lemma randBelow_range: "0 < n \<Longrightarrow> 0 \<le> randBelow raw i n \<and> randBelow raw i n < n"
  by (simp add: randBelow_def)

text \<open>A mask of one bit changes that bit and no other.\<close>

lemma one_bit: "k < 8 \<Longrightarrow> i < 8 \<Longrightarrow> bit (b XOR push_bit k 1 :: byte) i = (bit b i \<noteq> (i = k))"
  by (auto simp: bit_simps)

lemma serve_served:
  assumes "serve now fetch raw fails path p q = (Proof sz bs out, p', q')"
  obtains session origin epoch worker src where
    "parse_path path = Some (session, origin, epoch)" "sessions p session = Some worker"
    "LeasedBy now worker origin epoch q = (True, q')" "fetch origin epoch = Some (src, sz)"
    "p' = (if (psSeen p + 1) mod (if Every p \<le> 0 then 100 else Every p) = 0
           then mark now origin epoch (p\<lparr>psSeen := psSeen p + 1\<rparr>) else p\<lparr>psSeen := psSeen p + 1\<rparr>)"
    "(bs, out) = (case readInserted src insertedScanLimit of (head, sp, rest) \<Rightarrow>
       if (psSeen p + 1) mod (if Every p \<le> 0 then 100 else Every p) = 0
       then copyFlipping fails (MultiReader head rest) (fst (pickCanaryBit raw head sp sz))
              (push_bit (fst (snd (pickCanaryBit raw head sp sz))) 1) 0 0
       else Copy fails (MultiReader head rest) 0)"
proof -
  obtain session origin epoch where pp: "parse_path path = Some (session, origin, epoch)"
    using assms by (auto simp: serve_def split: option.splits)
  obtain worker where w: "workerFor session p = Some worker"
    using assms by (auto simp: serve_def pp split: option.splits)
  obtain may q1 where l: "LeasedBy now worker origin epoch q = (may, q1)" by fastforce
  have m: may using assms by (auto simp: serve_def pp w l split: if_splits)
  obtain src z where f: "fetch origin epoch = Some (src, z)"
    using assms by (auto simp: serve_def pp w l m split: option.splits)
  obtain head sp rest where r: "readInserted src insertedScanLimit = (head, sp, rest)" using prod_cases3 by blast
  obtain at bt region where pk: "pickCanaryBit raw head sp z = (at, bt, region)" using prod_cases3 by blast
  obtain c p1 where d: "due p = (c, p1)" by fastforce
  then have c: "c = ((psSeen p + 1) mod (if Every p \<le> 0 then 100 else Every p) = 0)" "p1 = p\<lparr>psSeen := psSeen p + 1\<rparr>"
    by (auto simp: due_def Let_def)
  have e: "serve now fetch raw fails path p q =
      (let p2 = (if c then mark now origin epoch p1 else p1) in
       if \<not> c then (Proof z (fst (Copy fails (MultiReader head rest) 0)) (snd (Copy fails (MultiReader head rest) 0)), p2, q1)
       else (Proof z (fst (copyFlipping fails (MultiReader head rest) at (push_bit bt 1) 0 0))
                     (snd (copyFlipping fails (MultiReader head rest) at (push_bit bt 1) 0 0)), p2, q1))"
    by (simp add: serve_def pp w l m f r pk d Let_def split: prod.splits)
  show thesis
  proof (rule that[OF pp _ _ _])
    show "sessions p session = Some worker" using w by (simp add: workerFor_def)
    show "LeasedBy now worker origin epoch q = (True, q')" using e assms l m by (auto simp: Let_def split: if_splits)
    show "fetch origin epoch = Some (src, sz)" using e assms f by (auto simp: Let_def split: if_splits)
    show "p' = (if (psSeen p + 1) mod (if Every p \<le> 0 then 100 else Every p) = 0
           then mark now origin epoch (p\<lparr>psSeen := psSeen p + 1\<rparr>) else p\<lparr>psSeen := psSeen p + 1\<rparr>)"
      using e assms c by (cases c) (auto simp: Let_def)
    have "z = sz" using e assms by (auto simp: Let_def split: if_splits)
    then show "(bs, out) = (case readInserted src insertedScanLimit of (head, sp, rest) \<Rightarrow>
       if (psSeen p + 1) mod (if Every p \<le> 0 then 100 else Every p) = 0
       then copyFlipping fails (MultiReader head rest) (fst (pickCanaryBit raw head sp sz))
              (push_bit (fst (snd (pickCanaryBit raw head sp sz))) 1) 0 0
       else Copy fails (MultiReader head rest) 0)"
      using e assms c(1) pk by (cases c) (auto simp: Let_def r)
  qed
qed

lemma serve_refused:
  assumes "serve now fetch raw fails path p q = (NotFound, p', q')"
  shows "p' = p"
  using assms by (auto simp: serve_def Let_def split: option.splits prod.splits if_splits)

lemma mask_nonzero: "k < 8 \<Longrightarrow> b XOR push_bit k 1 \<noteq> (b :: byte)"
  using one_bit[of k k b] by fastforce

lemma aim_spec:
  assumes "aim raw head sp = Some off"
  shows "known sp \<and> (\<exists>n tot. PayloadOffset (take (spEnd sp) head) 1 n = Inr (Some off, tot))"
  using assms unfolding aim_def Let_def insertedField_def
  by (auto split: if_splits sum.splits prod.splits)

text \<open>
  One bit of one byte is changed; only a proof that is shorter than the operator declared, or
  empty, may be left as it is.
\<close>

definition bit_flipped :: "bytes \<Rightarrow> int \<Rightarrow> bytes \<Rightarrow> bool" where
  "bit_flipped s declared bs \<longleftrightarrow> (\<exists>off k. k < 8 \<and>
     (if off < length s then bs = s[off := s ! off XOR push_bit k 1]
      else bs = s \<and> (s = [] \<or> int (length s) < declared)))"

lemma seq_frames_inside: "r \<in> set (seq_frames data s stop) \<Longrightarrow> frEnd r \<le> length data"
proof (induction data s stop rule: seq_frames.induct)
  case (1 data s stop)
  show ?case
  proof (cases "s < stop \<and> (\<exists>r. nextRecord data s = Framed r)")
    case True
    then obtain x where x: "nextRecord data s = Framed x" by blast
    have "seq_frames data s stop = x # seq_frames data (frEnd x) stop"
      using True x by (simp add: seq_frames.simps[of data s stop])
    then show ?thesis using 1 True x nextRecord_advances[OF x] by auto
  next
    case False
    then have "seq_frames data s stop = []" by (subst seq_frames.simps) (auto split: framing.splits)
    then show ?thesis using 1(2) by simp
  qed
qed

lemma PayloadOffset_inside:
  assumes "PayloadOffset data f n = Inr (Some off, tot)"
  shows "off < length data"
proof -
  have "payload_scan data f n 0 (None, 0) = Inr (Some off, tot)" using assms by (simp add: PayloadOffset_def)
  from payload_scan_hit[OF this, of off, unfolded fst_conv, OF refl]
  have "\<exists>r :: frame. \<exists>e\<in>set (seq_frames data (BodyStart r) (frEnd r)). elem_hit data off e"
    by blast
  then obtain l s t where "l \<in> set (seq_frames data s t)" "in_body off l" unfolding elem_hit_def by blast
  then show ?thesis using seq_frames_inside by (fastforce simp: in_body_def)
qed

text \<open>Where a canary is flipped: inside what is read, if that is as long as was declared.\<close>

lemma pickCanaryBit_inside:
  assumes "pickCanaryBit raw head sp sz = (at, bt, region)"
    and "bs = head @ ext" "bs \<noteq> []" "sz \<le> int (length bs)"
  shows "0 \<le> at \<and> at < int (length bs)"
proof (cases "aim raw head sp")
  case None
  have "0 < int (length bs)" using assms(3) by simp
  then show ?thesis using assms(1,4) None randBelow_range[of sz raw 3]
    by (auto simp: pickCanaryBit_def Let_def split: if_splits)
next
  case (Some off)
  then obtain n tot where "PayloadOffset (take (spEnd sp) head) 1 n = Inr (Some off, tot)" using aim_spec by blast
  then show ?thesis using PayloadOffset_inside[of "take (spEnd sp) head"] assms(1,2) Some
    by (fastforce simp: pickCanaryBit_def Let_def)
qed

text \<open>
C16. A proof goes out only to the worker of a live session that holds a lease on the
  epoch, and exactly as fetched, however its reader cuts it, unless it is the one in Every:
  then the epoch is marked as a canary and one bit of one byte of the proof, and nothing
  else, is changed on the way. Only a proof that is empty or shorter than the operator
  declared may be marked and yet go out unchanged.
\<close>

theorem serve_exact:
  assumes "serve now fetch raw (\<lambda>_. False) path p q = (Proof sz bs out, p', q')"
    and "\<forall>origin epoch src n. fetch origin epoch = Some (src, n) \<longrightarrow> reader_ok src"
  shows "\<exists>session origin epoch worker src.
      parse_path path = Some (session, origin, epoch) \<and> sessions p session = Some worker
      \<and> LeasedBy now worker origin epoch q = (True, q') \<and> fetch origin epoch = Some (src, sz)
      \<and> out = snd (stream src)
      \<and> (if (psSeen p + 1) mod (if Every p \<le> 0 then 100 else Every p) = 0
         then fst (WasCanary origin epoch p')
              \<and> bit_flipped (fst (stream src)) sz bs
         else bs = fst (stream src) \<and> canaries p' = canaries p)"
proof -
  obtain session origin epoch worker src where s: "parse_path path = Some (session, origin, epoch)"
    "sessions p session = Some worker" "LeasedBy now worker origin epoch q = (True, q')"
    "fetch origin epoch = Some (src, sz)"
    and p': "p' = (if (psSeen p + 1) mod (if Every p \<le> 0 then 100 else Every p) = 0
       then mark now origin epoch (p\<lparr>psSeen := psSeen p + 1\<rparr>) else p\<lparr>psSeen := psSeen p + 1\<rparr>)"
    and b: "(bs, out) = (case readInserted src insertedScanLimit of (head, sp, rest) \<Rightarrow>
       if (psSeen p + 1) mod (if Every p \<le> 0 then 100 else Every p) = 0
       then copyFlipping (\<lambda>_. False) (MultiReader head rest) (fst (pickCanaryBit raw head sp sz))
              (push_bit (fst (snd (pickCanaryBit raw head sp sz))) 1) 0 0
       else Copy (\<lambda>_. False) (MultiReader head rest) 0)"
    by (rule serve_served[OF assms(1)])
  obtain head sp rest where r: "readInserted src insertedScanLimit = (head, sp, rest)" using prod_cases3 by blast
  have st: "stream (MultiReader head rest) = stream src"
    using readInserted_spec(1)[OF _ r] assms(2) s(4) by blast
  obtain at bt region where pk: "pickCanaryBit raw head sp sz = (at, bt, region)" using prod_cases3 by blast
  have k: "bt < 8" and at: "0 \<le> at"
    using pk randBelow_range[of 8 raw 0] randBelow_range[of sz raw 3] by (auto simp: pickCanaryBit_def Let_def split: option.splits if_splits)
  obtain ext where ext: "fst (stream src) = head @ ext" using readInserted_spec(4)[OF _ r] assms(2) s(4) by blast
  have out: "out = snd (stream src)"
    using b unfolding r prod.case copyFlipping_stream Copy_stream st
    by (cases "stream src") (auto split: if_splits)
  show ?thesis
  proof (cases "(psSeen p + 1) mod (if Every p \<le> 0 then 100 else Every p) = 0")
    case True
    then have "bs = flip_at (fst (stream src)) at (push_bit bt 1)"
      using b by (simp add: r pk copyFlipping_stream st)
    moreover have "fst (stream src) \<noteq> [] \<and> sz \<le> int (length (fst (stream src))) \<longrightarrow> nat at < length (fst (stream src))"
      using pickCanaryBit_inside[OF pk ext] by (simp add: nat_less_iff)
    ultimately have "bt < 8 \<and> (if nat at < length (fst (stream src))
        then bs = (fst (stream src))[nat at := fst (stream src) ! nat at XOR push_bit bt 1]
        else bs = fst (stream src) \<and> (fst (stream src) = [] \<or> int (length (fst (stream src))) < sz))"
      using k at by (auto simp: flip_at_def nat_less_iff simp del: push_bit_of_1)
    then have "bit_flipped (fst (stream src)) sz bs" unfolding bit_flipped_def by blast
    moreover have "fst (WasCanary origin epoch p')" using p' True by (simp add: mark_def WasCanary_def Let_def)
    ultimately show ?thesis using s out True by auto
  next
    case False
    then have "(bs, out) = stream src" using b by (simp add: r Copy_stream st)
    then have "bs = fst (stream src)" by (cases "stream src") simp
    then show ?thesis using s out p' False by auto
  qed
qed

text \<open>
C17. A canary aimed into the inserted elements, with the offset found on the prefix that
  was read ahead, is served as a different proof of the same length that still decodes, with
  the same unchanged elements and inserted labels of the same lengths: the worker can reject
  it only by computing the roots.
\<close>

theorem aimed_canary_decodes:
  assumes "reader_ok src" "stream src = (pf, Copied)" "Decode pf = Inr (inserted, unchanged)"
    and "readInserted src limit = (head, sp, rest)" "aim raw head sp = Some off"
  shows "case pickCanaryBit raw head sp sz of (at, bt, region) \<Rightarrow>
      \<exists>served inserted'. copyFlipping (\<lambda>_. False) (MultiReader head rest) at (push_bit bt 1) 0 0 = (served, Copied)
        \<and> length served = length pf \<and> served \<noteq> pf
        \<and> Decode served = Inr (inserted', unchanged) \<and> map Len inserted' = map Len inserted"
proof -
  let ?k = "nat (randBelow raw 0 8)"
  have pk: "pickCanaryBit raw head sp sz = (int off, ?k, ''inserted'')"
    by (simp add: pickCanaryBit_def Let_def assms(5))
  have k: "?k < 8" using randBelow_range[of 8 raw 0] by linarith
  obtain n tot where po: "PayloadOffset (take (spEnd sp) head) 1 n = Inr (Some off, tot)" and kn: "known sp"
    using aim_spec[OF assms(5)] by blast
  note rs = readInserted_spec[OF assms(1,4)]
  obtain ext where "pf = head @ ext" using rs(4) assms(2) by auto
  then have "take (spEnd sp) pf = take (spEnd sp) head" using rs(2)[OF kn] by simp
  then have "PayloadOffset (take (spEnd sp) pf) 1 n = Inr (Some off, tot)" using po by simp
  from payload_flip_prefix[OF assms(3) this, of "pf ! off XOR push_bit ?k 1"]
  obtain inserted' where d: "off < length pf" "Decode (pf[off := pf ! off XOR push_bit ?k 1]) = Inr (inserted', unchanged)"
    "map Len inserted' = map Len inserted" by blast
  have "copyFlipping (\<lambda>_. False) (MultiReader head rest) (int off) (push_bit ?k 1) 0 0
      = (pf[off := pf ! off XOR push_bit ?k 1], Copied)"
    using d(1) rs(1) assms(2) by (simp add: copyFlipping_stream flip_at_def)
  moreover have "pf[off := pf ! off XOR push_bit ?k 1] \<noteq> pf"
    using mask_nonzero[OF k, of "pf ! off"] d(1) by (metis nth_list_update_eq)
  ultimately show ?thesis using d(2,3) by (simp add: pk)
qed

subsection \<open>Witnesses\<close>

definition one_lease :: Queue where
  "one_lease = (NewQueue 60 [''a''])\<lparr>leased := [(''a#1'', \<lparr>asID = ''a#1'', asOrigin = ''a'', asFrom = 5, asTo = 9, asNonce = [],
     asNotBefore = None, asDeadline = 100, asWorker = ''w''\<rparr>)]\<rparr>"

definition one_session :: ProofServer where
  "one_session = snd (Session (Some [0xab]) ''w'' (NewProofServer 2))"

definition one_fetch :: "string \<Rightarrow> int \<Rightarrow> (reader \<times> int) option" where
  "one_fetch origin epoch = (if origin = ''a'' \<and> epoch = 7 then Some ([([1, 2], None), ([3], Some EOF)], 3) else None)"

lemma one_path: "parse_path ''/proof/ab/a/7'' = Some (''ab'', ''a'', 7)" by code_simp

lemma one_may: "fst (LeasedBy 50 ''w'' ''a'' 7 one_lease)" by code_simp

lemma one_reader: "\<forall>origin epoch src n. one_fetch origin epoch = Some (src, n) \<longrightarrow> reader_ok src"
  by (auto simp: one_fetch_def outcome_of_def split: if_splits)

text \<open>Every second proof is corrupted: the first goes out as it is, the second with a bit flipped.\<close>

lemma one_served:
  assumes "sessions p = sessions one_session"
  shows "\<exists>bs out p' q'. serve 50 one_fetch (\<lambda>_. 0) (\<lambda>_. False) ''/proof/ab/a/7'' p one_lease = (Proof 3 bs out, p', q')"
proof -
  have "workerFor ''ab'' one_session = Some ''w''" by code_simp
  then have w: "workerFor ''ab'' p = Some ''w''" using assms by (simp add: workerFor_def)
  obtain q1 where l: "LeasedBy 50 ''w'' ''a'' 7 one_lease = (True, q1)"
    using one_may by (cases "LeasedBy 50 ''w'' ''a'' 7 one_lease") auto
  show ?thesis by (simp add: serve_def one_path w l one_fetch_def Let_def split: prod.splits)
qed

theorem serve_exact_witness:
  "(\<exists>p' q'. serve 50 one_fetch (\<lambda>_. 0) (\<lambda>_. False) ''/proof/ab/a/7'' one_session one_lease = (Proof 3 [1, 2, 3] Copied, p', q')) \<and>
   (\<exists>bs p' q'. serve 50 one_fetch (\<lambda>_. 0) (\<lambda>_. False) ''/proof/ab/a/7'' (one_session\<lparr>psSeen := 1\<rparr>) one_lease =
      (Proof 3 bs Copied, p', q') \<and> length bs = 3 \<and> bs \<noteq> [1, 2, 3] \<and> fst (WasCanary ''a'' 7 p'))"
proof
  have s: "psSeen one_session = 0" "Every one_session = 2" by code_simp+
  obtain bs out p' q' where e:
    "serve 50 one_fetch (\<lambda>_. 0) (\<lambda>_. False) ''/proof/ab/a/7'' one_session one_lease = (Proof 3 bs out, p', q')"
    using one_served by blast
  have "bs = [1, 2, 3] \<and> out = Copied"
    using serve_exact[OF e one_reader] by (auto simp: one_path s one_fetch_def outcome_of_def)
  then show "\<exists>p' q'. serve 50 one_fetch (\<lambda>_. 0) (\<lambda>_. False) ''/proof/ab/a/7'' one_session one_lease = (Proof 3 [1, 2, 3] Copied, p', q')"
    using e by blast
  obtain bs out p' q' where e:
    "serve 50 one_fetch (\<lambda>_. 0) (\<lambda>_. False) ''/proof/ab/a/7'' (one_session\<lparr>psSeen := 1\<rparr>) one_lease = (Proof 3 bs out, p', q')"
    using one_served[of "one_session\<lparr>psSeen := 1\<rparr>"] by auto
  have st: "stream [([1, 2], None), ([3], Some EOF)] = ([1, 2, 3], Copied)" by (simp add: outcome_of_def)
  have c: "out = Copied \<and> fst (WasCanary ''a'' 7 p') \<and> bit_flipped [1, 2, 3] 3 bs"
    using serve_exact[OF e one_reader] by (auto simp: one_path s one_fetch_def st simp del: stream.simps)
  then obtain off k where k: "k < 8" "if off < length [1, 2, 3 :: byte] then bs = [1, 2, 3][off := [1, 2, 3] ! off XOR push_bit k 1]
      else bs = [1, 2, 3] \<and> ([1, 2, 3 :: byte] = [] \<or> int (length [1, 2, 3 :: byte]) < 3)"
    unfolding bit_flipped_def by blast
  then have "off < length [1, 2, 3 :: byte]" by (simp split: if_splits)
  then have "off < length [1, 2, 3 :: byte]" "bs = [1, 2, 3][off := [1, 2, 3] ! off XOR push_bit k 1]" using k(2) by simp_all
  then have "length bs = 3" "bs ! off \<noteq> [1, 2, 3] ! off"
    using mask_nonzero[OF k(1)] by (simp_all del: list_update.simps push_bit_of_1)
  then show "\<exists>bs p' q'. serve 50 one_fetch (\<lambda>_. 0) (\<lambda>_. False) ''/proof/ab/a/7'' (one_session\<lparr>psSeen := 1\<rparr>) one_lease =
      (Proof 3 bs Copied, p', q') \<and> length bs = 3 \<and> bs \<noteq> [1, 2, 3] \<and> fst (WasCanary ''a'' 7 p')"
    using e c by auto
qed

lemma wit_front:
  "readInserted [(wit_proof, None)] 100 = (wit_proof, fst (snd (readInserted [(wit_proof, None)] 100)), [])"
  "aim (\<lambda>_. 0) wit_proof (fst (snd (readInserted [(wit_proof, None)] 100))) = Some 6"
  by code_simp+

theorem aimed_canary_decodes_witness:
  "\<exists>served inserted'. copyFlipping (\<lambda>_. False) (MultiReader wit_proof []) 6 1 0 0 = (served, Copied)
     \<and> served \<noteq> wit_proof \<and> Decode served = Inr (inserted', [wit_elem 0x80 1])"
proof -
  have "stream [(wit_proof, None)] = (wit_proof, Copied)" "reader_ok [(wit_proof, None)]" by simp_all
  from aimed_canary_decodes[OF this(2,1) wit_Decode wit_front, of 0]
  show ?thesis by (auto simp: pickCanaryBit_def wit_front(2) randBelow_def)
qed

end
