(* ===== verification/Work_Generator.thy ===== *)
theory Work_Generator
  imports Proof_Cache
begin

text \<open>
  The work generator, \<open>cmd/kt-witness/workgen.go\<close>: the two cursors over a log's history and
  the batch of epochs a pass downloads.  \<open>backward\<close> is a loop that need not end, so it is a
  \<open>partial_function (option)\<close>: None is a call that does not return.  The lookups of the store
  do not fail here; the clock and the resolver of an epoch are arguments.
\<close>

record cursors =
  cuFwd :: int
  cuBack :: int
  cuReady :: bool
  cuAt :: int
  cuStride :: int

definition backStride :: int where "backStride = 512"

definition strideOr :: "cursors \<Rightarrow> int" where
  "strideOr c = (if cuStride c > 0 then cuStride c else backStride)"

definition cursors_init :: "AuditStore \<Rightarrow> string \<Rightarrow> History \<Rightarrow> cursors \<Rightarrow> cursors" where
  "cursors_init s origin h c =
     (if cuReady c then c
      else let c = c\<lparr>cuReady := True\<rparr>;
               c = (if AuditProgress origin s > hiFrom h then c\<lparr>cuFwd := AuditProgress origin s\<rparr>
                    else c\<lparr>cuFwd := hiFrom h\<rparr>);
               (b, ok) = BackAuditProgress origin s
           in if ok \<and> b > hiFrom h then c\<lparr>cuBack := b\<rparr> else c\<lparr>cuBack := cuFwd c\<rparr>)"

text \<open>\<open>forward\<close>: every round of the loop adds an epoch or ends it.\<close>

function forward_loop ::
  "AuditStore \<Rightarrow> string \<Rightarrow> History \<Rightarrow> int \<Rightarrow> int \<Rightarrow> int list \<Rightarrow> cursors \<Rightarrow> int list \<times> cursors" where
  "forward_loop s origin h n at out c =
     (if int (length out) < n \<and> at \<le> hiTo h
      then case FirstUnverified origin at (hiTo h) s of
             None \<Rightarrow> (out, c\<lparr>cuFwd := hiTo h\<rparr>)
           | Some e \<Rightarrow> forward_loop s origin h n (e + 1) (out @ [e]) (c\<lparr>cuFwd := e + 1\<rparr>)
      else (out, c))"
  by pat_completeness auto
termination by (relation "measure (\<lambda>(s, origin, h, n, at, out, c). nat (n - int (length out)))") auto

declare forward_loop.simps [simp del]

definition forward :: "AuditStore \<Rightarrow> string \<Rightarrow> History \<Rightarrow> int \<Rightarrow> cursors \<Rightarrow> int list \<times> cursors" where
  "forward s origin h n c = forward_loop s origin h n (cuFwd c) [] c"

text \<open>\<open>backward\<close>: the inner loop collects one window, the outer one descends and starts again.\<close>

function window_loop :: "AuditStore \<Rightarrow> string \<Rightarrow> int \<Rightarrow> int list \<Rightarrow> cursors \<Rightarrow> int list \<times> cursors" where
  "window_loop s origin n out c =
     (if int (length out) < n
      then case FirstUnverified origin (cuAt c) (cuBack c - 1) s of
             None \<Rightarrow> (out, c)
           | Some e \<Rightarrow> window_loop s origin n (out @ [e]) (c\<lparr>cuAt := e + 1\<rparr>)
      else (out, c))"
  by pat_completeness auto
termination by (relation "measure (\<lambda>(s, origin, n, out, c). nat (n - int (length out)))") auto

declare window_loop.simps [simp del]

definition window_floor :: "History \<Rightarrow> cursors \<Rightarrow> int" where
  "window_floor h c = (let lo = cuBack c - strideOr c in if lo < hiFrom h then hiFrom h else lo)"

text \<open>One round of the outer loop; the flag says that it returns.\<close>

definition back_round ::
  "AuditStore \<Rightarrow> string \<Rightarrow> History \<Rightarrow> int \<Rightarrow> int list \<times> cursors \<Rightarrow> bool \<times> int list \<times> cursors" where
  "back_round s origin h n = (\<lambda>(out, c).
     if \<not> int (length out) < n then (True, out, c)
     else (let c = (if cuBack c \<le> hiFrom h then c\<lparr>cuBack := cuFwd c, cuAt := 0\<rparr> else c)
           in if cuBack c \<le> hiFrom h then (True, out, c)
              else let lo = window_floor h c;
                       c = (if cuAt c < lo \<or> cuAt c \<ge> cuBack c then c\<lparr>cuAt := lo\<rparr> else c);
                       (out, c) = window_loop s origin n out c
                   in if int (length out) = n \<and> cuAt c < cuBack c then (True, out, c)
                      else (False, out, c\<lparr>cuBack := lo, cuAt := 0\<rparr>)))"

partial_function (option) back_loop ::
  "AuditStore \<Rightarrow> string \<Rightarrow> History \<Rightarrow> int \<Rightarrow> int list \<times> cursors \<Rightarrow> (int list \<times> cursors) option" where
  "back_loop s origin h n st =
     (if fst (back_round s origin h n st) then Some (snd (back_round s origin h n st))
      else back_loop s origin h n (snd (back_round s origin h n st)))"

definition backward ::
  "AuditStore \<Rightarrow> string \<Rightarrow> History \<Rightarrow> int \<Rightarrow> cursors \<Rightarrow> (int list \<times> cursors) option" where
  "backward s origin h n c = (if n \<le> 0 then Some ([], c) else back_loop s origin h n ([], c))"

text \<open>
  One pass, for a positive room: holes that have come due, at most a quarter of the room and one more, then the
  tip, then history.  The result lists the epochs of the batch; the downloads started are
  those the resolver knows.
\<close>

definition fillMore ::
  "int \<Rightarrow> string \<Rightarrow> int \<Rightarrow> AuditStore \<Rightarrow> cursors \<Rightarrow> (int list \<times> cursors) option" where
  "fillMore now origin room s c =
     (case histories s origin of
        None \<Rightarrow> Some ([], c)
      | Some h \<Rightarrow>
          if hiTo h \<le> hiFrom h then Some ([], c)
          else (let c = cursors_init s origin h c;
                    n = room div 4 + 1;
                    batch = (if n > 0 then HolesDue origin (hiFrom h) (hiTo h) now n s else []);
                    (batch, c) = (if int (length batch) < room
                                   then let (es, c) = forward s origin h (room - int (length batch)) c
                                        in (batch @ es, c)
                                   else (batch, c))
                in if int (length batch) < room
                   then map_option (\<lambda>(es, c). (batch @ es, c)) (backward s origin h (room - int (length batch)) c)
                   else Some (batch, c)))"

definition fetches_started :: "(int \<Rightarrow> 'ref option) \<Rightarrow> int list \<Rightarrow> (int \<times> 'ref) list" where
  "fetches_started resolve batch = List.map_filter (\<lambda>e. map_option (\<lambda>r. (e, r)) (resolve e)) batch"

definition readyFloor :: int where "readyFloor = 16"
definition readyAhead :: int where "readyAhead = 3"

definition readyTarget :: "int \<Rightarrow> string \<Rightarrow> Queue \<Rightarrow> int \<times> Queue" where
  "readyTarget now origin q =
     (let (n, q) = LeasedEpochs now origin q; n = n * readyAhead
      in (if n < readyFloor then readyFloor else n, q))"

text \<open>The room of a pass of the generator's loop: nothing is started when it is not positive.\<close>

definition generator_room :: "int \<Rightarrow> string \<Rightarrow> int \<Rightarrow> Prefetcher \<Rightarrow> Queue \<Rightarrow> int \<times> Queue" where
  "generator_room now origin inFlight pf q =
     (let n = int (Held pf origin); (want, q) = readyTarget now origin q in (want - n - inFlight, q))"

subsection \<open>The window and the round\<close>

text \<open>A window adds distinct epochs without a verified record, in order, and stops early only when the batch is full.\<close>

lemma window_spec:
  assumes "audits_ok s" "window_loop s origin n out c = (out', c')"
  shows "\<exists>es. out' = out @ es \<and> (\<forall>e \<in> set es. cuAt c \<le> e \<and> e < cuBack c \<and> \<not> is_verified origin s e)
      \<and> sorted_wrt (<) es
      \<and> cuFwd c' = cuFwd c \<and> cuBack c' = cuBack c \<and> cuStride c' = cuStride c \<and> cuReady c' = cuReady c
      \<and> (int (length out) \<le> n \<longrightarrow> int (length out') \<le> n)
      \<and> (int (length out') < n \<longrightarrow> (\<forall>e. cuAt c \<le> e \<and> e < cuBack c \<longrightarrow> e \<in> set es \<or> is_verified origin s e))"
  using assms
proof (induction s origin n out c arbitrary: out' c' rule: window_loop.induct)
  case (1 s origin n out c)
  note fu = FirstUnverified_spec[OF 1(2), of "cuAt c" "cuBack c - 1" origin]
  show ?case
  proof (cases "int (length out) < n")
    case False
    then show ?thesis using 1(3) by (subst (asm) window_loop.simps) auto
  next
    case True
    show ?thesis
    proof (cases "FirstUnverified origin (cuAt c) (cuBack c - 1) s")
      case None
      then have "out' = out" "c' = c" using 1(3) True by (subst (asm) window_loop.simps; simp)+
      then show ?thesis using fu None True by auto
    next
      case (Some e)
      let ?c = "c\<lparr>cuAt := e + 1\<rparr>"
      have "window_loop s origin n (out @ [e]) ?c = (out', c')"
        using 1(3) True Some by (subst (asm) window_loop.simps) simp
      from 1(1)[OF True Some 1(2) this] obtain es where es: "out' = (out @ [e]) @ es"
        "\<forall>x \<in> set es. cuAt ?c \<le> x \<and> x < cuBack ?c \<and> \<not> is_verified origin s x" "sorted_wrt (<) es"
        "cuFwd c' = cuFwd ?c" "cuBack c' = cuBack ?c" "cuStride c' = cuStride ?c" "cuReady c' = cuReady ?c"
        "int (length (out @ [e])) \<le> n \<longrightarrow> int (length out') \<le> n"
        "int (length out') < n \<longrightarrow> (\<forall>x. cuAt ?c \<le> x \<and> x < cuBack ?c \<longrightarrow> x \<in> set es \<or> is_verified origin s x)"
        by blast
      have e: "cuAt c \<le> e" "e < cuBack c" "\<not> is_verified origin s e"
        "\<forall>x. cuAt c \<le> x \<and> x < e \<longrightarrow> is_verified origin s x" using fu Some by auto
      show ?thesis
      proof (intro exI[of _ "e # es"] conjI)
        show "int (length out') < n \<longrightarrow>
            (\<forall>x. cuAt c \<le> x \<and> x < cuBack c \<longrightarrow> x \<in> set (e # es) \<or> is_verified origin s x)"
        proof (intro impI allI)
          fix x assume "int (length out') < n" "cuAt c \<le> x \<and> x < cuBack c"
          then show "x \<in> set (e # es) \<or> is_verified origin s x"
            using es(9) e(4) by (cases x e rule: linorder_cases) auto
        qed
      qed (use es e True in auto)
    qed
  qed
qed

lemma strideOr_pos: "0 < strideOr c"
  by (simp add: strideOr_def backStride_def)

lemma window_floor_less: "hiFrom h < cuBack c \<Longrightarrow> hiFrom h \<le> window_floor h c \<and> window_floor h c < cuBack c"
  using strideOr_pos[of c] by (simp add: window_floor_def Let_def)

text \<open>Where a round starts, after the wrap at the bottom.\<close>

definition round_start :: "History \<Rightarrow> cursors \<Rightarrow> cursors" where
  "round_start h c =
     (let c = (if cuBack c \<le> hiFrom h then c\<lparr>cuBack := cuFwd c, cuAt := 0\<rparr> else c)
      in if cuAt c < window_floor h c \<or> cuAt c \<ge> cuBack c then c\<lparr>cuAt := window_floor h c\<rparr> else c)"

lemma round_start_rest:
  "cuFwd (round_start h c) = cuFwd c" "cuStride (round_start h c) = cuStride c"
  "cuBack (round_start h c) = (if cuBack c \<le> hiFrom h then cuFwd c else cuBack c)"
  by (simp_all add: round_start_def Let_def)

lemma round_start_at:
  assumes "hiFrom h < cuBack (round_start h c)"
  shows "window_floor h (round_start h c) \<le> cuAt (round_start h c) \<and> cuAt (round_start h c) < cuBack (round_start h c)"
proof -
  define d where "d = (if cuBack c \<le> hiFrom h then c\<lparr>cuBack := cuFwd c, cuAt := 0\<rparr> else c)"
  have r: "round_start h c = (if cuAt d < window_floor h d \<or> cuAt d \<ge> cuBack d then d\<lparr>cuAt := window_floor h d\<rparr> else d)"
    by (simp add: round_start_def d_def)
  have "window_floor h (round_start h c) = window_floor h d" "cuBack (round_start h c) = cuBack d"
    by (simp_all add: r window_floor_def strideOr_def)
  then show ?thesis using window_floor_less[of h d] assms by (auto simp: r)
qed

lemma back_round_cases:
  assumes ok: "audits_ok s" and len: "int (length out) < n"
    and d: "d = round_start h c" and r: "back_round s origin h n (out, c) = (b, out', c')"
  shows "if cuBack d \<le> hiFrom h then b \<and> out' = out
         else \<exists>es. out' = out @ es
              \<and> (\<forall>e \<in> set es. cuAt d \<le> e \<and> e < cuBack d \<and> \<not> is_verified origin s e) \<and> sorted_wrt (<) es
              \<and> int (length out') \<le> n \<and> cuFwd c' = cuFwd c \<and> cuStride c' = cuStride c
              \<and> (b \<longrightarrow> int (length out') = n)
              \<and> (\<not> b \<longrightarrow> cuBack c' = window_floor h d \<and> cuAt c' = 0)
              \<and> (int (length out') < n \<longrightarrow> (\<forall>e. cuAt d \<le> e \<and> e < cuBack d \<longrightarrow> e \<in> set es \<or> is_verified origin s e))"
proof -
  define c1 where "c1 = (if cuBack c \<le> hiFrom h then c\<lparr>cuBack := cuFwd c, cuAt := 0\<rparr> else c)"
  have d1: "d = (if cuAt c1 < window_floor h c1 \<or> cuAt c1 \<ge> cuBack c1 then c1\<lparr>cuAt := window_floor h c1\<rparr> else c1)"
    by (simp add: d round_start_def c1_def)
  have db: "cuBack d = cuBack c1" "window_floor h d = window_floor h c1"
    by (simp_all add: d1 window_floor_def strideOr_def)
  obtain w c2 where w: "window_loop s origin n out d = (w, c2)" by (cases "window_loop s origin n out d")
  have eq: "back_round s origin h n (out, c) =
      (if cuBack c1 \<le> hiFrom h then (True, out, c1)
       else if int (length w) = n \<and> cuAt c2 < cuBack c2 then (True, w, c2)
       else (False, w, c2\<lparr>cuBack := window_floor h c1, cuAt := 0\<rparr>))"
    unfolding back_round_def prod.case Let_def c1_def[symmetric] d1[symmetric] w
    using len by simp
  have fw: "cuFwd d = cuFwd c" "cuStride d = cuStride c" by (simp_all add: d round_start_rest)
  show ?thesis
  proof (cases "cuBack d \<le> hiFrom h")
    case True
    then show ?thesis using eq r db by simp
  next
    case False
    obtain es where es: "w = out @ es" "\<forall>e \<in> set es. cuAt d \<le> e \<and> e < cuBack d \<and> \<not> is_verified origin s e"
      "sorted_wrt (<) es" "cuFwd c2 = cuFwd d" "cuStride c2 = cuStride d"
      "int (length out) \<le> n \<longrightarrow> int (length w) \<le> n"
      "int (length w) < n \<longrightarrow> (\<forall>e. cuAt d \<le> e \<and> e < cuBack d \<longrightarrow> e \<in> set es \<or> is_verified origin s e)"
      using window_spec[OF ok w] by blast
    have b: "b = (int (length w) = n \<and> cuAt c2 < cuBack c2)" and o': "out' = w"
      and c': "c' = (if b then c2 else c2\<lparr>cuBack := window_floor h c1, cuAt := 0\<rparr>)"
      using eq r False db by (auto split: if_splits)
    show ?thesis using False es len fw db b o' c' by auto
  qed
qed

subsection \<open>When the sweep returns\<close>

lemma back_loop_stop:
  "back_round s origin h n st = (True, r) \<Longrightarrow> back_loop s origin h n st = Some r"
  by (subst back_loop.simps) simp

lemma back_loop_round:
  "back_round s origin h n st = (b, st') \<Longrightarrow> back_loop s origin h n st = (if b then Some st' else back_loop s origin h n st')"
  by (subst back_loop.simps) simp

lemma back_round_full: "\<not> int (length out) < n \<Longrightarrow> back_round s origin h n (out, c) = (True, out, c)"
  by (simp add: back_round_def)

lemma round_start_at_zero:
  assumes "0 \<le> hiFrom h" "cuAt c = 0" "hiFrom h < cuBack (round_start h c)"
  shows "cuAt (round_start h c) = window_floor h (round_start h c)"
proof -
  define d where "d = (if cuBack c \<le> hiFrom h then c\<lparr>cuBack := cuFwd c, cuAt := 0\<rparr> else c)"
  have r: "round_start h c = (if cuAt d < window_floor h d \<or> cuAt d \<ge> cuBack d then d\<lparr>cuAt := window_floor h d\<rparr> else d)"
    by (simp add: round_start_def d_def)
  have "window_floor h (round_start h c) = window_floor h d" "cuBack (round_start h c) = cuBack d"
    by (simp_all add: r window_floor_def strideOr_def)
  moreover have "cuAt d = 0" using assms(2) by (simp add: d_def)
  moreover have "0 \<le> window_floor h d"
    using window_floor_less[of h d] assms(1,3) calculation by simp
  ultimately show ?thesis by (auto simp: r)
qed

lemma back_loop_returns_aligned:
  assumes ok: "audits_ok s" and h: "0 \<le> hiFrom h"
    and e: "hiFrom h \<le> e" "e < f" "\<not> is_verified origin s e"
  shows "cuFwd c = f \<Longrightarrow> cuAt c = 0 \<Longrightarrow> \<exists>r. back_loop s origin h n (out, c) = Some r"
proof (induction "(out, c)" arbitrary: out c rule: wf_induct[OF wf_measures[of
    "[\<lambda>(out, c). nat (n - int (length out)), \<lambda>(out, c). if cuBack c \<le> e then 1 else 0,
      \<lambda>(out, c). nat (cuBack c - hiFrom h)]"]])
  case (1 out c)
  show ?case
  proof (cases "int (length out) < n")
    case False
    then show ?thesis using back_loop_stop[OF back_round_full] by blast
  next
    case True
    define d where "d = round_start h c"
    obtain b out' c' where r: "back_round s origin h n (out, c) = (b, out', c')"
      using prod_cases3 by blast
    show ?thesis
    proof (cases b)
      case True
      then show ?thesis unfolding back_loop_round[OF r] by simp
    next
      case False
      note cs = back_round_cases[OF ok True d_def r]
      have db: "hiFrom h < cuBack d" using cs False by (auto split: if_splits)
      then obtain es where es: "out' = out @ es" "int (length out') \<le> n" "cuFwd c' = cuFwd c"
        "cuBack c' = window_floor h d" "cuAt c' = 0"
        "int (length out') < n \<longrightarrow> (\<forall>e. cuAt d \<le> e \<and> e < cuBack d \<longrightarrow> e \<in> set es \<or> is_verified origin s e)"
        using cs False by auto
      have at: "cuAt d = window_floor h d"
        using round_start_at_zero[OF h 1(3)] db d_def by blast
      have fl: "hiFrom h \<le> window_floor h d" "window_floor h d < cuBack d" using window_floor_less[OF db] by auto
      have cb: "cuBack d = (if cuBack c \<le> hiFrom h then f else cuBack c)"
        using round_start_rest(3)[of h c] 1(2) d_def by simp
      have less: "((out', c'), out, c) \<in> measures [\<lambda>(out, c). nat (n - int (length out)),
          \<lambda>(out, c). if cuBack c \<le> e then 1 else 0, \<lambda>(out, c). nat (cuBack c - hiFrom h)]"
      proof (cases "es = []")
        case False
        then show ?thesis using es(1) True by (cases es) auto
      next
        case True
        then have nin: "\<not> (cuAt d \<le> e \<and> e < cuBack d)" using es(1,6) \<open>int (length out) < n\<close> e(3) by auto
        show ?thesis
        proof (cases "cuBack c \<le> hiFrom h")
          case True
          then show ?thesis using \<open>es = []\<close> es(1,4) nin at fl cb e(1,2) db by simp
        next
          case False
          then show ?thesis using \<open>es = []\<close> es(1,4) nin at fl cb e(1,2) db by auto
        qed
      qed
      have "\<exists>r. back_loop s origin h n (out', c') = Some r"
        using 1(1)[rule_format, OF less] es(3,5) 1(2) by simp
      then show ?thesis unfolding back_loop_round[OF r] using False by simp
    qed
  qed
qed

text \<open>The place inside the first window may be anywhere; after one round it is 0.\<close>

lemma back_loop_after_round:
  assumes ok: "audits_ok s" and "\<And>out c. cuFwd c = f \<Longrightarrow> cuAt c = 0 \<Longrightarrow> \<exists>r. back_loop s origin h n (out, c) = Some r"
    and f: "cuFwd c = f"
  shows "\<exists>r. back_loop s origin h n (out, c) = Some r"
proof (cases "int (length out) < n")
  case False
  then show ?thesis using back_loop_stop[OF back_round_full] by blast
next
  case True
  obtain b out' c' where r: "back_round s origin h n (out, c) = (b, out', c')" using prod_cases3 by blast
  show ?thesis
  proof (cases b)
    case True
    then show ?thesis unfolding back_loop_round[OF r] by simp
  next
    case False
    then have "cuFwd c' = cuFwd c" "cuAt c' = 0"
      using back_round_cases[OF ok True refl r] by (auto split: if_splits)
    then have "\<exists>r. back_loop s origin h n (out', c') = Some r" using assms(2)[of c' out'] f by simp
    then show ?thesis unfolding back_loop_round[OF r] using False by simp
  qed
qed

lemma back_loop_returns_empty:
  assumes ok: "audits_ok s" and f: "f \<le> hiFrom h"
  shows "cuFwd c = f \<Longrightarrow> \<exists>r. back_loop s origin h n (out, c) = Some r"
proof (induction "nat (cuBack c - hiFrom h)" arbitrary: out c rule: less_induct)
  case less
  show ?case
  proof (cases "int (length out) < n")
    case False
    then show ?thesis using back_loop_stop[OF back_round_full] by blast
  next
    case True
    define d where "d = round_start h c"
    obtain b out' c' where r: "back_round s origin h n (out, c) = (b, out', c')" using prod_cases3 by blast
    show ?thesis
    proof (cases b)
      case True
      then show ?thesis unfolding back_loop_round[OF r] by simp
    next
      case False
      note cs = back_round_cases[OF ok True d_def r]
      have db: "hiFrom h < cuBack d" using cs False by (auto split: if_splits)
      then have c': "cuFwd c' = f" "cuBack c' = window_floor h d" using cs False less(2) by auto
      have "cuBack d = cuBack c" "hiFrom h < cuBack c"
        using round_start_rest(3)[of h c] db f less(2) by (auto simp: d_def split: if_splits)
      then have "nat (cuBack c' - hiFrom h) < nat (cuBack c - hiFrom h)"
        using window_floor_less[OF db] c'(2) by simp
      then have "\<exists>r. back_loop s origin h n (out', c') = Some r" using less(1)[OF _ c'(1), of out'] by simp
      then show ?thesis unfolding back_loop_round[OF r] using False by simp
    qed
  qed
qed

text \<open>With everything verified the sweep goes round for ever.\<close>

definition all_swept :: "AuditStore \<Rightarrow> string \<Rightarrow> History \<Rightarrow> int \<Rightarrow> int list \<times> cursors \<Rightarrow> bool" where
  "all_swept s origin h n = (\<lambda>(out, c). int (length out) < n \<and> hiFrom h < cuFwd c
     \<and> (\<forall>e. hiFrom h \<le> e \<and> (e < cuFwd c \<or> e < cuBack c) \<longrightarrow> is_verified origin s e))"

lemma all_swept_round:
  assumes ok: "audits_ok s" and inv: "all_swept s origin h n (out, c)"
    and r: "back_round s origin h n (out, c) = (b, out', c')"
  shows "\<not> b \<and> all_swept s origin h n (out', c')"
proof -
  define d where "d = round_start h c"
  have len: "int (length out) < n" using inv by (simp add: all_swept_def)
  have db: "hiFrom h < cuBack d"
    using inv by (auto simp: d_def round_start_rest all_swept_def)
  note fl = window_floor_less[OF db] and at = round_start_at[OF db[unfolded d_def], folded d_def]
  obtain es where es: "out' = out @ es" "\<forall>e \<in> set es. cuAt d \<le> e \<and> e < cuBack d \<and> \<not> is_verified origin s e"
    "cuFwd c' = cuFwd c" "b \<longrightarrow> int (length out') = n" "\<not> b \<longrightarrow> cuBack c' = window_floor h d"
    using back_round_cases[OF ok len d_def r] db by auto
  have ver: "is_verified origin s e" if "hiFrom h \<le> e" "e < cuBack d" for e
    using inv that by (auto simp: d_def round_start_rest all_swept_def split: if_splits)
  have "es = []"
  proof (cases es)
    case (Cons e es')
    then have "cuAt d \<le> e" "e < cuBack d" "\<not> is_verified origin s e" using es(2) by auto
    then show ?thesis using ver[of e] fl at by linarith
  qed simp
  then have nb: "\<not> b" "out' = out" using es(1,4) len by auto
  moreover have "is_verified origin s e" if "hiFrom h \<le> e" "e < cuBack c'" for e
    using ver that es(5) nb(1) fl by simp
  ultimately show ?thesis using inv es(3) by (auto simp: all_swept_def)
qed

lemma back_loop_hangs:
  "back_loop s origin h n st = Some y \<Longrightarrow> audits_ok s \<Longrightarrow> \<not> all_swept s origin h n st"
proof (induction s origin h n st y rule: back_loop.raw_induct[rotated, consumes 1, case_names round])
  case (round loop s origin h n st y)
  show ?case
  proof
    assume inv: "all_swept s origin h n st"
    obtain out c where st: "st = (out, c)" by (cases st)
    obtain b out' c' where r: "back_round s origin h n (out, c) = (b, out', c')" using prod_cases3 by blast
    have next_state: "\<not> b" "all_swept s origin h n (out', c')"
      using all_swept_round[OF round(3) inv[unfolded st] r] by auto
    then have "loop s origin h n (out', c') = Some y" using round(2) r st by simp
    then show False using round(1) round(3) next_state(2) by blast
  qed
qed

text \<open>What a sweep that returns has collected.\<close>

lemma back_loop_result:
  "back_loop s origin h n st = Some y \<Longrightarrow> audits_ok s \<Longrightarrow> int (length (fst st)) \<le> n \<Longrightarrow>
    \<exists>es. fst y = fst st @ es \<and> int (length (fst y)) \<le> n \<and> cuFwd (snd y) = cuFwd (snd st)
      \<and> (\<forall>e \<in> set es. hiFrom h \<le> e \<and> (e < cuFwd (snd st) \<or> e < cuBack (snd st)) \<and> \<not> is_verified origin s e)
      \<and> (hiFrom h < cuFwd (snd st) \<longrightarrow> int (length (fst y)) = n)"
proof (induction s origin h n st y rule: back_loop.raw_induct[rotated, consumes 1, case_names round])
  case (round loop s origin h n st y)
  obtain out c where st: "st = (out, c)" by (cases st)
  obtain b out' c' where r: "back_round s origin h n (out, c) = (b, out', c')" using prod_cases3 by blast
  show ?case
  proof (cases "int (length out) < n")
    case False
    then have "y = (out, c)" using round(2) back_round_full[OF False] by (simp add: st)
    then show ?thesis using False round(4) st by (intro exI[of _ "[]"]) simp
  next
    case True
    define d where "d = round_start h c"
    note cs = back_round_cases[OF round(3) True d_def r]
    have bd: "cuBack d = (if cuBack c \<le> hiFrom h then cuFwd c else cuBack c)" by (simp add: d_def round_start_rest)
    show ?thesis
    proof (cases "cuBack d \<le> hiFrom h")
      case True
      then have b: "b" "out' = out" using cs by auto
      then have "y = (out', c')" using round(2) r st by simp
      moreover have "\<not> hiFrom h < cuFwd c" using True bd by (auto split: if_splits)
      moreover have "cuFwd c' = cuFwd c"
        using r True bd by (auto simp: back_round_def Let_def split: if_splits prod.splits)
      ultimately show ?thesis using b(2) st round(4) by simp
    next
      case False
      then have db: "hiFrom h < cuBack d" by simp
      note fl = window_floor_less[OF db] and at = round_start_at[OF db[unfolded d_def], folded d_def]
      obtain es where es: "out' = out @ es" "\<forall>e \<in> set es. cuAt d \<le> e \<and> e < cuBack d \<and> \<not> is_verified origin s e"
        "int (length out') \<le> n" "cuFwd c' = cuFwd c" "b \<longrightarrow> int (length out') = n" "\<not> b \<longrightarrow> cuBack c' = window_floor h d"
        using cs[unfolded if_not_P[OF False]] by blast
      have es_ok: "\<forall>e \<in> set es. hiFrom h \<le> e \<and> (e < cuFwd c \<or> e < cuBack c) \<and> \<not> is_verified origin s e"
        using es(2) fl at bd by (auto split: if_splits)
      show ?thesis
      proof (cases b)
        case True
        then have "y = (out', c')" using round(2) r st by simp
        then show ?thesis using True es es_ok st by (intro exI[of _ es]) simp
      next
        case False
        then have "loop s origin h n (out', c') = Some y" using round(2) r st by simp
        then obtain es' where es': "fst y = out' @ es'" "int (length (fst y)) \<le> n" "cuFwd (snd y) = cuFwd c'"
          "\<forall>e \<in> set es'. hiFrom h \<le> e \<and> (e < cuFwd c' \<or> e < cuBack c') \<and> \<not> is_verified origin s e"
          "hiFrom h < cuFwd c' \<longrightarrow> int (length (fst y)) = n"
          using round(1)[of s origin h n "(out', c')" y] round(3) es(3) by auto
        have "cuBack c' < cuFwd c \<or> cuBack c' < cuBack c" using es(6) False fl bd by (auto split: if_splits)
        then have "\<forall>e \<in> set es'. hiFrom h \<le> e \<and> (e < cuFwd c \<or> e < cuBack c) \<and> \<not> is_verified origin s e"
          using es'(4) es(4) by fastforce
        then show ?thesis using es' es es_ok st by (intro exI[of _ "es @ es'"]) auto
      qed
    qed
  qed
qed

subsection \<open>Properties\<close>

text \<open>
C18. The sweep over old history returns exactly when it is asked for nothing, there is no
  history below the tip cursor, or an epoch below the tip cursor is unverified; then all it
  offers is unverified and as long as asked for. With everything below the tip verified it
  never returns.
\<close>

theorem backward_returns_iff:
  assumes "audits_ok s" "0 \<le> hiFrom h" "cuBack c \<le> cuFwd c"
  shows "case backward s origin h n c of
      None \<Rightarrow> 0 < n \<and> hiFrom h < cuFwd c \<and> (\<forall>e. hiFrom h \<le> e \<and> e < cuFwd c \<longrightarrow> is_verified origin s e)
    | Some (out, c') \<Rightarrow>
        (n \<le> 0 \<or> cuFwd c \<le> hiFrom h \<or> (\<exists>e. hiFrom h \<le> e \<and> e < cuFwd c \<and> \<not> is_verified origin s e))
        \<and> (\<forall>e \<in> set out. hiFrom h \<le> e \<and> e < cuFwd c \<and> \<not> is_verified origin s e)
        \<and> (0 < n \<and> hiFrom h < cuFwd c \<longrightarrow> int (length out) = n) \<and> cuFwd c' = cuFwd c"
proof (cases "n \<le> 0")
  case True
  then show ?thesis by (simp add: backward_def)
next
  case False
  then have b: "backward s origin h n c = back_loop s origin h n ([], c)" by (simp add: backward_def)
  show ?thesis
  proof (cases "back_loop s origin h n ([], c)")
    case None
    have f: "hiFrom h < cuFwd c"
    proof (rule ccontr)
      assume "\<not> hiFrom h < cuFwd c"
      then have "\<exists>r. back_loop s origin h n ([], c) = Some r"
        by (intro back_loop_returns_empty[OF assms(1), of "cuFwd c"]) auto
      then show False using None by simp
    qed
    have "is_verified origin s e" if e: "hiFrom h \<le> e" "e < cuFwd c" for e
    proof (rule ccontr)
      assume ne: "\<not> is_verified origin s e"
      note al = back_loop_returns_aligned[OF assms(1,2) e ne]
      have "\<exists>r. back_loop s origin h n ([], c) = Some r"
        by (rule back_loop_after_round[OF assms(1) al refl])
      then show False using None by simp
    qed
    then show ?thesis using False f None b by simp
  next
    case (Some y)
    obtain out c' where y: "y = (out, c')" by (cases y)
    have "\<not> all_swept s origin h n ([], c)" by (rule back_loop_hangs[OF Some assms(1)])
    then have "n \<le> 0 \<or> cuFwd c \<le> hiFrom h \<or> (\<exists>e. hiFrom h \<le> e \<and> e < cuFwd c \<and> \<not> is_verified origin s e)"
      using assms(3) by (fastforce simp: all_swept_def)
    moreover obtain es where "out = es" "cuFwd c' = cuFwd c"
      "\<forall>e \<in> set es. hiFrom h \<le> e \<and> (e < cuFwd c \<or> e < cuBack c) \<and> \<not> is_verified origin s e"
      "hiFrom h < cuFwd c \<longrightarrow> int (length out) = n"
      using back_loop_result[OF Some assms(1)] False y by auto
    ultimately show ?thesis using assms(3) Some b y by fastforce
  qed
qed

lemma holes_scan_unverified:
  "set (holes_scan from till now limit b out) \<subseteq>
     set out \<union> (\<lambda>x. auEpoch (snd x)) ` {x \<in> set b. from \<le> auEpoch (snd x) \<and> auEpoch (snd x) \<le> till \<and> \<not> auVerified (snd x)
       \<and> MaxFetchAttempts \<le> auAttempts (snd x)}"
proof (induction b arbitrary: out)
  case (Cons x b)
  obtain k a where x: "x = (k, a)" by (cases x)
  let ?D = "\<lambda>b. (\<lambda>x. auEpoch (snd x)) ` {x \<in> set b. from \<le> auEpoch (snd x) \<and> auEpoch (snd x) \<le> till \<and> \<not> auVerified (snd x)
       \<and> MaxFetchAttempts \<le> auAttempts (snd x)}"
  have sub: "?D b \<subseteq> ?D (x # b)" by auto
  show ?case
  proof (cases "int (length out) \<ge> limit \<or> auVerified a \<or> auEpoch a < from \<or> auEpoch a > till
      \<or> auAttempts a < MaxFetchAttempts \<or> (case auRetryAfter a of None \<Rightarrow> False | Some t \<Rightarrow> now < t)")
    case True
    then have "holes_scan from till now limit (x # b) out \<in> {out, holes_scan from till now limit b out}"
      by (auto simp: x)
    then show ?thesis using Cons[of out] sub by auto
  next
    case False
    then have "holes_scan from till now limit (x # b) out = holes_scan from till now limit b (out @ [auEpoch a])"
      by (simp add: x)
    moreover have "auEpoch a \<in> ?D (x # b)" using False by (force simp: x)
    ultimately show ?thesis using Cons[of "out @ [auEpoch a]"] sub by auto
  qed
qed simp

lemma HolesDue_unverified:
  assumes ok: "audits_ok s" and e: "e \<in> set (HolesDue origin from till now limit s)"
  shows "from \<le> e \<and> e \<le> till \<and> \<not> is_verified origin s e
       \<and> (\<exists>a. GetAudit origin e s = Some a \<and> MaxFetchAttempts \<le> auAttempts a)"
proof -
  obtain x where x: "x \<in> set (audits s origin)" "auEpoch (snd x) = e" "from \<le> e" "e \<le> till" "\<not> auVerified (snd x)"
    "MaxFetchAttempts \<le> auAttempts (snd x)"
    using holes_scan_unverified[of "from" till now limit "audits s origin" "[]"] e by (auto simp: HolesDue_def)
  have o': "in_order (audits s origin)" "\<forall>x \<in> set (audits s origin). auEpoch (snd x) = fst x"
    using ok by (auto simp: audits_ok_def)
  have "fst x = e" using o'(2) x(1,2) by simp
  moreover have "distinct (map fst (audits s origin))"
    using o'(1) by (simp add: in_order_def strict_sorted_iff)
  ultimately have "map_of (audits s origin) e = Some (snd x)" using x(1) by (metis map_of_is_SomeI prod.collapse)
  then show ?thesis using x by (simp add: is_verified_def GetAudit_def)
qed

lemma forward_caught_up:
  assumes ok: "audits_ok s" and v: "\<forall>e. cuFwd c \<le> e \<and> e \<le> hiTo h \<longrightarrow> is_verified origin s e" and n: "0 < n"
  shows "forward s origin h n c = ([], if cuFwd c \<le> hiTo h then c\<lparr>cuFwd := hiTo h\<rparr> else c)"
proof (cases "cuFwd c \<le> hiTo h")
  case True
  have "FirstUnverified origin (cuFwd c) (hiTo h) s = None"
    using FirstUnverified_spec[OF ok, of "cuFwd c" "hiTo h" origin] v by (auto split: option.splits)
  then show ?thesis using True n unfolding forward_def by (subst forward_loop.simps) simp
next
  case False
  then show ?thesis unfolding forward_def by (subst forward_loop.simps) simp
qed

text \<open>
C38. A pass of the generator over a log whose published history is all verified, with room
  for downloads, never returns.
\<close>

theorem caught_up_pass_hangs:
  assumes ok: "audits_ok s" and h: "histories s origin = Some h" "hiFrom h < hiTo h"
    and v: "\<forall>e. hiFrom h \<le> e \<and> e \<le> hiTo h \<longrightarrow> is_verified origin s e" and room: "0 < room"
    and c: "hiFrom h \<le> cuFwd (cursors_init s origin h c)" "cuFwd (cursors_init s origin h c) \<le> hiTo h + 1"
      "cuBack (cursors_init s origin h c) \<le> hiTo h + 1"
  shows "fillMore now origin room s c = None"
proof -
  define d where "d = cursors_init s origin h c"
  define d' where "d' = (if cuFwd d \<le> hiTo h then d\<lparr>cuFwd := hiTo h\<rparr> else d)"
  have holes: "HolesDue origin (hiFrom h) (hiTo h) now limit s = []" for limit
    using HolesDue_unverified[OF ok, of _ origin "hiFrom h" "hiTo h" now limit] v by (cases "HolesDue origin (hiFrom h) (hiTo h) now limit s") auto
  have f: "forward s origin h room d = ([], d')"
    using forward_caught_up[OF ok _ room, of d h origin] v c(1) unfolding d'_def d_def by force
  have "all_swept s origin h room ([], d')"
    using room h(2) c v by (auto simp: all_swept_def d'_def d_def[symmetric])
  then have "back_loop s origin h room ([], d') = None"
    using back_loop_hangs[OF _ ok] by (cases "back_loop s origin h room ([], d')") blast+
  then have b: "backward s origin h room d' = None" using room by (simp add: backward_def)
  show ?thesis
    using h room f b by (simp add: fillMore_def Let_def d_def[symmetric] holes)
qed

subsection \<open>Witnesses\<close>

definition short_window :: History where "short_window = (window 0)\<lparr>hiTo := 2\<rparr>"

definition cursors_at :: "int \<Rightarrow> cursors" where
  "cursors_at e = \<lparr>cuFwd = e, cuBack = e, cuReady = True, cuAt = 0, cuStride = 2\<rparr>"

definition caught_up :: AuditStore where "caught_up = RecordHistory short_window audited"

lemma audited_verified: "is_verified ''log'' audited 0" "is_verified ''log'' audited 1" "is_verified ''log'' audited 2"
  "\<not> is_verified ''log'' audited 3" "\<not> is_verified ''log'' audited 4" "is_verified ''log'' audited 5"
  by code_simp+

lemma caught_up_audits: "audits caught_up = audits audited"
  by (simp add: caught_up_def RecordHistory_def Let_def)

lemma caught_up_ok: "audits_ok caught_up" "is_verified q caught_up e = is_verified q audited e"
  using audited_ok by (simp_all add: audits_ok_def caught_up_audits is_verified_def GetAudit_def)

text \<open>Three verified epochs below the cursor: no return.  Two open ones below it: four are delivered.\<close>

theorem backward_returns_iff_witness:
  "backward audited ''log'' (window 0) 4 (cursors_at 3) = None
   \<and> (\<exists>out c'. backward audited ''log'' (window 0) 4 (cursors_at 6) = Some (out, c') \<and> length out = 4 \<and> set out \<subseteq> {3, 4})"
proof
  have w: "hiFrom (window 0) = 0" "cuFwd (cursors_at e) = e" "cuBack (cursors_at e) = e" for e
    by (simp_all add: window_def cursors_at_def)
  have low: "is_verified ''log'' audited e" if "0 \<le> e" "e < 3" for e
  proof -
    have "e = 0 \<or> e = 1 \<or> e = 2" using that by presburger
    then show ?thesis using audited_verified by auto
  qed
  show "backward audited ''log'' (window 0) 4 (cursors_at 3) = None"
    using backward_returns_iff[OF audited_ok, where h = "window 0" and c = "cursors_at 3" and origin = "''log''" and n = 4] low w
    by (auto split: option.splits)
  have high: "e = 3 \<or> e = 4" if "0 \<le> e" "e < 6" "\<not> is_verified ''log'' audited e" for e
  proof -
    have "e < 3 \<or> e = 3 \<or> e = 4 \<or> e = 5" using that by presburger
    then show ?thesis using that low audited_verified by auto
  qed
  have ex: "\<exists>e. 0 \<le> e \<and> e < 6 \<and> \<not> is_verified ''log'' audited e" using audited_verified(4) by (intro exI[of _ 3]) simp
  show "\<exists>out c'. backward audited ''log'' (window 0) 4 (cursors_at 6) = Some (out, c') \<and> length out = 4 \<and> set out \<subseteq> {3, 4}"
  proof (cases "backward audited ''log'' (window 0) 4 (cursors_at 6)")
    case None
    then show ?thesis
      using backward_returns_iff[OF audited_ok, where h = "window 0" and c = "cursors_at 6" and origin = "''log''" and n = 4]
        ex w by simp blast
  next
    case (Some y)
    obtain out c' where y: "y = (out, c')" by (cases y)
    then have "\<forall>e \<in> set out. 0 \<le> e \<and> e < 6 \<and> \<not> is_verified ''log'' audited e" "length out = 4"
      using backward_returns_iff[OF audited_ok, where h = "window 0" and c = "cursors_at 6" and origin = "''log''" and n = 4]
        w Some by simp_all
    then show ?thesis using high Some y by blast
  qed
qed

theorem caught_up_pass_hangs_witness: "fillMore 0 ''log'' 16 caught_up (cursors_at 3) = None"
proof (rule caught_up_pass_hangs[OF caught_up_ok(1)])
  show "histories caught_up ''log'' = Some (short_window\<lparr>hiEverFrom := 0, hiFirstSeen := Some 1\<rparr>)"
    by code_simp
  have c: "cursors_init caught_up ''log'' h (cursors_at 3) = cursors_at 3" for h
    by (simp add: cursors_init_def cursors_at_def)
  show "\<forall>e. hiFrom (short_window\<lparr>hiEverFrom := 0, hiFirstSeen := Some 1\<rparr>) \<le> e
      \<and> e \<le> hiTo (short_window\<lparr>hiEverFrom := 0, hiFirstSeen := Some 1\<rparr>) \<longrightarrow> is_verified ''log'' caught_up e"
  proof (intro allI impI)
    fix e assume "hiFrom (short_window\<lparr>hiEverFrom := 0, hiFirstSeen := Some 1\<rparr>) \<le> e
      \<and> e \<le> hiTo (short_window\<lparr>hiEverFrom := 0, hiFirstSeen := Some 1\<rparr>)"
    then have "e = 0 \<or> e = 1 \<or> e = 2" unfolding short_window_def window_def by (simp; presburger)
    then show "is_verified ''log'' caught_up e" unfolding caught_up_ok(2) using audited_verified by auto
  qed
qed (simp_all add: short_window_def window_def cursors_init_def cursors_at_def)

end
