(* ===== verification/Worker_Results.thy ===== *)
theory Worker_Results
  imports Proof_Server Work_Generator
begin

text \<open>
  What the witness does with a worker's answer: \<open>recordWorkerResult\<close> and \<open>resolvePublished\<close>
  (\<open>cmd/kt-witness/work.go\<close>), the acceptance that precedes them for a remote worker
  (\<open>internal/workrpc/server.go\<close>) and for the witness's own (\<open>localworker.go\<close>).  The queue, the
  proof cache, the proof server, the audit records and the head store are the models of their
  own theories; the operator's listing, which resolves an epoch to its published roots, is an
  argument.  The records of the store do not fail.
\<close>

record EpochRef =
  LogDirectory :: string
  PrevRoot :: string
  CurrRoot :: string

type_synonym resolvers = "(string \<times> (int \<Rightarrow> EpochRef option)) list"

text \<open>None: no resolver for the origin, or it cannot resolve the epoch.\<close>

fun resolvePublished :: "resolvers \<Rightarrow> string \<Rightarrow> int \<Rightarrow> EpochRef option" where
  "resolvePublished [] origin epoch = None"
| "resolvePublished ((o', f) # rs) origin epoch =
     (if o' = origin then f epoch else resolvePublished rs origin epoch)"

record System =
  sysQueue :: Queue
  sysCache :: Prefetcher
  sysProofs :: "ProofServer option"
  sysAudits :: AuditStore
  sysStore :: Store

text \<open>What was made of a result: the branches of \<open>recordWorkerResult\<close>, by what they log and count.\<close>

datatype verdict =
    CanaryCaught string
  | CanaryMissed string
  | Unavailable int bool
  | Unresolved
  | RemoteMismatch string
  | ConstructionFailed
  | Verified string

definition worker_audit :: "Result \<Rightarrow> int \<Rightarrow> bool \<Rightarrow> int \<Rightarrow> int option \<Rightarrow> Audit" where
  "worker_audit r now ok n again =
     \<lparr>auOrigin = rsOrigin r, auEpoch = rsEpoch r, auSampled = True, auRate = 0x3FF0000000000000,
      auBeaconRound = 0, auBeaconSig = [], auBeaconRandom = [], auStrategy = ''worker:'' @ rsWorker r,
      auVerified = ok, auAttempts = n, auRetryAfter = again, auKind = [], auError = [], auDurationMS = 0,
      auBytes = 0, auDecidedAt = now\<rparr>"

definition construction_fork :: "Result \<Rightarrow> int \<Rightarrow> Fork" where
  "construction_fork r now =
     \<lparr>fkOrigin = rsOrigin r,
      fkReason = ''construction audit failed at epoch '' @ dec_int (rsEpoch r)
        @ '': the published proof does not reconstruct the published root'',
      fkDetectedAt = now, fkPrevSigned = [], fkNextSigned = []\<rparr>"

definition reschedule_in :: "int \<Rightarrow> Result \<Rightarrow> System \<Rightarrow> (int \<times> bool) \<times> System" where
  "reschedule_in now r s =
     (let (again, q) = Reschedule now (rsOrigin r) (rsEpoch r) (sysQueue s) in (again, s\<lparr>sysQueue := q\<rparr>))"

definition record_in :: "Audit \<Rightarrow> System \<Rightarrow> System" where
  "record_in a s = s\<lparr>sysAudits := RecordAudit a (sysAudits s)\<rparr>"

definition matches :: "EpochRef \<Rightarrow> Result \<Rightarrow> bool" where
  "matches ref r \<longleftrightarrow> rsComputedPrev r = PrevRoot ref \<and> rsComputedCurr r = CurrRoot ref"

text \<open>The check that comes first: the local worker passes no proof server.\<close>

definition take_canary :: "bool \<Rightarrow> Result \<Rightarrow> System \<Rightarrow> bool \<times> System" where
  "take_canary loc r s =
     (case (if loc then None else sysProofs s) of
        None \<Rightarrow> (False, s)
      | Some p \<Rightarrow> (let (was, p) = WasCanary (rsOrigin r) (rsEpoch r) p in (was, s\<lparr>sysProofs := Some p\<rparr>)))"

definition recordWorkerResult ::
  "(bytes \<Rightarrow> bytes) \<Rightarrow> int \<Rightarrow> resolvers \<Rightarrow> Result \<Rightarrow> bool \<Rightarrow> System \<Rightarrow> verdict \<times> System" where
  "recordWorkerResult sha now rs r loc s =
     (let (was, s) = take_canary loc r s;
          ref = resolvePublished rs (rsOrigin r) (rsEpoch r)
      in if was then
           (let caught = (rsErr r \<noteq> [] \<or> (case ref of None \<Rightarrow> True | Some f \<Rightarrow> \<not> matches f r));
                (_, s) = reschedule_in now r s
            in (if caught then CanaryCaught (rsWorker r) else CanaryMissed (rsWorker r), s))
         else if rsErr r \<noteq> [] then
           (let ((n, again), s) = reschedule_in now r s
            in (Unavailable n again, record_in (worker_audit r now False n (RetryAt now n)) s))
         else case ref of
                None \<Rightarrow> (let (_, s) = reschedule_in now r s in (Unresolved, s))
              | Some f \<Rightarrow>
                  if \<not> matches f r then
                    (if \<not> loc
                     then (let (_, s) = reschedule_in now r s
                           in (RemoteMismatch (rsWorker r), record_in (worker_audit r now False 1 None) s))
                     else (let s = s\<lparr>sysStore := RecordFork (construction_fork r now) (sysStore s)\<rparr>
                           in (ConstructionFailed, record_in (worker_audit r now False 1 None) s)))
                  else (let s = s\<lparr>sysCache := Release sha (rsOrigin r) (rsEpoch r) (sysCache s)\<rparr>
                        in (Verified (rsWorker r), record_in (worker_audit r now True 1 None) s)))"

text \<open>
  \<open>handleResult\<close> and the local \<open>Report\<close>: a result that the queue does not accept goes no
  further.  The name is the one of the session, never one the result carries.
\<close>

definition handleResult ::
  "(bytes \<Rightarrow> bytes) \<Rightarrow> int \<Rightarrow> resolvers \<Rightarrow> string \<Rightarrow> Result \<Rightarrow> bool \<Rightarrow> System
     \<Rightarrow> (work_error + verdict) \<times> System" where
  "handleResult sha now rs worker r loc s =
     (let r = r\<lparr>rsWorker := worker, rsVerified := False\<rparr>;
          (ok, q) = Accept now r (sysQueue s);
          s = s\<lparr>sysQueue := q\<rparr>
      in case ok of
           Inl e \<Rightarrow> (Inl e, s)
         | Inr _ \<Rightarrow> (let (v, s) = recordWorkerResult sha now rs r loc s in (Inr v, s)))"

subsection \<open>One result\<close>

lemma map_of_drop: "in_order b \<Longrightarrow> map_of (drop n b) e = Some x \<Longrightarrow> map_of b e = Some x"
  using in_order_distinct[of b] by (auto dest!: map_of_SomeD in_set_dropD)

text \<open>A record makes at most its own epoch verified; the retention cap can only forget.\<close>

lemma RecordAudit_verified:
  assumes "audits_ok s" "is_verified q (RecordAudit a s) e"
  shows "(q = auOrigin a \<and> e = auEpoch a \<and> auVerified a) \<or> is_verified q s e"
proof (cases "q = auOrigin a")
  case False
  then show ?thesis using assms(2) by (simp add: is_verified_def GetAudit_def audits_RecordAudit)
next
  case True
  let ?b = "kput (auEpoch a) a (audits s q)"
  have o': "in_order (audits s q)" "in_order ?b" using assms(1) by (auto simp: audits_ok_def kput_in_order)
  obtain x where x: "map_of (audits (RecordAudit a s) q) e = Some x" "auVerified x"
    using assms(2) by (auto simp: is_verified_def GetAudit_def split: option.splits)
  have "map_of ?b e = Some x"
    using x(1) True o'(2) by (auto simp: audits_RecordAudit Let_def map_of_drop split: if_splits)
  then have "(if e = auEpoch a then Some a else map_of (audits s q) e) = Some x"
    by (simp add: map_of_kput[OF o'(1)])
  then show ?thesis using x(2) True by (auto simp: is_verified_def GetAudit_def split: if_splits)
qed

lemma reschedule_in_rest:
  "reschedule_in now r s = (n, s') \<Longrightarrow> sysAudits s' = sysAudits s \<and> sysStore s' = sysStore s \<and> sysCache s' = sysCache s
     \<and> sysProofs s' = sysProofs s"
  by (auto simp: reschedule_in_def Let_def split: prod.splits)

lemma take_canary_rest:
  "take_canary loc r s = (b, s') \<Longrightarrow> sysAudits s' = sysAudits s \<and> sysStore s' = sysStore s \<and> sysCache s' = sysCache s
     \<and> sysQueue s' = sysQueue s \<and> (loc \<longrightarrow> \<not> b \<and> s' = s)"
  by (auto simp: take_canary_def Let_def split: option.splits prod.splits if_splits)

text \<open>The branches, each with what it says about the result and what it leaves.\<close>

lemma record_cases:
  assumes "recordWorkerResult sha now rs r loc s = (v, s')"
  shows "case v of
      CanaryCaught w \<Rightarrow> \<not> loc \<and> fst (take_canary loc r s) \<and> w = rsWorker r
        \<and> (\<forall>f. resolvePublished rs (rsOrigin r) (rsEpoch r) = Some f \<and> rsErr r = [] \<longrightarrow> \<not> matches f r)
        \<and> sysAudits s' = sysAudits s \<and> sysStore s' = sysStore s \<and> sysCache s' = sysCache s
    | CanaryMissed w \<Rightarrow> \<not> loc \<and> fst (take_canary loc r s) \<and> w = rsWorker r
        \<and> rsErr r = [] \<and> (\<exists>f. resolvePublished rs (rsOrigin r) (rsEpoch r) = Some f \<and> matches f r)
        \<and> sysAudits s' = sysAudits s \<and> sysStore s' = sysStore s \<and> sysCache s' = sysCache s
    | Unavailable n again \<Rightarrow> \<not> fst (take_canary loc r s) \<and> rsErr r \<noteq> []
        \<and> sysAudits s' = RecordAudit (worker_audit r now False n (RetryAt now n)) (sysAudits s)
        \<and> sysStore s' = sysStore s \<and> sysCache s' = sysCache s
    | Unresolved \<Rightarrow> \<not> fst (take_canary loc r s) \<and> rsErr r = []
        \<and> resolvePublished rs (rsOrigin r) (rsEpoch r) = None
        \<and> sysAudits s' = sysAudits s \<and> sysStore s' = sysStore s \<and> sysCache s' = sysCache s
    | RemoteMismatch w \<Rightarrow> \<not> loc \<and> \<not> fst (take_canary loc r s) \<and> rsErr r = []
        \<and> (\<exists>f. resolvePublished rs (rsOrigin r) (rsEpoch r) = Some f \<and> \<not> matches f r)
        \<and> sysAudits s' = RecordAudit (worker_audit r now False 1 None) (sysAudits s)
        \<and> sysStore s' = sysStore s \<and> sysCache s' = sysCache s
    | ConstructionFailed \<Rightarrow> loc \<and> rsErr r = []
        \<and> (\<exists>f. resolvePublished rs (rsOrigin r) (rsEpoch r) = Some f \<and> \<not> matches f r)
        \<and> sysAudits s' = RecordAudit (worker_audit r now False 1 None) (sysAudits s)
        \<and> sysStore s' = RecordFork (construction_fork r now) (sysStore s) \<and> sysCache s' = sysCache s
    | Verified w \<Rightarrow> \<not> fst (take_canary loc r s) \<and> rsErr r = [] \<and> w = rsWorker r
        \<and> (\<exists>f. resolvePublished rs (rsOrigin r) (rsEpoch r) = Some f \<and> matches f r)
        \<and> sysAudits s' = RecordAudit (worker_audit r now True 1 None) (sysAudits s)
        \<and> sysStore s' = sysStore s \<and> sysCache s' = Release sha (rsOrigin r) (rsEpoch r) (sysCache s)"
proof -
  obtain was s1 where t: "take_canary loc r s = (was, s1)" by fastforce
  note tr = take_canary_rest[OF t]
  obtain n again s2 where re: "reschedule_in now r s1 = ((n, again), s2)" using prod_cases3 by (metis surj_pair)
  note rr = reschedule_in_rest[OF re]
  show ?thesis
  proof (cases was)
    case True
    then show ?thesis using assms tr rr t re
      by (auto simp: recordWorkerResult_def Let_def split: if_splits option.splits)
  next
    case nw: False
    show ?thesis
    proof (cases "rsErr r = []")
      case False
      then show ?thesis using assms tr rr t re nw
        by (auto simp: recordWorkerResult_def record_in_def)
    next
      case ok: True
      show ?thesis
      proof (cases "resolvePublished rs (rsOrigin r) (rsEpoch r)")
        case None
        then show ?thesis using assms tr rr t re nw ok by (auto simp: recordWorkerResult_def)
      next
        case (Some f)
        then show ?thesis using assms tr rr t re nw ok
          by (cases "matches f r"; cases loc) (auto simp: recordWorkerResult_def record_in_def Let_def)
      qed
    qed
  qed
qed

subsection \<open>Whole runs\<close>

text \<open>
  A run of the work channel: results in any order, from any workers and with any listing at the
  time, and between them any steps of the queue, the cache, the generator and the proof server,
  which touch neither the audit records nor the head store.  The history names each result as
  it was taken, with the proof server as it then stood and the verdict on it.  Accepting a result
  and recording it are one step here; in the program other sessions run between the two, but
  what is recorded depends on the result, the listing and the canaries only.
\<close>

type_synonym handled = "resolvers \<times> Result \<times> bool \<times> ProofServer option \<times> (work_error + verdict)"

definition outstanding :: "ProofServer option \<Rightarrow> string \<Rightarrow> int \<Rightarrow> bool" where
  "outstanding ps o' e \<longleftrightarrow> (case ps of None \<Rightarrow> False | Some p \<Rightarrow> canary_key o' e \<in> dom (canaries p))"

inductive work_run :: "(bytes \<Rightarrow> bytes) \<Rightarrow> System \<Rightarrow> handled list \<Rightarrow> bool" for sha :: "bytes \<Rightarrow> bytes" where
  start: "\<lbrakk>audits_ok (sysAudits s); \<forall>o' e. \<not> is_verified o' (sysAudits s) e; poisoned (sysStore s) = Map.empty\<rbrakk>
    \<Longrightarrow> work_run sha s []"
| result: "\<lbrakk>work_run sha s hist; handleResult sha now rs worker r loc s = (v, s')\<rbrakk>
    \<Longrightarrow> work_run sha s' ((rs, r\<lparr>rsWorker := worker, rsVerified := False\<rparr>, loc, sysProofs s, v) # hist)"
| between: "\<lbrakk>work_run sha s hist; sysAudits s' = sysAudits s; sysStore s' = sysStore s\<rbrakk> \<Longrightarrow> work_run sha s' hist"

definition vouched :: "handled list \<Rightarrow> string \<Rightarrow> int \<Rightarrow> bool" where
  "vouched hist o' e \<longleftrightarrow>
     (\<exists>(rs, r, loc, ps, v) \<in> set hist. rsOrigin r = o' \<and> rsEpoch r = e \<and> rsErr r = [] \<and> v = Inr (Verified (rsWorker r))
        \<and> (loc \<or> \<not> outstanding ps o' e) \<and> (\<exists>f. resolvePublished rs o' e = Some f \<and> matches f r))"

definition accused :: "handled list \<Rightarrow> string \<Rightarrow> bool" where
  "accused hist o' \<longleftrightarrow>
     (\<exists>(rs, r, loc, ps, v) \<in> set hist. loc \<and> rsOrigin r = o' \<and> rsErr r = [] \<and> v = Inr ConstructionFailed
        \<and> (\<exists>f. resolvePublished rs o' (rsEpoch r) = Some f \<and> \<not> matches f r))"

lemma vouched_Cons: "vouched hist o' e \<Longrightarrow> vouched (h # hist) o' e" by (auto simp: vouched_def)

lemma accused_Cons: "accused hist o' \<Longrightarrow> accused (h # hist) o'" by (auto simp: accused_def)

lemma handle_cases:
  assumes "handleResult sha now rs worker r loc s = (v, s')"
  shows "(\<exists>e. v = Inl e \<and> sysAudits s' = sysAudits s \<and> sysStore s' = sysStore s)
    \<or> (\<exists>u q. v = Inr u \<and> recordWorkerResult sha now rs (r\<lparr>rsWorker := worker, rsVerified := False\<rparr>) loc
         (s\<lparr>sysQueue := q\<rparr>) = (u, s'))"
  using assms by (auto simp: handleResult_def Let_def split: prod.splits sum.splits)

lemma worker_audit_sel [simp]:
  "auOrigin (worker_audit r now ok n t) = rsOrigin r" "auEpoch (worker_audit r now ok n t) = rsEpoch r"
  "auVerified (worker_audit r now ok n t) = ok" "auAttempts (worker_audit r now ok n t) = n"
  by (simp_all add: worker_audit_def)

lemma construction_fork_origin [simp]: "fkOrigin (construction_fork r now) = rsOrigin r"
  by (simp add: construction_fork_def)

lemma RecordFork_poisons:
  "poisoned (RecordFork f s) o' \<noteq> None \<Longrightarrow> o' = fkOrigin f \<or> poisoned s o' \<noteq> None"
  by (auto simp: RecordFork_def split: if_splits)

lemma take_canary_outstanding:
  "fst (take_canary loc r s) \<longleftrightarrow> \<not> loc \<and> outstanding (sysProofs s) (rsOrigin r) (rsEpoch r)"
  by (auto simp: take_canary_def outstanding_def WasCanary_def Let_def split: option.splits)

lemma run_invariant:
  assumes "work_run sha s hist"
  shows "audits_ok (sysAudits s) \<and> (\<forall>o' e. is_verified o' (sysAudits s) e \<longrightarrow> vouched hist o' e)
       \<and> (\<forall>o'. poisoned (sysStore s) o' \<noteq> None \<longrightarrow> accused hist o')"
  using assms
proof (induction rule: work_run.induct)
  case (start s)
  then show ?case by simp
next
  case (between s hist s')
  then show ?case by simp
next
  case (result s hist now rs worker r loc v s')
  let ?r = "r\<lparr>rsWorker := worker, rsVerified := False\<rparr>" and ?h = "(rs, r\<lparr>rsWorker := worker, rsVerified := False\<rparr>, loc, sysProofs s, v)"
  have ok: "audits_ok (sysAudits s)" using result.IH by blast
  have old_v: "vouched (?h # hist) o' e" if "is_verified o' (sysAudits s) e" for o' e
    using result.IH that vouched_Cons by blast
  have old_p: "accused (?h # hist) o'" if "poisoned (sysStore s) o' \<noteq> None" for o'
    using result.IH that accused_Cons by blast
  consider (refused) e where "v = Inl e" "sysAudits s' = sysAudits s" "sysStore s' = sysStore s"
    | (taken) u q where "v = Inr u" "recordWorkerResult sha now rs ?r loc (s\<lparr>sysQueue := q\<rparr>) = (u, s')"
    using handle_cases[OF result.hyps(2)] by blast
  then show ?case
  proof cases
    case refused
    then show ?thesis using ok old_v old_p by simp
  next
    case taken
    note c = record_cases[OF taken(2)]
    have canary: "fst (take_canary loc ?r (s\<lparr>sysQueue := q\<rparr>)) \<longleftrightarrow> \<not> loc \<and> outstanding (sysProofs s) (rsOrigin r) (rsEpoch r)"
      by (simp add: take_canary_outstanding)
    have aud: "sysAudits s' = sysAudits s \<or> (\<exists>b n t. sysAudits s' = RecordAudit (worker_audit ?r now b n t) (sysAudits s)
        \<and> (b \<longrightarrow> vouched (?h # hist) (rsOrigin r) (rsEpoch r)))"
      using c taken(1) canary by (cases u) (auto simp: vouched_def)
    have st: "sysStore s' = sysStore s \<or> (sysStore s' = RecordFork (construction_fork ?r now) (sysStore s)
        \<and> accused (?h # hist) (rsOrigin r))"
      using c taken(1) by (cases u) (auto simp: accused_def)
    have "audits_ok (sysAudits s')" using aud ok RecordAudit_ok by auto
    moreover have "vouched (?h # hist) o' e" if "is_verified o' (sysAudits s') e" for o' e
      using aud that old_v RecordAudit_verified[OF ok] by fastforce
    moreover have "accused (?h # hist) o'" if "poisoned (sysStore s') o' \<noteq> None" for o'
      using st that old_p RecordFork_poisons[of "construction_fork ?r now" "sysStore s" o'] by auto
    ultimately show ?thesis by blast
  qed
qed

lemma canary_verdict:
  assumes "sysProofs s = Some p" "fst (WasCanary (rsOrigin r) (rsEpoch r) p)"
    and "recordWorkerResult sha now rs r False s = (v, s')"
  shows "sysAudits s' = sysAudits s \<and> sysStore s' = sysStore s \<and> sysCache s' = sysCache s
     \<and> (\<exists>p'. sysProofs s' = Some p' \<and> \<not> fst (WasCanary (rsOrigin r) (rsEpoch r) p'))
     \<and> (v = CanaryMissed (rsWorker r) \<longleftrightarrow>
          rsErr r = [] \<and> (\<exists>f. resolvePublished rs (rsOrigin r) (rsEpoch r) = Some f \<and> matches f r))
     \<and> (v = CanaryCaught (rsWorker r) \<or> v = CanaryMissed (rsWorker r))"
proof -
  have t: "take_canary False r s = (True, s\<lparr>sysProofs := Some (snd (WasCanary (rsOrigin r) (rsEpoch r) p))\<rparr>)"
    using assms(1,2) by (auto simp: take_canary_def Let_def split: prod.splits)
  obtain n s2 where re: "reschedule_in now r (s\<lparr>sysProofs := Some (snd (WasCanary (rsOrigin r) (rsEpoch r) p))\<rparr>) = (n, s2)"
    by fastforce
  note rr = reschedule_in_rest[OF re]
  have "\<not> fst (WasCanary (rsOrigin r) (rsEpoch r) (snd (WasCanary (rsOrigin r) (rsEpoch r) p)))"
    by (simp add: WasCanary_def Let_def)
  then show ?thesis using assms(3) rr
    by (auto simp: recordWorkerResult_def t re split: option.splits if_splits)
qed

subsection \<open>Properties\<close>

text \<open>
C3. In any run of the work channel, with results from any workers in any order and the
  queue, cache, generator and proof server stepping in between, an epoch is recorded
  verified only if a result for it was taken that reported no error and exactly the two
  roots this witness itself resolved from the operator, and that came from the witness's own
  verifier or at a time when the proof server held no outstanding canary for the epoch.
\<close>

theorem verified_means_published_roots:
  assumes "work_run sha s hist" "is_verified o' (sysAudits s) e"
  shows "\<exists>(rs, r, loc, ps, v) \<in> set hist. rsOrigin r = o' \<and> rsEpoch r = e \<and> rsErr r = [] \<and> v = Inr (Verified (rsWorker r))
      \<and> (loc \<or> \<not> outstanding ps o' e)
      \<and> (\<exists>f. resolvePublished rs o' e = Some f \<and> rsComputedPrev r = PrevRoot f \<and> rsComputedCurr r = CurrRoot f)"
  using run_invariant[OF assms(1)] assms(2) unfolding vouched_def matches_def by blast

text \<open>
C4. In any run of the work channel a log is poisoned only by a result of the witness's own
  verifier that disagrees with the published roots: no number of remote workers, under any
  name, can have a log accused.
\<close>

theorem only_own_verifier_accuses:
  assumes "work_run sha s hist" "poisoned (sysStore s) o' \<noteq> None"
  shows "\<exists>(rs, r, loc, ps, v) \<in> set hist. loc \<and> rsOrigin r = o' \<and> rsErr r = []
      \<and> (\<exists>f. resolvePublished rs o' (rsEpoch r) = Some f
           \<and> \<not> (rsComputedPrev r = PrevRoot f \<and> rsComputedCurr r = CurrRoot f))"
  using run_invariant[OF assms(1)] assms(2) unfolding accused_def matches_def by blast

theorem canary_verdict_exact:
  assumes "sysProofs s = Some p" "fst (WasCanary (rsOrigin r) (rsEpoch r) p)"
    and "recordWorkerResult sha now rs r False s = (v, s')"
  shows "sysAudits s' = sysAudits s \<and> sysStore s' = sysStore s \<and> sysCache s' = sysCache s
     \<and> (\<exists>p'. sysProofs s' = Some p' \<and> \<not> fst (WasCanary (rsOrigin r) (rsEpoch r) p'))
     \<and> (v = CanaryMissed (rsWorker r) \<longleftrightarrow>
          rsErr r = [] \<and> (\<exists>f. resolvePublished rs (rsOrigin r) (rsEpoch r) = Some f \<and> matches f r))
     \<and> (v = CanaryCaught (rsWorker r) \<or> v = CanaryMissed (rsWorker r))"
  using assms by (rule canary_verdict)

subsection \<open>What the code does not promise\<close>

text \<open>The canary is remembered by log and epoch: whoever answers for the epoch next answers for it.\<close>

lemma canary_of_another_worker:
  assumes "sysProofs s = Some (mark t (rsOrigin r) (rsEpoch r) p)" "rsErr r = []"
    and "resolvePublished rs (rsOrigin r) (rsEpoch r) = Some f" "matches f r"
  shows "fst (recordWorkerResult sha now rs r False s) = CanaryMissed (rsWorker r)"
proof -
  obtain v s' where v: "recordWorkerResult sha now rs r False s = (v, s')" by fastforce
  have "fst (WasCanary (rsOrigin r) (rsEpoch r) (mark t (rsOrigin r) (rsEpoch r) p))"
    by (simp add: WasCanary_def mark_def Let_def)
  from canary_verdict[OF assms(1) this v] show ?thesis using assms(2-) v by auto
qed

text \<open>A mismatch from a remote worker is recorded as one attempt, so its hole never comes due.\<close>

lemma remote_mismatch_never_due:
  assumes ok: "audits_ok (sysAudits s)" and v: "recordWorkerResult sha now rs r loc s = (RemoteMismatch w, s')"
  shows "rsEpoch r \<notin> set (HolesDue (rsOrigin r) from till later limit (sysAudits s'))"
proof
  have a: "sysAudits s' = RecordAudit (worker_audit r now False 1 None) (sysAudits s)"
    using record_cases[OF v] by simp
  assume h: "rsEpoch r \<in> set (HolesDue (rsOrigin r) from till later limit (sysAudits s'))"
  have ok': "audits_ok (sysAudits s')" unfolding a by (rule RecordAudit_ok[OF ok])
  obtain x where x: "GetAudit (rsOrigin r) (rsEpoch r) (sysAudits s') = Some x" "MaxFetchAttempts \<le> auAttempts x"
    using HolesDue_unverified[OF ok' h] by blast
  let ?b = "kput (rsEpoch r) (worker_audit r now False 1 None) (audits (sysAudits s) (rsOrigin r))"
  have o': "in_order (audits (sysAudits s) (rsOrigin r))" "in_order ?b"
    using ok by (auto simp: audits_ok_def kput_in_order)
  have "map_of ?b (rsEpoch r) = Some x"
    using x(1) o'(2) by (auto simp: a GetAudit_def audits_RecordAudit Let_def map_of_drop split: if_splits)
  then have "x = worker_audit r now False 1 None" by (simp add: map_of_kput[OF o'(1)])
  then show False using x(2) by (simp add: MaxFetchAttempts_def)
qed

text \<open>
  And it is attempt 1 of its epoch however often it has come before: accepting a result without
  an error clears the count that rescheduling then starts again.
\<close>

lemma remote_mismatch_restarts_count:
  assumes "handleResult sha now rs worker r loc s = (Inr (RemoteMismatch w), s')"
  shows "attempts (sysQueue s') (rsOrigin r, rsEpoch r) = Some 1"
proof -
  let ?r = "r\<lparr>rsWorker := worker, rsVerified := False\<rparr>"
  obtain ok q where a: "Accept now ?r (sysQueue s) = (ok, q)" by fastforce
  have v: "ok = Inr ()" "recordWorkerResult sha now rs ?r loc (s\<lparr>sysQueue := q\<rparr>) = (RemoteMismatch w, s')"
    using assms by (auto simp: handleResult_def Let_def a split: sum.splits prod.splits)
  note c = record_cases[OF v(2)]
  obtain f where f: "rsErr r = []" "\<not> loc" "\<not> fst (take_canary loc ?r (s\<lparr>sysQueue := q\<rparr>))"
    "resolvePublished rs (rsOrigin r) (rsEpoch r) = Some f" "\<not> matches f ?r"
    using c by auto
  have q: "attempts q (rsOrigin r, rsEpoch r) = None"
    using a v(1) f(1) by (auto simp: Accept_def Let_def split: option.splits if_splits)
  obtain s1 where t: "take_canary loc ?r (s\<lparr>sysQueue := q\<rparr>) = (False, s1)"
    using f(3) by (cases "take_canary loc ?r (s\<lparr>sysQueue := q\<rparr>)") auto
  have q1: "sysQueue s1 = q" using take_canary_rest[OF t] by simp
  have "attempts (snd (Reschedule now (rsOrigin r) (rsEpoch r) q)) (rsOrigin r, rsEpoch r) = Some 1"
    using q by (simp add: Reschedule_def Let_def maxAttempts_def)
  moreover have "sysQueue s' = snd (Reschedule now (rsOrigin r) (rsEpoch r) q)"
    using v(2) t f q1
    by (auto simp: recordWorkerResult_def reschedule_in_def record_in_def Let_def matches_def split: prod.splits if_splits)
  ultimately show ?thesis by simp
qed

subsection \<open>Witnesses\<close>

definition one_listing :: resolvers where
  "one_listing = [(''a'', \<lambda>e. Some \<lparr>LogDirectory = [], PrevRoot = ''p'', CurrRoot = ''c''\<rparr>),
                  (''b'', \<lambda>e. Some \<lparr>LogDirectory = [], PrevRoot = ''p'', CurrRoot = ''c''\<rparr>)]"

definition one_result :: "string \<Rightarrow> string \<Rightarrow> Result" where
  "one_result origin root = \<lparr>rsAssignmentID = ''a#1'', rsNonce = [], rsOrigin = origin, rsEpoch = 7, rsComputedPrev = ''p'',
     rsComputedCurr = root, rsVerified = False, rsWorker = [], rsDurationMS = 5, rsErr = []\<rparr>"

definition one_system :: System where
  "one_system = \<lparr>sysQueue = one_lease, sysCache = pf_init test_sha 0 [''a''] [], sysProofs = Some one_session,
     sysAudits = empty_audits, sysStore = empty_store\<rparr>"

lemma one_start: "work_run test_sha one_system []"
proof (rule work_run.start)
  show "audits_ok (sysAudits one_system)" by (simp add: one_system_def)
  show "\<forall>o' e. \<not> is_verified o' (sysAudits one_system) e"
    by (simp add: one_system_def empty_audits_def is_verified_def GetAudit_def)
  show "poisoned (sysStore one_system) = Map.empty" by (simp add: one_system_def empty_store_def)
qed

lemma one_handled:
  "fst (handleResult test_sha 50 one_listing ''w'' (one_result ''a'' ''c'') False one_system) = Inr (Verified ''w'')"
  "is_verified ''a'' (sysAudits (snd (handleResult test_sha 50 one_listing ''w'' (one_result ''a'' ''c'') False one_system))) 7"
  by code_simp+

text \<open>The lease is for log a; a result that names log b is taken all the same and recorded for b.\<close>

lemma credit_for_another_log:
  "fst (handleResult test_sha 50 one_listing ''w'' (one_result ''b'' ''c'') False one_system) = Inr (Verified ''w'')"
  "is_verified ''b'' (sysAudits (snd (handleResult test_sha 50 one_listing ''w'' (one_result ''b'' ''c'') False one_system))) 7"
  by code_simp+

lemma one_accusation:
  "fst (handleResult test_sha 50 one_listing ''witness'' (one_result ''a'' ''x'') True one_system) = Inr ConstructionFailed"
  "poisoned (sysStore (snd (handleResult test_sha 50 one_listing ''witness'' (one_result ''a'' ''x'') True one_system))) ''a'' = Some 50"
  by code_simp+

theorem verified_means_published_roots_witness:
  "\<exists>s hist. work_run test_sha s hist \<and> is_verified ''a'' (sysAudits s) 7
     \<and> (\<exists>(rs, r, loc, ps, v) \<in> set hist. rsOrigin r = ''a'' \<and> v = Inr (Verified (rsWorker r)) \<and>
          (loc \<or> \<not> outstanding ps ''a'' 7))"
proof -
  obtain v s' where h: "handleResult test_sha 50 one_listing ''w'' (one_result ''a'' ''c'') False one_system = (v, s')"
    by fastforce
  note run = work_run.result[OF one_start h]
  have v: "is_verified ''a'' (sysAudits s') 7" using one_handled(2) by (simp add: h)
  show ?thesis using verified_means_published_roots[OF run v] run v by blast
qed

theorem only_own_verifier_accuses_witness:
  "\<exists>s hist. work_run test_sha s hist \<and> poisoned (sysStore s) ''a'' = Some 50
     \<and> (\<exists>(rs, r, loc, ps, v) \<in> set hist. loc \<and> rsOrigin r = ''a'')"
proof -
  obtain v s' where h: "handleResult test_sha 50 one_listing ''witness'' (one_result ''a'' ''x'') True one_system = (v, s')"
    by fastforce
  note run = work_run.result[OF one_start h]
  have p: "poisoned (sysStore s') ''a'' = Some 50" using one_accusation(2) by (simp add: h)
  then have "poisoned (sysStore s') ''a'' \<noteq> None" by simp
  from only_own_verifier_accuses[OF run this] show ?thesis using run p by blast
qed

theorem canary_verdict_exact_witness:
  "\<exists>s'. recordWorkerResult test_sha 50 one_listing (one_result ''a'' ''c'') False
     (one_system\<lparr>sysProofs := Some (mark 40 ''a'' 7 one_session)\<rparr>) = (CanaryMissed [], s')"
proof -
  let ?s = "one_system\<lparr>sysProofs := Some (mark 40 ''a'' 7 one_session)\<rparr>" and ?r = "one_result ''a'' ''c''"
  obtain v s' where h: "recordWorkerResult test_sha 50 one_listing ?r False ?s = (v, s')" by fastforce
  have "fst (WasCanary (rsOrigin ?r) (rsEpoch ?r) (mark 40 ''a'' 7 one_session))"
    by (simp add: WasCanary_def mark_def one_result_def Let_def)
  from canary_verdict_exact[OF _ this h] show ?thesis
    using h by (simp add: one_result_def one_listing_def matches_def)
qed

end
