(* ===== verification/Proton_Tree.thy ===== *)
theory Proton_Tree
  imports Akd_Tree Proof_Cache
begin

text \<open>
  The rebuild of Proton's key directory, \<open>internal/source/proton/tree.go\<close>: the sequential
  \<open>TreeRoot\<close> and the sharded \<open>TreeRootParallel\<close> over a sorted dump, against the sparse tree of
  256 levels they stand for.  A dump is its list of (label, value) records, a panic of an index
  out of range is an error value, SHA-256 is a parameter.
\<close>

subsection \<open>The tree\<close>

definition labelSize :: nat where "labelSize = 32"
definition valueSize :: nat where "valueSize = 36"
definition entrySize :: nat where "entrySize = labelSize + valueSize"
definition treeDepth :: nat where "treeDepth = labelSize * 8"
definition hashSize :: nat where "hashSize = 32"

lemmas proton_sizes = labelSize_def valueSize_def entrySize_def treeDepth_def hashSize_def

definition emptyNode :: bytes where "emptyNode = replicate hashSize 0"

text \<open>\<open>bitAt\<close> here counts levels from 1.\<close>

definition levelBit :: "bytes \<Rightarrow> nat \<Rightarrow> nat" where
  "levelBit label level = (let i = level - 1 in of_bool (bit (label ! (i div 8)) (7 - i mod 8)))"

definition combine :: "(bytes \<Rightarrow> bytes) \<Rightarrow> bytes \<Rightarrow> bytes \<Rightarrow> nat \<Rightarrow> bytes" where
  "combine sha h label level = sha (if levelBit label level = 0 then h @ emptyNode else emptyNode @ h)"

definition isEmpty :: "bytes \<Rightarrow> bool" where
  "isEmpty h \<longleftrightarrow> list_all (\<lambda>b. b = 0) h"

definition join :: "(bytes \<Rightarrow> bytes) \<Rightarrow> bytes \<Rightarrow> bytes \<Rightarrow> bytes" where
  "join sha left right = (if isEmpty left \<and> isEmpty right then emptyNode else sha (left @ right))"

type_synonym leaves = "(bytes \<times> bytes) list"

definition SliceLeaves :: "bytes \<Rightarrow> leaves" where
  "SliceLeaves s =
     map (\<lambda>i. (go_slice (i * entrySize) (i * entrySize + labelSize) s,
               go_slice (i * entrySize + labelSize) ((i + 1) * entrySize) s)) [0..<length s div entrySize]"

abbreviation leafLabel :: "leaves \<Rightarrow> nat \<Rightarrow> bytes" where "leafLabel ls i \<equiv> fst (ls ! i)"
abbreviation leafValue :: "leaves \<Rightarrow> nat \<Rightarrow> bytes" where "leafValue ls i \<equiv> snd (ls ! i)"

text \<open>\<open>compare\<close>, for two strings of one length.\<close>

fun compare_bytes :: "bytes \<Rightarrow> bytes \<Rightarrow> int" where
  "compare_bytes (x # xs) (y # ys) = (if x < y then - 1 else if x > y then 1 else compare_bytes xs ys)"
| "compare_bytes _ _ = 0"

datatype tree_error = NotAscending nat | ShardDepthOutOfRange int | IndexOutOfRange

fun checkSorted_from :: "bytes \<Rightarrow> nat \<Rightarrow> leaves \<Rightarrow> nat option" where
  "checkSorted_from prev i [] = None"
| "checkSorted_from prev i ((l, v) # ls) = (if compare_bytes prev l \<ge> 0 then Some i else checkSorted_from l (i + 1) ls)"

definition checkSorted :: "leaves \<Rightarrow> nat option" where
  "checkSorted ls = (case ls of [] \<Rightarrow> None | (l, _) # rest \<Rightarrow> checkSorted_from l 1 rest)"

function partition_loop :: "leaves \<Rightarrow> nat \<Rightarrow> nat \<Rightarrow> nat \<Rightarrow> nat" where
  "partition_loop ls level lo hi =
     (if lo < hi then (let mid = lo + (hi - lo) div 2
                       in if levelBit (leafLabel ls mid) level = 0 then partition_loop ls level (mid + 1) hi
                          else partition_loop ls level lo mid)
      else lo)"
  by pat_completeness auto
termination by (relation "measure (\<lambda>(ls, level, lo, hi). hi - lo)") auto

declare partition_loop.simps [simp del]

text \<open>A lonely leaf folded from the bottom up to \<open>depth\<close>.\<close>

definition lonely :: "(bytes \<Rightarrow> bytes) \<Rightarrow> bytes \<Rightarrow> bytes \<Rightarrow> nat \<Rightarrow> bytes" where
  "lonely sha label value depth =
     foldl (\<lambda>h level. combine sha h label level) (sha value) (rev [depth + 1..<treeDepth + 1])"

text \<open>Two leaves below the last level would read past their labels.\<close>

function subtree :: "(bytes \<Rightarrow> bytes) \<Rightarrow> leaves \<Rightarrow> nat \<Rightarrow> nat \<Rightarrow> nat \<Rightarrow> bytes option" where
  "subtree sha ls lo hi depth =
     (if lo = hi then Some emptyNode
      else if hi - lo = 1 then Some (lonely sha (leafLabel ls lo) (leafValue ls lo) depth)
      else if depth \<ge> treeDepth then None
      else (let mid = partition_loop ls (depth + 1) lo hi
            in case subtree sha ls lo mid (depth + 1) of
                 None \<Rightarrow> None
               | Some l \<Rightarrow> (case subtree sha ls mid hi (depth + 1) of
                             None \<Rightarrow> None
                           | Some r \<Rightarrow> Some (join sha l r))))"
  by pat_completeness auto
termination by (relation "measure (\<lambda>(sha, ls, lo, hi, depth). treeDepth - depth)") auto

declare subtree.simps [simp del]

definition TreeRoot :: "(bytes \<Rightarrow> bytes) \<Rightarrow> leaves \<Rightarrow> tree_error + bytes" where
  "TreeRoot sha ls =
     (if ls = [] then Inr emptyNode
      else case checkSorted ls of
             Some i \<Rightarrow> Inl (NotAscending i)
           | None \<Rightarrow> (case subtree sha ls 0 (length ls) 0 of None \<Rightarrow> Inl IndexOutOfRange | Some r \<Rightarrow> Inr r))"

subsection \<open>The parallel rebuild\<close>

definition topBits :: "bytes \<Rightarrow> nat \<Rightarrow> nat" where
  "topBits label bits = foldl (\<lambda>v i. 2 * v + levelBit label i) 0 [1..<bits + 1]"

function lowerBound_loop :: "leaves \<Rightarrow> nat \<Rightarrow> nat \<Rightarrow> nat \<Rightarrow> nat \<Rightarrow> nat" where
  "lowerBound_loop ls prefix bits lo hi =
     (if lo < hi then (let mid = lo + (hi - lo) div 2
                       in if topBits (leafLabel ls mid) bits < prefix then lowerBound_loop ls prefix bits (mid + 1) hi
                          else lowerBound_loop ls prefix bits lo mid)
      else lo)"
  by pat_completeness auto
termination by (relation "measure (\<lambda>(ls, prefix, bits, lo, hi). hi - lo)") auto

declare lowerBound_loop.simps [simp del]

definition lowerBound :: "leaves \<Rightarrow> nat \<Rightarrow> nat \<Rightarrow> nat" where
  "lowerBound ls prefix bits = lowerBound_loop ls prefix bits 0 (length ls)"

definition shard_bound :: "leaves \<Rightarrow> nat \<Rightarrow> nat \<Rightarrow> nat" where
  "shard_bound ls k s = (if s = 0 then 0 else if s = 2 ^ k then length ls else lowerBound ls s k)"

fun join_levels :: "(bytes \<Rightarrow> bytes) \<Rightarrow> nat \<Rightarrow> bytes list \<Rightarrow> bytes" where
  "join_levels sha 0 roots = roots ! 0"
| "join_levels sha (Suc k) roots =
     join_levels sha k (map (\<lambda>i. join sha (roots ! (2 * i)) (roots ! (2 * i + 1))) [0..<length roots div 2])"

definition TreeRootParallel :: "(bytes \<Rightarrow> bytes) \<Rightarrow> leaves \<Rightarrow> int \<Rightarrow> tree_error + bytes" where
  "TreeRootParallel sha ls shardDepth =
     (if shardDepth < 1 \<or> shardDepth > 16 then Inl (ShardDepthOutOfRange shardDepth)
      else if ls = [] then Inr emptyNode
      else case checkSorted ls of
             Some i \<Rightarrow> Inl (NotAscending i)
           | None \<Rightarrow>
               (let k = nat shardDepth;
                    roots = map (\<lambda>s. subtree sha ls (shard_bound ls k s) (shard_bound ls k (s + 1)) k) [0..<2 ^ k]
                in if list_all (\<lambda>r. r \<noteq> None) roots then Inr (join_levels sha k (map the roots))
                   else Inl IndexOutOfRange))"

subsection \<open>The specification: a sparse tree of 256 levels\<close>

text \<open>
  \<open>smt sha n es\<close> is the root of the subtree \<open>n\<close> levels above the leaves that holds the entries
  \<open>es\<close>: nothing hashes to zeros at every level, a leaf to the hash of its value, and a node to
  the hash of its two halves.  \<open>smt_pre\<close> lists what is hashed on the way.
\<close>

definition level_half :: "nat \<Rightarrow> nat \<Rightarrow> leaves \<Rightarrow> leaves" where
  "level_half n b es = filter (\<lambda>e. bitAt (fst e) (255 - n) = b) es"

fun smt :: "(bytes \<Rightarrow> bytes) \<Rightarrow> nat \<Rightarrow> leaves \<Rightarrow> bytes" where
  "smt sha 0 es = (if es = [] then emptyNode else sha (snd (hd es)))"
| "smt sha (Suc n) es =
     (if es = [] then emptyNode else sha (smt sha n (level_half n 0 es) @ smt sha n (level_half n 1 es)))"

fun smt_pre :: "(bytes \<Rightarrow> bytes) \<Rightarrow> nat \<Rightarrow> leaves \<Rightarrow> bytes set" where
  "smt_pre sha 0 es = (if es = [] then {} else {snd (hd es)})"
| "smt_pre sha (Suc n) es =
     (if es = [] then {}
      else insert (smt sha n (level_half n 0 es) @ smt sha n (level_half n 1 es))
             (smt_pre sha n (level_half n 0 es) \<union> smt_pre sha n (level_half n 1 es)))"

definition sorted_leaves :: "leaves \<Rightarrow> bool" where
  "sorted_leaves es \<longleftrightarrow> sorted_wrt (<) (map fst es) \<and> (\<forall>e\<in>set es. length (fst e) = 32)"

definition first_out_of_order :: "leaves \<Rightarrow> nat \<Rightarrow> bool" where
  "first_out_of_order es i \<longleftrightarrow> 0 < i \<and> i < length es \<and> \<not> fst (es ! (i - 1)) < fst (es ! i) \<and>
     (\<forall>j. 0 < j \<and> j < i \<longrightarrow> fst (es ! (j - 1)) < fst (es ! j))"

text \<open>The entries of a subtree \<open>n\<close> levels high agree on the bits above it.\<close>

definition same_path :: "nat \<Rightarrow> leaves \<Rightarrow> bool" where
  "same_path n es \<longleftrightarrow> (\<forall>x\<in>set es. \<forall>y\<in>set es. \<forall>j<256 - n. bitAt (fst x) j = bitAt (fst y) j)"

lemma levelBit_bitAt: "levelBit l k = bitAt l (k - 1)"
  by (simp add: levelBit_def bitAt_def Let_def)

lemma smt_Nil [simp]: "smt sha n [] = emptyNode" "smt_pre sha n [] = {}"
  by (cases n; simp)+

lemma level_half_Nil [simp]: "level_half n b [] = []"
  by (simp add: level_half_def)

lemma set_level_half [simp]: "set (level_half n b es) \<subseteq> set es"
  by (auto simp: level_half_def)

lemma length_emptyNode [simp]: "length emptyNode = 32"
  by (simp add: emptyNode_def hashSize_def)

lemma isEmpty_iff: "length h = 32 \<Longrightarrow> isEmpty h \<longleftrightarrow> h = emptyNode"
  by (auto simp: isEmpty_def emptyNode_def hashSize_def list_all_iff replicate_eqI)

lemma length_smt: "(\<And>m. length (sha m) = 32) \<Longrightarrow> length (smt sha n es) = 32"
  by (cases n) auto

lemma smt_in_pre: "es \<noteq> [] \<Longrightarrow> \<exists>m\<in>smt_pre sha n es. smt sha n es = sha m"
  by (cases n) auto

lemma smt_nonempty: "es \<noteq> [] \<Longrightarrow> \<forall>m\<in>smt_pre sha n es. sha m \<noteq> emptyNode \<Longrightarrow> smt sha n es \<noteq> emptyNode"
  using smt_in_pre by metis

lemma same_path_top [simp]: "same_path 256 es"
  by (simp add: same_path_def)

lemma same_path_sub: "same_path n es \<Longrightarrow> set es' \<subseteq> set es \<Longrightarrow> same_path n es'"
  unfolding same_path_def by blast

lemma same_path_half: "same_path (Suc n) es \<Longrightarrow> n < 256 \<Longrightarrow> same_path n (level_half n b es)"
  unfolding same_path_def level_half_def
proof (intro ballI allI impI)
  fix x y j
  assume h: "\<forall>x\<in>set es. \<forall>y\<in>set es. \<forall>j<256 - Suc n. bitAt (fst x) j = bitAt (fst y) j" "n < 256" "j < 256 - n"
    and x: "x \<in> set (filter (\<lambda>e. bitAt (fst e) (255 - n) = b) es)" and y: "y \<in> set (filter (\<lambda>e. bitAt (fst e) (255 - n) = b) es)"
  show "bitAt (fst x) j = bitAt (fst y) j"
  proof (cases "j = 255 - n")
    case True
    then show ?thesis using x y by simp
  next
    case False
    then have "j < 256 - Suc n" using h(2,3) by simp
    then show ?thesis using h(1) x y by simp
  qed
qed

lemma halves_partition: "e \<in> set es \<longleftrightarrow> e \<in> set (level_half n 0 es) \<or> e \<in> set (level_half n 1 es)"
  using bitAt_cases[of "fst e" "255 - n"] unfolding level_half_def set_filter by blast

lemma sorted_leaves_filter: "sorted_leaves es \<Longrightarrow> sorted_leaves (filter P es)"
  by (auto simp: sorted_leaves_def sorted_wrt_map sorted_wrt_filter)

lemma sorted_leaves_half: "sorted_leaves es \<Longrightarrow> sorted_leaves (level_half n b es)"
  by (simp add: level_half_def sorted_leaves_filter)

lemma same_label:
  assumes "length a = 32" "length b = 32" "\<forall>j<256. bitAt a j = bitAt b j"
  shows "a = b"
proof (rule nth_equalityI)
  fix q assume "q < length a"
  then have "8 * q + i < 256" if "i < 8" for i using assms(1) that by simp
  then show "a ! q = b ! q" using assms(3) by (subst byte_bits) blast
qed (use assms in simp)

lemma singleton_bottom:
  assumes "sorted_leaves es" "same_path 0 es"
  shows "length es \<le> 1"
proof (rule ccontr)
  assume "\<not> length es \<le> 1"
  then obtain x y zs where e: "es = x # y # zs" by (cases es; cases "tl es") auto
  then have "fst x < fst y" "length (fst x) = 32" "length (fst y) = 32" using assms(1) by (auto simp: sorted_leaves_def)
  moreover have "x \<in> set es" "y \<in> set es" using e by simp_all
  then have "\<forall>j<256. bitAt (fst x) j = bitAt (fst y) j" using assms(2) unfolding same_path_def diff_zero by blast
  then have "fst x = fst y" by (rule same_label[OF calculation(2,3)])
  ultimately show False by simp
qed


subsection \<open>Slices of a sorted dump\<close>

lemma sorted_leaves_nth:
  "sorted_leaves es \<Longrightarrow> i < j \<Longrightarrow> j < length es \<Longrightarrow> fst (es ! i) < fst (es ! j)"
  unfolding sorted_leaves_def using sorted_wrt_nth_less[of "(<)" "map fst es" i j] by simp

lemma sorted_leaves_length: "sorted_leaves es \<Longrightarrow> i < length es \<Longrightarrow> length (fst (es ! i)) = 32"
  by (simp add: sorted_leaves_def)

lemma sorted_leaves_slice: "sorted_leaves es \<Longrightarrow> sorted_leaves (go_slice i j es)"
  unfolding sorted_leaves_def go_slice_def
  by (auto simp: take_map drop_map sorted_wrt_take sorted_wrt_drop simp flip: take_map drop_map dest!: in_set_takeD in_set_dropD)

lemma nth_go_slice: "i \<le> k \<Longrightarrow> k < j \<Longrightarrow> j \<le> length es \<Longrightarrow> go_slice i j es ! (k - i) = es ! k"
  by (simp add: go_slice_def)

lemma set_go_slice: "j \<le> length es \<Longrightarrow> set (go_slice i j es) = {es ! k |k. i \<le> k \<and> k < j}"
proof (intro set_eqI iffI)
  fix x assume j: "j \<le> length es" and "x \<in> set (go_slice i j es)"
  then obtain k where "k < length (go_slice i j es)" "x = go_slice i j es ! k" by (metis in_set_conv_nth)
  then have "x = es ! (i + k)" "i + k < j" using j by (auto simp: go_slice_def)
  then show "x \<in> {es ! k |k. i \<le> k \<and> k < j}" by (auto intro!: exI[of _ "i + k"])
next
  fix x assume j: "j \<le> length es" and "x \<in> {es ! k |k. i \<le> k \<and> k < j}"
  then obtain k where k: "x = es ! k" "i \<le> k" "k < j" by blast
  then have "x = go_slice i j es ! (k - i)" "k - i < length (go_slice i j es)"
    using j by (auto simp: nth_go_slice)
  then show "x \<in> set (go_slice i j es)" by simp
qed

lemma go_slice_append: "i \<le> j \<Longrightarrow> j \<le> k \<Longrightarrow> go_slice i k es = go_slice i j es @ go_slice j k es"
  using take_add[of "j - i" "k - j" "drop i es"] by (simp add: go_slice_def)

text \<open>If a test is false below \<open>m\<close> and true from \<open>m\<close> on, the filters are the two parts of the slice.\<close>

lemma split_slice:
  assumes "lo \<le> m" "m \<le> hi" "hi \<le> length es"
    and "\<And>k. lo \<le> k \<Longrightarrow> k < m \<Longrightarrow> \<not> P (es ! k)" "\<And>k. m \<le> k \<Longrightarrow> k < hi \<Longrightarrow> P (es ! k)"
  shows "filter (\<lambda>e. \<not> P e) (go_slice lo hi es) = go_slice lo m es"
    "filter P (go_slice lo hi es) = go_slice m hi es"
proof -
  have "go_slice lo hi es = go_slice lo m es @ go_slice m hi es"
    using assms(1,2) by (rule go_slice_append)
  moreover have "\<forall>e\<in>set (go_slice lo m es). \<not> P e" using assms set_go_slice[of m es lo] by auto
  moreover have "\<forall>e\<in>set (go_slice m hi es). P e" using assms set_go_slice[of hi es m] by auto
  ultimately show "filter (\<lambda>e. \<not> P e) (go_slice lo hi es) = go_slice lo m es"
    "filter P (go_slice lo hi es) = go_slice m hi es" by simp_all
qed

text \<open>Binary search on a test that, once true, stays true.\<close>

lemma search_loop_mono:
  assumes "lo \<le> hi" "\<And>i j. lo \<le> i \<Longrightarrow> i \<le> j \<Longrightarrow> j < hi \<Longrightarrow> f i \<Longrightarrow> f j"
  shows "lo \<le> search_loop f lo hi" "search_loop f lo hi \<le> hi"
    and "\<And>k. lo \<le> k \<Longrightarrow> k < search_loop f lo hi \<Longrightarrow> \<not> f k"
    and "\<And>k. search_loop f lo hi \<le> k \<Longrightarrow> k < hi \<Longrightarrow> f k"
proof -
  let ?m = "search_loop f lo hi"
  show b: "lo \<le> ?m" "?m \<le> hi" using search_loop_bounds[OF assms(1)] by simp_all
  have s: "?m = lo \<or> \<not> f (?m - 1)" "?m = hi \<or> f ?m" using search_loop_spec[OF assms(1)] by blast+
  show "\<not> f k" if "lo \<le> k" "k < ?m" for k
  proof
    assume "f k"
    then have "f (?m - 1)" using assms(2)[of k "?m - 1"] that b(2) by simp
    then show False using s(1) that by simp
  qed
  show "f k" if "?m \<le> k" "k < hi" for k
    using assms(2)[of ?m k] s(2) that b(1) by auto
qed

lemma midpoint: "lo < hi \<Longrightarrow> lo + (hi - lo) div 2 = (lo + hi) div 2"
  for lo hi :: nat
  by linarith

lemma partition_search:
  "partition_loop ls level lo hi = search_loop (\<lambda>i. levelBit (leafLabel ls i) level = 1) lo hi"
proof (induction ls level lo hi rule: partition_loop.induct)
  case (1 ls level lo hi)
  have b: "levelBit l level = 0 \<longleftrightarrow> levelBit l level \<noteq> 1" for l
    using bitAt_cases[of l "level - 1"] by (auto simp: levelBit_bitAt)
  show ?case
  proof (cases "lo < hi")
    case True
    then show ?thesis using 1 b
      by (subst partition_loop.simps, subst search_loop.simps) (simp add: Let_def midpoint)
  qed (simp add: partition_loop.simps search_loop.simps)
qed

lemma lowerBound_search:
  "lowerBound_loop ls p bits lo hi = search_loop (\<lambda>i. p \<le> topBits (leafLabel ls i) bits) lo hi"
proof (induction ls p bits lo hi rule: lowerBound_loop.induct)
  case (1 ls p bits lo hi)
  show ?case
  proof (cases "lo < hi")
    case True
    then show ?thesis using 1
      by (subst lowerBound_loop.simps, subst search_loop.simps) (simp add: Let_def midpoint not_less)
  qed (simp add: lowerBound_loop.simps search_loop.simps)
qed

subsection \<open>The rebuild computes the specification\<close>

lemma lonely_step:
  "depth < 256 \<Longrightarrow> lonely sha l v depth = combine sha (lonely sha l v (depth + 1)) l (depth + 1)"
proof -
  assume "depth < 256"
  then have "rev [depth + 1..<treeDepth + 1] = rev [depth + 1 + 1..<treeDepth + 1] @ [depth + 1]"
    by (simp add: proton_sizes upt_conv_Cons)
  then show ?thesis by (simp add: lonely_def)
qed

lemma lonely_smt: "n \<le> 256 \<Longrightarrow> lonely sha l v (256 - n) = smt sha n [(l, v)]"
proof (induction n)
  case 0
  then show ?case by (simp add: lonely_def proton_sizes)
next
  case (Suc n)
  have d: "256 - Suc n + 1 = 256 - n" "256 - n - 1 = 255 - n" using Suc.prems by simp_all
  have "lonely sha l v (256 - Suc n) = combine sha (smt sha n [(l, v)]) l (256 - n)"
    using lonely_step[of "256 - Suc n" sha l v] Suc unfolding d by simp
  then show ?case
    using bitAt_cases[of l "255 - n"] by (auto simp: combine_def levelBit_bitAt d level_half_def)
qed

lemma same_pathD:
  "same_path n es \<Longrightarrow> x \<in> set es \<Longrightarrow> y \<in> set es \<Longrightarrow> j < 256 - n \<Longrightarrow> bitAt (fst x) j = bitAt (fst y) j"
  unfolding same_path_def by blast

lemma ordered_leaves_bit:
  assumes "sorted_leaves es" "i \<le> j" "j < length es" "\<forall>k<d. bitAt (leafLabel es i) k = bitAt (leafLabel es j) k"
    and "bitAt (leafLabel es i) d = 1"
  shows "bitAt (leafLabel es j) d = 1"
proof (cases "i = j")
  case False
  then have lt: "leafLabel es i < leafLabel es j" using sorted_leaves_nth[OF assms(1)] assms(2,3) by simp
  have l: "length (leafLabel es i) = 32" "length (leafLabel es j) = 32"
    using sorted_leaves_length[OF assms(1)] assms(2,3) by simp_all
  show ?thesis using bits_less_first[OF label_order[OF l lt] assms(4)] assms(5) by (metis zero_neq_one)
qed (use assms(5) in simp)

lemma partition_halves:
  assumes "sorted_leaves ls" "lo \<le> hi" "hi \<le> length ls" "n < 256" "same_path (Suc n) (go_slice lo hi ls)"
  defines "m \<equiv> partition_loop ls (256 - n) lo hi"
  shows "lo \<le> m" "m \<le> hi" "go_slice lo m ls = level_half n 0 (go_slice lo hi ls)"
    and "go_slice m hi ls = level_half n 1 (go_slice lo hi ls)"
proof -
  let ?P = "\<lambda>i. levelBit (leafLabel ls i) (256 - n) = 1"
  have lv: "levelBit l (256 - n) = bitAt l (255 - n)" for l using assms(4) by (simp add: levelBit_bitAt)
  have mono: "?P j" if "lo \<le> i" "i \<le> j" "j < hi" "?P i" for i j
  proof -
    have "ls ! i \<in> set (go_slice lo hi ls)" "ls ! j \<in> set (go_slice lo hi ls)"
      using that unfolding set_go_slice[OF assms(3)] by (auto intro: exI[of _ i] exI[of _ j])
    then have "\<forall>k<255 - n. bitAt (leafLabel ls i) k = bitAt (leafLabel ls j) k"
      by (intro allI impI, intro same_pathD[OF assms(5)]) simp_all
    moreover have "j < length ls" "bitAt (leafLabel ls i) (255 - n) = 1" using that assms(3) lv by simp_all
    ultimately have "bitAt (leafLabel ls j) (255 - n) = 1" using ordered_leaves_bit[OF assms(1) that(2)] by blast
    then show ?thesis by (simp add: lv)
  qed
  have s: "lo \<le> m" "m \<le> hi" "lo \<le> k \<Longrightarrow> k < m \<Longrightarrow> \<not> ?P k" "m \<le> k \<Longrightarrow> k < hi \<Longrightarrow> ?P k" for k
    unfolding m_def partition_search using search_loop_mono[OF assms(2), where f = ?P] mono by blast+
  show m: "lo \<le> m" "m \<le> hi" by (rule s)+
  have b: "(\<not> bitAt l k = 1) \<longleftrightarrow> bitAt l k = 0" for l k using bitAt_cases[of l k] by auto
  note f = split_slice[OF m assms(3), of "\<lambda>e. bitAt (fst e) (255 - n) = 1", unfolded b]
  show "go_slice lo m ls = level_half n 0 (go_slice lo hi ls)"
    unfolding level_half_def using f(1) s(3,4) lv b by (metis (no_types, lifting))
  show "go_slice m hi ls = level_half n 1 (go_slice lo hi ls)"
    unfolding level_half_def using f(2) s(3,4) lv b by (metis (no_types, lifting))
qed

lemma join_smt:
  assumes "\<And>m. length (sha m) = 32" "\<forall>m\<in>smt_pre sha (Suc n) es. sha m \<noteq> emptyNode"
  shows "join sha (smt sha n (level_half n 0 es)) (smt sha n (level_half n 1 es)) = smt sha (Suc n) es"
proof (cases "es = []")
  case True
  then show ?thesis by (simp add: join_def isEmpty_iff)
next
  case False
  then have "level_half n 0 es \<noteq> [] \<or> level_half n 1 es \<noteq> []"
    using halves_partition[of "hd es" es n] by fastforce
  then have "\<not> (isEmpty (smt sha n (level_half n 0 es)) \<and> isEmpty (smt sha n (level_half n 1 es)))"
    using smt_nonempty[of _ sha n] assms(2) False by (auto simp: isEmpty_iff length_smt assms(1))
  then show ?thesis using False unfolding join_def smt.simps by (simp only: if_False)
qed

lemma subtree_short:
  assumes "n \<le> 256" "lo \<le> hi" "hi \<le> length ls" "hi - lo \<le> 1"
  shows "subtree sha ls lo hi (256 - n) = Some (smt sha n (go_slice lo hi ls))"
proof (cases "lo = hi")
  case True
  then show ?thesis by (simp add: subtree.simps go_slice_def)
next
  case False
  then have "hi = Suc lo" "lo < length ls" using assms by auto
  then have "go_slice lo hi ls = [ls ! lo]" by (simp add: go_slice_def take_Suc hd_drop_conv_nth)
  then show ?thesis using \<open>hi = Suc lo\<close> lonely_smt[OF assms(1), of sha "fst (ls ! lo)" "snd (ls ! lo)"]
    by (subst subtree.simps) simp
qed

lemma subtree_step:
  "\<not> hi - lo \<le> 1 \<Longrightarrow> depth < treeDepth \<Longrightarrow> subtree sha ls lo (partition_loop ls (depth + 1) lo hi) (depth + 1) = Some l \<Longrightarrow>
    subtree sha ls (partition_loop ls (depth + 1) lo hi) hi (depth + 1) = Some r \<Longrightarrow>
    subtree sha ls lo hi depth = Some (join sha l r)"
  by (subst subtree.simps) auto

lemma subtree_smt:
  assumes "\<And>m. length (sha m) = 32" "sorted_leaves ls" "n \<le> 256" "lo \<le> hi" "hi \<le> length ls"
    and "same_path n (go_slice lo hi ls)" "\<forall>m\<in>smt_pre sha n (go_slice lo hi ls). sha m \<noteq> emptyNode"
  shows "subtree sha ls lo hi (256 - n) = Some (smt sha n (go_slice lo hi ls))"
  using assms(3-)
proof (induction n arbitrary: lo hi)
  case (0 lo hi)
  have "length (go_slice lo hi ls) \<le> 1"
    using singleton_bottom[OF sorted_leaves_slice[OF assms(2)] "0.prems"(4)] .
  then have "hi - lo \<le> 1" using "0.prems" by simp
  then show ?case using subtree_short[of 0 lo hi ls sha] "0.prems" by simp
next
  case (Suc n lo hi)
  show ?case
  proof (cases "hi - lo \<le> 1")
    case True
    then show ?thesis using subtree_short[of "Suc n" lo hi ls sha] Suc.prems by simp
  next
    case False
    let ?es = "go_slice lo hi ls"
    define m where "m = partition_loop ls (256 - n) lo hi"
    have n: "n < 256" "n \<le> 256" "256 - Suc n + 1 = 256 - n" using Suc.prems(1) by auto
    note h = partition_halves[OF assms(2) Suc.prems(2,3) n(1) Suc.prems(4), folded m_def]
    have ne: "?es \<noteq> []" using False Suc.prems(2,3) by (auto simp: go_slice_def)
    have p: "\<forall>m\<in>smt_pre sha n (level_half n b ?es). sha m \<noteq> emptyNode" if "b = 0 \<or> b = 1" for b
      using Suc.prems(5) that ne by auto
    have l: "subtree sha ls lo m (256 - n) = Some (smt sha n (level_half n 0 ?es))"
      using Suc.IH[OF n(2) h(1) _ _ ] p[of 0] h Suc.prems(3) same_path_half[OF Suc.prems(4) n(1), of 0] by auto
    have r: "subtree sha ls m hi (256 - n) = Some (smt sha n (level_half n 1 ?es))"
      using Suc.IH[OF n(2) h(2) Suc.prems(3)] p[of 1] h same_path_half[OF Suc.prems(4) n(1), of 1] by auto
    have "256 - Suc n < treeDepth" using n(1) by (simp add: proton_sizes)
    then show ?thesis
      using subtree_step[OF False, of "256 - Suc n" sha ls, unfolded n(3), folded m_def, OF _ l r]
      unfolding join_smt[OF assms(1) Suc.prems(5)] by blast
  qed
qed

subsection \<open>The order check\<close>

lemma compare_bytes_cases:
  "length a = length b \<Longrightarrow>
    compare_bytes a b = (if a < b then - 1 else if a = b then 0 else 1)"
  by (induction a b rule: list_induct2) auto

lemma checkSorted_from_spec:
  "length prev = 32 \<Longrightarrow> \<forall>e\<in>set ls. length (fst e) = 32 \<Longrightarrow>
    checkSorted_from prev i ls = None \<longleftrightarrow> sorted_wrt (<) (prev # map fst ls)"
proof (induction prev i ls rule: checkSorted_from.induct)
  case (2 prev i l v ls)
  then have "length l = 32" "\<forall>e\<in>set ls. length (fst e) = 32" by auto
  with 2 show ?case
    by (simp add: compare_bytes_cases sorted_wrt2[OF transp_on_less] del: sorted_wrt.simps(2))
qed simp

lemma checkSorted_iff:
  assumes "\<forall>e\<in>set ls. length (fst e) = 32"
  shows "checkSorted ls = None \<longleftrightarrow> sorted_leaves ls"
proof (cases ls)
  case (Cons e rest)
  then show ?thesis using assms checkSorted_from_spec[of "fst e" rest 1]
    by (cases e) (simp add: checkSorted_def sorted_leaves_def del: sorted_wrt.simps(2))
qed (simp add: checkSorted_def sorted_leaves_def)

text \<open>The place reported is the first that does not ascend.\<close>

lemma checkSorted_from_Some:
  "length prev = 32 \<Longrightarrow> \<forall>e\<in>set ls. length (fst e) = 32 \<Longrightarrow> checkSorted_from prev n ls = Some i \<Longrightarrow>
    n \<le> i \<and> i < n + length ls \<and>
    \<not> (prev # map fst ls) ! (i - n) < (prev # map fst ls) ! (i - n + 1) \<and>
    (\<forall>j < i - n. (prev # map fst ls) ! j < (prev # map fst ls) ! (j + 1))"
proof (induction prev n ls rule: checkSorted_from.induct)
  case (2 prev n l v ls)
  have len: "length l = 32" "\<forall>e\<in>set ls. length (fst e) = 32" using 2 by auto
  show ?case
  proof (cases "compare_bytes prev l \<ge> 0")
    case True
    then show ?thesis using 2 len by (auto simp: compare_bytes_cases split: if_splits)
  next
    case False
    then have i: "checkSorted_from l (n + 1) ls = Some i" and lt: "prev < l"
      using 2 len by (auto simp: compare_bytes_cases split: if_splits)
    note IH = 2(1)[OF False len(1,2) i]
    obtain k where k: "i = n + 1 + k" using IH le_Suc_ex by blast
    have "\<forall>j < Suc k. (prev # l # map fst ls) ! j < (l # map fst ls) ! j"
    proof (intro allI impI)
      fix j assume "j < Suc k"
      then show "(prev # l # map fst ls) ! j < (l # map fst ls) ! j"
        using IH[unfolded k] lt by (cases j) (simp_all del: nth_map)
    qed
    then show ?thesis using IH by (simp add: k del: nth_map)
  qed
qed simp

lemma checkSorted_Some:
  assumes "\<forall>e\<in>set ls. length (fst e) = 32" "checkSorted ls = Some i"
  shows "first_out_of_order ls i"
proof (cases ls)
  case (Cons e rest)
  then have c: "checkSorted_from (fst e) 1 rest = Some i" using assms(2) by (cases e) (simp add: checkSorted_def)
  have len: "length (fst e) = 32" "\<forall>e\<in>set rest. length (fst e) = 32" using assms(1) Cons by auto
  have m: "fst e # map fst rest = map fst ls" using Cons by simp
  note sp = checkSorted_from_Some[OF len c, unfolded m]
  have i: "0 < i" "i < length ls" using sp Cons by auto
  have "\<not> map fst ls ! (i - 1) < map fst ls ! i" "\<forall>j<i - 1. map fst ls ! j < map fst ls ! (j + 1)"
    using sp i(1) by auto
  moreover have "fst (ls ! (j - 1)) < fst (ls ! j)" if "0 < j" "j < i" "\<forall>j<i - 1. map fst ls ! j < map fst ls ! (j + 1)" for j
    using that(3)[rule_format, of "j - 1"] that(1,2) i(2) by simp
  ultimately show ?thesis using i by (auto simp: first_out_of_order_def)
qed (use assms in \<open>simp add: checkSorted_def\<close>)

subsection \<open>Shards\<close>

lemma topBits_0 [simp]: "topBits l 0 = 0"
  by (simp add: topBits_def)

lemma topBits_Suc: "topBits l (Suc k) = 2 * topBits l k + bitAt l k"
  by (simp add: topBits_def levelBit_bitAt)

lemma topBits_less: "topBits l k < 2 ^ k"
proof (induction k)
  case (Suc k)
  then show ?case using bitAt_cases[of l k] by (auto simp: topBits_Suc)
qed simp

lemma bit_pair: "2 * a + b = 2 * c + d \<longleftrightarrow> a = c \<and> b = d" if "b = 0 \<or> b = 1" "d = 0 \<or> d = 1"
  for a b c d :: nat
  using that by presburger

lemma topBits_Suc_eq: "b = 0 \<or> b = 1 \<Longrightarrow> topBits l (Suc k) = 2 * s + b \<longleftrightarrow> topBits l k = s \<and> bitAt l k = b"
  unfolding topBits_Suc by (rule bit_pair[OF bitAt_cases])

lemma topBits_eq: "topBits a k = topBits b k \<longleftrightarrow> (\<forall>j<k. bitAt a j = bitAt b j)"
proof (induction k)
  case (Suc k)
  have "topBits a (Suc k) = topBits b (Suc k) \<longleftrightarrow> topBits a k = topBits b k \<and> bitAt a k = bitAt b k"
    unfolding topBits_Suc by (rule bit_pair[OF bitAt_cases bitAt_cases])
  then show ?case unfolding Suc by (auto simp: less_Suc_eq)
qed simp

lemma topBits_less_extends: "topBits a m < topBits b m \<Longrightarrow> topBits a (m + d) < topBits b (m + d)"
proof (induction d)
  case (Suc d)
  then show ?case using bitAt_cases[of a "m + d"] bitAt_cases[of b "m + d"] by (auto simp: topBits_Suc)
qed simp

lemma topBits_mono:
  assumes "length a = 32" "length b = 32" "a < b"
  shows "topBits a k \<le> topBits b k"
proof -
  obtain m where m: "\<forall>j<m. bitAt a j = bitAt b j" "bitAt a m = 0" "bitAt b m = 1"
    using label_order[OF assms] unfolding bits_less_def by blast
  have "topBits a (Suc m) < topBits b (Suc m)"
    using m(2,3) m(1)[folded topBits_eq] by (simp add: topBits_Suc)
  then show ?thesis
    using topBits_less_extends[of a "Suc m" b "k - Suc m"] m(1) topBits_eq[of a k b]
    by (cases "k \<le> m") auto
qed

definition shard :: "leaves \<Rightarrow> nat \<Rightarrow> nat \<Rightarrow> leaves" where
  "shard ls k s = filter (\<lambda>e. topBits (fst e) k = s) ls"

lemma shard_whole [simp]: "shard ls 0 0 = ls"
  by (simp add: shard_def)

lemma shard_half:
  "k < 256 \<Longrightarrow> b = 0 \<or> b = 1 \<Longrightarrow> level_half (255 - k) b (shard ls k s) = shard ls (Suc k) (2 * s + b)"
  by (simp add: level_half_def shard_def topBits_Suc_eq conj_commute)

lemma shard_path: "k \<le> 256 \<Longrightarrow> same_path (256 - k) (shard ls k s)"
  unfolding same_path_def shard_def
proof (intro ballI allI impI)
  fix x y j
  assume "k \<le> 256" "j < 256 - (256 - k)" "x \<in> set (filter (\<lambda>e. topBits (fst e) k = s) ls)"
    "y \<in> set (filter (\<lambda>e. topBits (fst e) k = s) ls)"
  then have "topBits (fst x) k = topBits (fst y) k" "j < k" by auto
  then show "bitAt (fst x) j = bitAt (fst y) j" unfolding topBits_eq by blast
qed

lemma smt_pre_half: "b = 0 \<or> b = 1 \<Longrightarrow> smt_pre sha n (level_half n b es) \<subseteq> smt_pre sha (Suc n) es"
  by (cases "es = []") auto

lemma shard_pre: "k \<le> 256 \<Longrightarrow> s < 2 ^ k \<Longrightarrow> smt_pre sha (256 - k) (shard ls k s) \<subseteq> smt_pre sha 256 ls"
proof (induction k arbitrary: s)
  case (Suc k)
  have b: "s mod 2 = 0 \<or> s mod 2 = 1" by auto
  have "level_half (255 - k) (s mod 2) (shard ls k (s div 2)) = shard ls (Suc k) s"
    using shard_half[OF _ b, of k ls "s div 2"] Suc.prems by simp
  moreover have "256 - k = Suc (255 - k)" "256 - Suc k = 255 - k" using Suc.prems by simp_all
  ultimately have "smt_pre sha (256 - Suc k) (shard ls (Suc k) s) \<subseteq> smt_pre sha (256 - k) (shard ls k (s div 2))"
    using smt_pre_half[OF b, of sha "255 - k" "shard ls k (s div 2)"] by metis
  also have "\<dots> \<subseteq> smt_pre sha 256 ls" by (rule Suc.IH) (use Suc.prems in auto)
  finally show ?case .
qed simp

lemma shard_slice:
  assumes "sorted_leaves ls" "s < 2 ^ k"
  shows "shard_bound ls k s \<le> shard_bound ls k (s + 1)" "shard_bound ls k (s + 1) \<le> length ls"
    and "go_slice (shard_bound ls k s) (shard_bound ls k (s + 1)) ls = shard ls k s"
proof -
  let ?t = "\<lambda>e. topBits (fst e) k"
  define B where "B p = search_loop (\<lambda>i. p \<le> ?t (ls ! i)) 0 (length ls)" for p
  have mono: "p \<le> ?t (ls ! j)" if "i \<le> j" "j < length ls" "p \<le> ?t (ls ! i)" for i j p
  proof (cases "i = j")
    case False
    then have "?t (ls ! i) \<le> ?t (ls ! j)"
      using topBits_mono sorted_leaves_nth[OF assms(1)] sorted_leaves_length[OF assms(1)] that by simp
    then show ?thesis using that by simp
  qed (use that in simp)
  have B: "B p \<le> length ls" "j < B p \<Longrightarrow> \<not> p \<le> ?t (ls ! j)" "B p \<le> j \<Longrightarrow> j < length ls \<Longrightarrow> p \<le> ?t (ls ! j)" for p j
    unfolding B_def using search_loop_mono[of 0 "length ls" "\<lambda>i. p \<le> ?t (ls ! i)"] mono by blast+
  have "B 0 = 0" using B(2)[of 0 0] by (cases "B 0") auto
  moreover have "B (2 ^ k) = length ls"
    using B(1)[of "2 ^ k"] B(3)[of "2 ^ k" "B (2 ^ k)"] topBits_less[of "fst (ls ! B (2 ^ k))" k]
    by (cases "B (2 ^ k) < length ls") auto
  ultimately have sb: "shard_bound ls k p = B p" for p
    by (simp add: shard_bound_def lowerBound_def lowerBound_search B_def)
  have le: "B s \<le> B (s + 1)"
  proof (rule ccontr)
    assume "\<not> ?thesis"
    then have "B (s + 1) < B s" "B (s + 1) < length ls" using B(1)[of s] by auto
    then show False using B(2)[of "B (s + 1)" s] B(3)[of "s + 1" "B (s + 1)"] by simp
  qed
  have f: "filter (\<lambda>e. s \<le> ?t e) ls = go_slice (B s) (length ls) ls"
    using split_slice(2)[of 0 "B s" "length ls" ls, where P = "\<lambda>e. s \<le> ?t e"] B by (simp add: go_slice_def)
  have "go_slice (B s) (B (s + 1)) ls = filter (\<lambda>e. \<not> s + 1 \<le> ?t e) (filter (\<lambda>e. s \<le> ?t e) ls)"
    unfolding f using split_slice(1)[OF le B(1) le_refl, where P = "\<lambda>e. s + 1 \<le> ?t e", OF B(2) B(3)] by simp
  also have "\<dots> = shard ls k s" unfolding shard_def filter_filter by (rule filter_cong) auto
  finally show "go_slice (shard_bound ls k s) (shard_bound ls k (s + 1)) ls = shard ls k s" by (simp add: sb)
  show "shard_bound ls k s \<le> shard_bound ls k (s + 1)" "shard_bound ls k (s + 1) \<le> length ls"
    using le B(1) by (simp_all add: sb)
qed

lemma join_levels_smt:
  assumes "\<And>m. length (sha m) = 32" "\<forall>m\<in>smt_pre sha 256 ls. sha m \<noteq> emptyNode"
  shows "k \<le> 256 \<Longrightarrow> join_levels sha k (map (\<lambda>s. smt sha (256 - k) (shard ls k s)) [0..<2 ^ k]) = smt sha 256 ls"
proof (induction k)
  case (Suc k)
  have n: "256 - Suc k = 255 - k" "Suc (255 - k) = 256 - k" using Suc.prems by simp_all
  let ?r = "map (\<lambda>s. smt sha (256 - Suc k) (shard ls (Suc k) s)) [0..<2 ^ Suc k]"
  have j: "join sha (?r ! (2 * i)) (?r ! (2 * i + 1)) = smt sha (256 - k) (shard ls k i)" if "i < 2 ^ k" for i
  proof -
    have "\<forall>m\<in>smt_pre sha (Suc (255 - k)) (shard ls k i). sha m \<noteq> emptyNode"
      unfolding n using shard_pre[OF _ that, of sha ls] Suc.prems assms(2) by fastforce
    from join_smt[OF assms(1) this] show ?thesis
      using that shard_half[of k 0 ls i] shard_half[of k 1 ls i] Suc.prems unfolding n by simp
  qed
  have "map (\<lambda>i. join sha (?r ! (2 * i)) (?r ! (2 * i + 1))) [0..<length ?r div 2] =
    map (\<lambda>s. smt sha (256 - k) (shard ls k s)) [0..<2 ^ k]"
    by (rule map_cong) (simp, rule j, simp)
  then show ?case unfolding join_levels.simps using Suc.IH Suc.prems by (simp only: Suc_leD)
qed (simp add: numeral_eq_Suc)

text \<open>No preimage the rebuild hashes has the hash that stands for nothing.\<close>

definition no_zero_hash :: "(bytes \<Rightarrow> bytes) \<Rightarrow> leaves \<Rightarrow> bool" where
  "no_zero_hash sha ls \<longleftrightarrow> (\<forall>m\<in>smt_pre sha 256 ls. sha m \<noteq> emptyNode)"

lemma TreeRoot_smt:
  assumes "\<And>m. length (sha m) = 32" "\<forall>e\<in>set ls. length (fst e) = 32" "no_zero_hash sha ls"
  shows "TreeRoot sha ls = (case checkSorted ls of Some i \<Rightarrow> Inl (NotAscending i) | None \<Rightarrow> Inr (smt sha 256 ls))"
proof (cases "checkSorted ls")
  case None
  then have "sorted_leaves ls" using checkSorted_iff[OF assms(2)] by simp
  then show ?thesis
    using subtree_smt[OF assms(1), of ls 256 0 "length ls"] assms(3) None
    by (simp add: TreeRoot_def go_slice_def no_zero_hash_def)
next
  case (Some i)
  then show ?thesis by (auto simp: TreeRoot_def checkSorted_def)
qed

lemma TreeRootParallel_smt:
  assumes "\<And>m. length (sha m) = 32" "\<forall>e\<in>set ls. length (fst e) = 32" "no_zero_hash sha ls" "1 \<le> d" "d \<le> 16"
  shows "TreeRootParallel sha ls d = (case checkSorted ls of Some i \<Rightarrow> Inl (NotAscending i) | None \<Rightarrow> Inr (smt sha 256 ls))"
proof (cases "checkSorted ls")
  case None
  then have s: "sorted_leaves ls" using checkSorted_iff[OF assms(2)] by simp
  let ?k = "nat d"
  have k: "?k \<le> 256" using assms(5) by simp
  have r: "subtree sha ls (shard_bound ls ?k i) (shard_bound ls ?k (i + 1)) ?k = Some (smt sha (256 - ?k) (shard ls ?k i))"
    if "i < 2 ^ ?k" for i
  proof -
    note sl = shard_slice[OF s that]
    have p: "same_path (256 - ?k) (go_slice (shard_bound ls ?k i) (shard_bound ls ?k (i + 1)) ls)"
      unfolding sl(3) by (rule shard_path[OF k])
    have z: "\<forall>m\<in>smt_pre sha (256 - ?k) (go_slice (shard_bound ls ?k i) (shard_bound ls ?k (i + 1)) ls). sha m \<noteq> emptyNode"
      unfolding sl(3) using shard_pre[OF k that] assms(3) unfolding no_zero_hash_def by blast
    show ?thesis
      using subtree_smt[OF assms(1) s diff_le_self sl(1,2) p z] unfolding diff_diff_cancel[OF k] sl(3) .
  qed
  let ?roots = "map (\<lambda>i. subtree sha ls (shard_bound ls ?k i) (shard_bound ls ?k (i + 1)) ?k) [0..<2 ^ ?k]"
  let ?hs = "map (\<lambda>i. smt sha (256 - ?k) (shard ls ?k i)) [0..<2 ^ ?k]"
  have roots: "?roots = map Some ?hs"
    unfolding map_map comp_def by (rule map_cong[OF refl]) (use r in simp)
  have top: "join_levels sha ?k ?hs = smt sha 256 ls"
    using join_levels_smt[OF assms(1) _ k] assms(3) by (simp add: no_zero_hash_def)
  have "list_all (\<lambda>r. r \<noteq> None) (map Some ?hs)" "map the (map Some ?hs) = ?hs"
    by (simp_all add: list_all_iff comp_def)
  then show ?thesis using assms(4,5) None
    unfolding TreeRootParallel_def Let_def roots top by (cases "ls = []") (simp_all only: top, simp_all)
next
  case (Some i)
  then show ?thesis using assms(4,5) by (auto simp: TreeRootParallel_def checkSorted_def)
qed

text \<open>
C12. On leaves with labels of 32 bytes, at every shard depth from 1 to 16, and when no
  preimage of the tree hashes to 32 zero bytes, the sharded rebuild gives what the
  sequential one gives: the root of the sparse tree of 256 levels over the entries when
  every label is above the one before it, and otherwise an error that names the first
  position whose label is not.
\<close>

theorem parallel_rebuild_agrees:
  assumes "\<And>m. length (sha m) = 32" "\<forall>e\<in>set ls. length (fst e) = 32" "no_zero_hash sha ls" "1 \<le> d" "d \<le> 16"
  shows "TreeRootParallel sha ls d = TreeRoot sha ls \<and>
    (if sorted_wrt (<) (map fst ls) then TreeRoot sha ls = Inr (smt sha 256 ls)
     else \<exists>i. first_out_of_order ls i \<and> TreeRoot sha ls = Inl (NotAscending i))"
proof (cases "checkSorted ls")
  case None
  then have "sorted_wrt (<) (map fst ls)" using checkSorted_iff[OF assms(2)] by (simp add: sorted_leaves_def)
  then show ?thesis using TreeRoot_smt[OF assms(1-3)] TreeRootParallel_smt[OF assms] None by simp
next
  case (Some i)
  then have "\<not> sorted_wrt (<) (map fst ls)" using checkSorted_iff[OF assms(2)] assms(2) by (simp add: sorted_leaves_def)
  then show ?thesis using TreeRoot_smt[OF assms(1-3)] TreeRootParallel_smt[OF assms] checkSorted_Some[OF assms(2) Some] Some
    by auto
qed

subsection \<open>A root commits to the directory\<close>

lemma sorted_leaves_distinct: "sorted_leaves es \<Longrightarrow> distinct (map fst es)"
  unfolding sorted_leaves_def using strict_sorted_iff by blast

lemma sorted_leaves_unique:
  assumes "sorted_leaves es" "sorted_leaves es'" "set es = set es'"
  shows "es = es'"
proof -
  have "fst ` set es = fst ` set es'" using assms(3) by simp
  then have "map fst es = map fst es'"
    using strict_sorted_equal[of "map fst es" "map fst es'"] assms(1,2) by (simp add: sorted_leaves_def)
  moreover have "map_of es = map_of es'"
    using assms(3) map_of_inject_set[OF sorted_leaves_distinct[OF assms(1)] sorted_leaves_distinct[OF assms(2)]] by simp
  note calc = calculation this
  have "es = map (\<lambda>k. (k, the (map_of es k))) (map fst es)" if "sorted_leaves es" for es
    using sorted_leaves_distinct[OF that] by (auto simp: comp_def intro!: map_idI[symmetric])
  from this[OF assms(1)] this[OF assms(2)] show ?thesis using calc by simp
qed

lemma smt_inj:
  assumes "\<And>m. length (sha m) = 32"
  shows "n \<le> 256 \<Longrightarrow> sorted_leaves es \<Longrightarrow> sorted_leaves es' \<Longrightarrow> same_path n (es @ es') \<Longrightarrow>
    inj_on sha (smt_pre sha n es \<union> smt_pre sha n es') \<Longrightarrow>
    \<forall>m\<in>smt_pre sha n es \<union> smt_pre sha n es'. sha m \<noteq> emptyNode \<Longrightarrow>
    smt sha n es = smt sha n es' \<Longrightarrow> es = es'"
proof (induction n arbitrary: es es')
  case (0 es es')
  note prems = 0
  show ?case
  proof (cases "es = [] \<or> es' = []")
    case True
    then show ?thesis using prems(6,7) smt_nonempty[of es sha 0] smt_nonempty[of es' sha 0]
      by (cases "es = []"; cases "es' = []") auto
  next
    case False
    have "same_path 0 es" "same_path 0 es'" by (rule same_path_sub[OF prems(4)], simp)+
    then have "length es \<le> 1" "length es' \<le> 1" using singleton_bottom prems(2,3) by blast+
    then obtain x y where e: "es = [x]" "es' = [y]" using False by (cases es; cases es') auto
    have "sha (snd x) = sha (snd y)" using prems(7) by (simp add: e)
    then have "snd x = snd y" by (rule inj_onD[OF prems(5)]) (simp_all add: e)
    moreover have "\<forall>j<256. bitAt (fst x) j = bitAt (fst y) j"
      by (intro allI impI same_pathD[OF prems(4)]) (simp_all add: e)
    moreover have "length (fst x) = 32" "length (fst y) = 32" using prems(2,3) by (simp_all add: e sorted_leaves_def)
    ultimately have "fst x = fst y" "snd x = snd y" using same_label by blast+
    then show ?thesis by (simp add: e prod_eq_iff)
  qed
next
  case (Suc n es es')
  note prems = Suc.prems
  show ?case
  proof (cases "es = [] \<or> es' = []")
    case True
    then show ?thesis using prems(6,7) smt_nonempty[of es sha "Suc n"] smt_nonempty[of es' sha "Suc n"]
      by (cases "es = []"; cases "es' = []") (simp_all del: smt.simps smt_pre.simps)
  next
    case False
    let ?m = "\<lambda>es. smt sha n (level_half n 0 es) @ smt sha n (level_half n 1 es)"
    have "sha (?m es) = sha (?m es')" using prems(7) False by simp
    then have "?m es = ?m es'" by (rule inj_onD[OF prems(5)]) (use False in simp_all)
    then have eq: "smt sha n (level_half n b es) = smt sha n (level_half n b es')" if "b = 0 \<or> b = 1" for b
      using that length_smt[of sha, OF assms] by (auto simp: append_eq_append_conv)
    have half: "level_half n b es = level_half n b es'" if b: "b = 0 \<or> b = 1" for b
    proof (rule Suc.IH)
      have sub: "smt_pre sha n (level_half n b es) \<union> smt_pre sha n (level_half n b es') \<subseteq>
        smt_pre sha (Suc n) es \<union> smt_pre sha (Suc n) es'" using smt_pre_half[OF b] by blast
      show "inj_on sha (smt_pre sha n (level_half n b es) \<union> smt_pre sha n (level_half n b es'))"
        using prems(5) sub by (rule inj_on_subset)
      show "\<forall>m\<in>smt_pre sha n (level_half n b es) \<union> smt_pre sha n (level_half n b es'). sha m \<noteq> emptyNode"
        using prems(6) sub by blast
      have "level_half n b (es @ es') = level_half n b es @ level_half n b es'" by (simp add: level_half_def)
      then show "same_path n (level_half n b es @ level_half n b es')"
        using same_path_half[OF prems(4)] prems(1) by (metis Suc_le_lessD)
    qed (use prems(1) sorted_leaves_half[OF prems(2)] sorted_leaves_half[OF prems(3)] eq[OF b] in simp_all)
    have "set es = set (level_half n 0 es) \<union> set (level_half n 1 es)" for es
      using halves_partition[of _ es n] by blast
    then have "set es = set es'" using half by metis
    then show ?thesis by (rule sorted_leaves_unique[OF prems(2,3)])
  qed
qed

lemma TreeRootParallel_ok:
  assumes "\<And>m. length (sha m) = 32" "\<forall>e\<in>set ls. length (fst e) = 32" "no_zero_hash sha ls"
    and "TreeRootParallel sha ls d = Inr r"
  shows "sorted_leaves ls" "r = smt sha 256 ls"
proof -
  have "1 \<le> d" "d \<le> 16" using assms(4) by (auto simp: TreeRootParallel_def split: if_splits)
  then have "(case checkSorted ls of Some i \<Rightarrow> Inl (NotAscending i) | None \<Rightarrow> Inr (smt sha 256 ls)) = (Inr r :: tree_error + bytes)"
    using TreeRootParallel_smt[OF assms(1-3)] assms(4) by simp
  then show "sorted_leaves ls" "r = smt sha 256 ls"
    using checkSorted_iff[OF assms(2)] by (auto split: option.splits)
qed

text \<open>
C13. Two dumps that rebuild to one root, at whatever shard depths, are the same dump,
  unless SHA-256 collides on a preimage hashed for the two.
\<close>

theorem equal_roots_same_directory:
  assumes "\<And>m. length (sha m) = 32"
    and "\<forall>e\<in>set ls. length (fst e) = 32" "\<forall>e\<in>set ls'. length (fst e) = 32"
    and "no_zero_hash sha ls" "no_zero_hash sha ls'"
    and "TreeRootParallel sha ls d = Inr r" "TreeRootParallel sha ls' d' = Inr r"
  shows "ls = ls' \<or> collides sha (smt_pre sha 256 ls \<union> smt_pre sha 256 ls')"
proof (rule or_collidesI)
  assume inj: "inj_on sha (smt_pre sha 256 ls \<union> smt_pre sha 256 ls')"
  note a = TreeRootParallel_ok[OF assms(1,2,4,6)] and b = TreeRootParallel_ok[OF assms(1,3,5,7)]
  show "ls = ls'"
    by (rule smt_inj[of sha 256 ls ls', OF assms(1) _ a(1) b(1) _ inj])
      (use a(2) b(2) assms(4,5) in \<open>auto simp: no_zero_hash_def\<close>)
qed

subsection \<open>Instances\<close>

text \<open>A hash for worked instances whose values are never all zero.\<close>

definition one_sha :: "bytes \<Rightarrow> bytes" where
  "one_sha x = replicate 31 1 @ [foldl (\<lambda>a b. 31 * a + b) 7 x]"

lemma length_one_sha [simp]: "length (one_sha x) = 32"
  by (simp add: one_sha_def)

lemma one_sha_nonzero: "one_sha x \<noteq> emptyNode"
  by (simp add: one_sha_def emptyNode_def hashSize_def numeral_eq_Suc)

lemma no_zero_one_sha: "no_zero_hash one_sha ls"
  by (simp add: no_zero_hash_def one_sha_nonzero)

definition wit_leaves :: leaves where
  "wit_leaves = [(h32 1, replicate 32 5 @ [0, 0, 0, 9]), (h32 2, replicate 32 6 @ [0, 0, 0, 9])]"

lemma wit_leaves_ok: "\<forall>e\<in>set wit_leaves. length (fst e) = 32" "checkSorted wit_leaves = None" "sorted_leaves wit_leaves"
proof -
  show l: "\<forall>e\<in>set wit_leaves. length (fst e) = 32" by (simp add: wit_leaves_def)
  show c: "checkSorted wit_leaves = None" by code_simp
  show "sorted_leaves wit_leaves" using c checkSorted_iff[OF l] by simp
qed

theorem parallel_rebuild_agrees_witness:
  "TreeRootParallel one_sha wit_leaves 3 = Inr (smt one_sha 256 wit_leaves) \<and>
    (\<exists>i. first_out_of_order (wit_leaves @ wit_leaves) i \<and>
      TreeRootParallel one_sha (wit_leaves @ wit_leaves) 3 = Inl (NotAscending i))"
proof -
  have s: "sorted_wrt (<) (map fst wit_leaves)" using wit_leaves_ok(3) by (simp add: sorted_leaves_def)
  have u: "\<not> sorted_wrt (<) (map fst (wit_leaves @ wit_leaves))" by (simp add: wit_leaves_def)
  have l: "\<forall>e\<in>set (wit_leaves @ wit_leaves). length (fst e) = 32" using wit_leaves_ok(1) by simp
  have "TreeRootParallel one_sha wit_leaves 3 = TreeRoot one_sha wit_leaves \<and> TreeRoot one_sha wit_leaves = Inr (smt one_sha 256 wit_leaves)"
    using parallel_rebuild_agrees[OF length_one_sha wit_leaves_ok(1) no_zero_one_sha, of 3] s by simp
  then show ?thesis
    using parallel_rebuild_agrees[OF length_one_sha l no_zero_one_sha, of 3] u by simp
qed

lemma wit_root: "1 \<le> d \<Longrightarrow> d \<le> 16 \<Longrightarrow> TreeRootParallel one_sha wit_leaves d = Inr (smt one_sha 256 wit_leaves)"
  by (subst TreeRootParallel_smt) (simp_all add: wit_leaves_ok no_zero_one_sha)

theorem equal_roots_same_directory_witness:
  "wit_leaves = wit_leaves \<or> collides one_sha (smt_pre one_sha 256 wit_leaves \<union> smt_pre one_sha 256 wit_leaves)"
  by (rule equal_roots_same_directory[of one_sha wit_leaves wit_leaves 1 "smt one_sha 256 wit_leaves" 2])
    (simp_all add: wit_leaves_ok no_zero_one_sha wit_root)

end
