(* ===== verification/Proton_Diff.thy ===== *)
theory Proton_Diff
  imports Proton_Tree "HOL-Library.Char_ord"
begin

text \<open>
  An epoch's diff merged into the retained tree, and the removals it makes judged against the
  retention window: \<open>ApplyDiff\<close> of \<open>internal/source/proton/tree.go\<close> and \<open>removals.go\<close>.  The
  writer given to \<open>ApplyDiff\<close> is a function on a state of its own and may fail.
\<close>

subsection \<open>Applying a diff\<close>

definition diffEntrySize :: nat where "diffEntrySize = 1 + labelSize + valueSize"
definition OpAdd :: byte where "OpAdd = 1"
definition OpRemove :: byte where "OpRemove = 2"

record Removal =
  rmLabel :: bytes
  rmValue :: bytes

record DiffStats =
  Added :: nat
  Removed :: nat
  Overwritten :: nat
  PhantomRemovals :: nat
  ValueMismatches :: nat
  Removals :: "Removal list"
  PhantomRemoved :: "Removal list"

definition no_stats :: DiffStats where
  "no_stats = \<lparr>Added = 0, Removed = 0, Overwritten = 0, PhantomRemovals = 0, ValueMismatches = 0,
     Removals = [], PhantomRemoved = []\<rparr>"

definition Suspicious :: "DiffStats \<Rightarrow> bool" where
  "Suspicious d \<longleftrightarrow> Removed d > 0 \<or> Overwritten d > 0 \<or> PhantomRemovals d > 0 \<or> ValueMismatches d > 0"

datatype 'e diff_error = PartialRecord | DiffNotAscending nat | UnknownOperation byte | WriteFailed 'e

type_synonym diff_rec = "byte \<times> bytes \<times> bytes"

definition dOp :: "bytes \<Rightarrow> nat \<Rightarrow> byte" where
  "dOp diff i = diff ! (i * diffEntrySize)"

definition dLabel :: "bytes \<Rightarrow> nat \<Rightarrow> bytes" where
  "dLabel diff i = go_slice (i * diffEntrySize + 1) (i * diffEntrySize + 1 + labelSize) diff"

definition dValue :: "bytes \<Rightarrow> nat \<Rightarrow> bytes" where
  "dValue diff i = go_slice (i * diffEntrySize + 1 + labelSize) ((i + 1) * diffEntrySize) diff"

definition diff_recs :: "bytes \<Rightarrow> diff_rec list" where
  "diff_recs diff = map (\<lambda>i. (dOp diff i, dLabel diff i, dValue diff i)) [0..<length diff div diffEntrySize]"

fun diff_unsorted :: "nat \<Rightarrow> diff_rec list \<Rightarrow> nat option" where
  "diff_unsorted i (a # b # ds) =
     (if compare_bytes (fst (snd a)) (fst (snd b)) \<ge> 0 then Some i else diff_unsorted (i + 1) (b # ds))"
| "diff_unsorted i _ = None"

definition note_removal :: "bytes \<Rightarrow> bytes \<Rightarrow> bytes \<Rightarrow> DiffStats \<Rightarrow> DiffStats" where
  "note_removal l v dv st =
     (let st = st\<lparr>Removed := Removed st + 1, Removals := Removals st @ [\<lparr>rmLabel = l, rmValue = v\<rparr>]\<rparr>
      in if compare_bytes v dv \<noteq> 0 then st\<lparr>ValueMismatches := ValueMismatches st + 1\<rparr> else st)"

definition note_phantom :: "bytes \<Rightarrow> bytes \<Rightarrow> DiffStats \<Rightarrow> DiffStats" where
  "note_phantom l v st =
     st\<lparr>PhantomRemovals := PhantomRemovals st + 1,
        PhantomRemoved := PhantomRemoved st @ [\<lparr>rmLabel = l, rmValue = v\<rparr>]\<rparr>"

type_synonym ('e, 's) writer = "'s \<Rightarrow> bytes \<Rightarrow> bytes \<Rightarrow> 'e + 's"

text \<open>The two loops that run when one side is exhausted.\<close>

fun tree_tail :: "('e, 's) writer \<Rightarrow> 's \<Rightarrow> leaves \<Rightarrow> 'e diff_error + 's" where
  "tree_tail out s [] = Inr s"
| "tree_tail out s ((l, v) # ls) =
     (case out s l v of Inl e \<Rightarrow> Inl (WriteFailed e) | Inr s' \<Rightarrow> tree_tail out s' ls)"

fun diff_tail :: "('e, 's) writer \<Rightarrow> DiffStats \<Rightarrow> 's \<Rightarrow> diff_rec list \<Rightarrow> 'e diff_error + DiffStats \<times> 's" where
  "diff_tail out st s [] = Inr (st, s)"
| "diff_tail out st s ((op, l, v) # ds) =
     (if op = OpAdd then
        (case out s l v of
           Inl e \<Rightarrow> Inl (WriteFailed e)
         | Inr s' \<Rightarrow> diff_tail out (st\<lparr>Added := Added st + 1\<rparr>) s' ds)
      else if op = OpRemove then diff_tail out (note_phantom l v st) s ds
      else diff_tail out st s ds)"

fun merge_loop :: "('e, 's) writer \<Rightarrow> DiffStats \<Rightarrow> 's \<Rightarrow> leaves \<Rightarrow> diff_rec list \<Rightarrow>
    'e diff_error + DiffStats \<times> 's" where
  "merge_loop out st s ((l, v) # ls) ((op, dl, dv) # ds) =
     (if compare_bytes l dl = - 1 then
        (case out s l v of
           Inl e \<Rightarrow> Inl (WriteFailed e)
         | Inr s' \<Rightarrow> merge_loop out st s' ls ((op, dl, dv) # ds))
      else if compare_bytes l dl = 0 then
        (if op = OpRemove then merge_loop out (note_removal l v dv st) s ls ds
         else if op = OpAdd then
           (case out s l v of
              Inl e \<Rightarrow> Inl (WriteFailed e)
            | Inr s' \<Rightarrow> merge_loop out (st\<lparr>Overwritten := Overwritten st + 1\<rparr>) s' ls ds)
         else Inl (UnknownOperation op))
      else
        (if op = OpAdd then
           (case out s dl dv of
              Inl e \<Rightarrow> Inl (WriteFailed e)
            | Inr s' \<Rightarrow> merge_loop out (st\<lparr>Added := Added st + 1\<rparr>) s' ((l, v) # ls) ds)
         else if op = OpRemove then merge_loop out (note_phantom dl dv st) s ((l, v) # ls) ds
         else Inl (UnknownOperation op)))"
| "merge_loop out st s ls [] =
     (case tree_tail out s ls of Inl e \<Rightarrow> Inl e | Inr s' \<Rightarrow> Inr (st, s'))"
| "merge_loop out st s [] ds = diff_tail out st s ds"

definition ApplyDiff :: "('e, 's) writer \<Rightarrow> 's \<Rightarrow> leaves \<Rightarrow> bytes \<Rightarrow> 'e diff_error + DiffStats \<times> 's" where
  "ApplyDiff out s tree diff =
     (if length diff mod diffEntrySize \<noteq> 0 then Inl PartialRecord
      else case diff_unsorted 1 (diff_recs diff) of
             Some i \<Rightarrow> Inl (DiffNotAscending i)
           | None \<Rightarrow> merge_loop out no_stats s tree (diff_recs diff))"

subsection \<open>Judging removals\<close>

datatype removal_error = ValueLength nat | LabelLength nat

definition MinEpochID :: "bytes \<Rightarrow> removal_error + int" where
  "MinEpochID value =
     (if length value \<noteq> valueSize then Inl (ValueLength (length value))
      else Inr (int (be_nat (drop hashSize value))))"

definition Revision :: "bytes \<Rightarrow> removal_error + int" where
  "Revision label =
     (if length label \<noteq> labelSize then Inl (LabelLength (length label))
      else Inr (int (be_nat (drop (labelSize - 4) label))))"

record RemovalVerdict =
  vLabel :: bytes
  vMinEpochID :: int
  vRevision :: int
  vExplained :: bool
  vPhantom :: bool

record RemovalReport =
  rEpochID :: int
  rStartEpochID :: int
  rExplained :: nat
  rUnexplained :: "RemovalVerdict list"
  rUndatable :: nat
  rOldestRemoved :: int
  rNewestRemoved :: int

definition Judged :: "RemovalReport \<Rightarrow> bool" where
  "Judged r \<longleftrightarrow> rStartEpochID r > 0"

definition Clean :: "RemovalReport \<Rightarrow> bool" where
  "Clean r \<longleftrightarrow> Judged r \<and> length (rUnexplained r) = 0 \<and> rUndatable r = 0"

definition judge :: "int \<Rightarrow> RemovalReport \<Rightarrow> Removal \<times> bool \<Rightarrow> RemovalReport" where
  "judge startEpochID rep = (\<lambda>(rm, phantom).
     case MinEpochID (rmValue rm) of
       Inl _ \<Rightarrow> rep\<lparr>rUndatable := rUndatable rep + 1\<rparr>
     | Inr m \<Rightarrow>
         (case Revision (rmLabel rm) of
            Inl _ \<Rightarrow> rep\<lparr>rUndatable := rUndatable rep + 1\<rparr>
          | Inr rv \<Rightarrow>
              let rep = (if rOldestRemoved rep = 0 \<or> m < rOldestRemoved rep then rep\<lparr>rOldestRemoved := m\<rparr> else rep);
                  rep = (if m > rNewestRemoved rep then rep\<lparr>rNewestRemoved := m\<rparr> else rep);
                  v = \<lparr>vLabel = rmLabel rm, vMinEpochID = m, vRevision = rv,
                       vExplained = (startEpochID > 0 \<and> m < startEpochID), vPhantom = phantom\<rparr>
              in if vExplained v then rep\<lparr>rExplained := rExplained rep + 1\<rparr>
                 else rep\<lparr>rUnexplained := rUnexplained rep @ [v]\<rparr>))"

text \<open>\<open>sort.Slice\<close> is a parameter: it sorts, and which of two equal elements comes first is its choice.\<close>

definition JudgeRemovals :: "(RemovalVerdict list \<Rightarrow> RemovalVerdict list) \<Rightarrow> DiffStats \<Rightarrow> int \<Rightarrow> int \<Rightarrow> RemovalReport" where
  "JudgeRemovals srt stats epochID startEpochID =
     (let rep = \<lparr>rEpochID = epochID, rStartEpochID = startEpochID, rExplained = 0, rUnexplained = [],
                 rUndatable = 0, rOldestRemoved = 0, rNewestRemoved = 0\<rparr>;
          rep = foldl (judge startEpochID) rep (map (\<lambda>rm. (rm, False)) (Removals stats));
          rep = foldl (judge startEpochID) rep (map (\<lambda>rm. (rm, True)) (PhantomRemoved stats))
      in rep\<lparr>rUnexplained := srt (rUnexplained rep)\<rparr>)"

definition sorts_unexplained :: "(RemovalVerdict list \<Rightarrow> RemovalVerdict list) \<Rightarrow> bool" where
  "sorts_unexplained srt \<longleftrightarrow> (\<forall>vs. mset (srt vs) = mset vs \<and> sorted (map vMinEpochID (srt vs)))"

subsection \<open>Grouping removals by address\<close>

record LabelRemovals =
  lrPrefix :: string
  lrRevisions :: "int list"
  lrContiguous :: bool
  lrFromOne :: bool

fun contiguous_run :: "int list \<Rightarrow> bool" where
  "contiguous_run (a # b # rs) = (if b \<noteq> a + 1 then False else contiguous_run (b # rs))"
| "contiguous_run _ = True"

text \<open>The pairs (prefix, revision) the loop appends to \<open>byPrefix\<close>, in order.\<close>

fun prefixed :: "Removal list \<Rightarrow> (string \<times> int) list" where
  "prefixed [] = []"
| "prefixed (rm # rms) =
     (if length (rmLabel rm) < 32 then prefixed rms
      else case Revision (rmLabel rm) of
             Inl _ \<Rightarrow> prefixed rms
           | Inr rv \<Rightarrow> (EncodeToString (take 28 (rmLabel rm)), rv) # prefixed rms)"

definition label_removals :: "string \<Rightarrow> int list \<Rightarrow> LabelRemovals" where
  "label_removals p revs =
     (let rs = sort revs
      in \<lparr>lrPrefix = p, lrRevisions = rs, lrContiguous = contiguous_run rs, lrFromOne = (rs ! 0 = 1)\<rparr>)"

text \<open>
  The map is iterated in an order Go leaves open and the result sorted by prefix; the prefixes
  are distinct, so the result is the groups in ascending order of prefix.
\<close>

definition GroupRemovalsByLabel :: "DiffStats option \<Rightarrow> LabelRemovals list" where
  "GroupRemovalsByLabel stats =
     (case stats of
        None \<Rightarrow> []
      | Some st \<Rightarrow>
          (let ps = prefixed (Removals st)
           in map (\<lambda>p. label_removals p (map snd (filter (\<lambda>e. fst e = p) ps)))
                (sorted_list_of_set (set (map fst ps)))))"

definition IrregularRemovals :: "DiffStats option \<Rightarrow> LabelRemovals list" where
  "IrregularRemovals stats = filter (\<lambda>lr. \<not> lrContiguous lr) (GroupRemovalsByLabel stats)"

subsection \<open>What a merge keeps, drops and adds\<close>

abbreviation recLabel :: "diff_rec \<Rightarrow> bytes" where "recLabel d \<equiv> fst (snd d)"

definition sorted_recs :: "diff_rec list \<Rightarrow> bool" where
  "sorted_recs ds \<longleftrightarrow> sorted_wrt (<) (map recLabel ds) \<and> (\<forall>d\<in>set ds. length (recLabel d) = 32)"

definition has_op :: "byte \<Rightarrow> diff_rec list \<Rightarrow> bytes \<Rightarrow> bool" where
  "has_op op ds l \<longleftrightarrow> list_ex (\<lambda>d. fst d = op \<and> recLabel d = l) ds"

definition in_tree :: "leaves \<Rightarrow> bytes \<Rightarrow> bool" where
  "in_tree ls l \<longleftrightarrow> list_ex (\<lambda>e. fst e = l) ls"

definition kept :: "leaves \<Rightarrow> diff_rec list \<Rightarrow> leaves" where
  "kept ls ds = filter (\<lambda>e. \<not> has_op OpRemove ds (fst e)) ls"

definition dropped :: "leaves \<Rightarrow> diff_rec list \<Rightarrow> leaves" where
  "dropped ls ds = filter (\<lambda>e. has_op OpRemove ds (fst e)) ls"

definition with_op :: "byte \<Rightarrow> bool \<Rightarrow> leaves \<Rightarrow> diff_rec list \<Rightarrow> diff_rec list" where
  "with_op op present ls ds = filter (\<lambda>d. fst d = op \<and> in_tree ls (recLabel d) = present) ds"

definition mismatched :: "leaves \<Rightarrow> diff_rec list \<Rightarrow> leaves" where
  "mismatched ls ds =
     filter (\<lambda>e. list_ex (\<lambda>d. fst d = OpRemove \<and> recLabel d = fst e \<and> compare_bytes (snd e) (snd (snd d)) \<noteq> 0) ds) ls"

lemmas merge_sets = has_op_def in_tree_def kept_def dropped_def with_op_def mismatched_def

lemma ops_differ [simp]: "OpAdd \<noteq> OpRemove" "OpRemove \<noteq> OpAdd"
  by (simp_all add: OpAdd_def OpRemove_def)

text \<open>The first leaf is below every record.\<close>

lemma leaf_first:
  assumes "\<forall>d\<in>set ds. l < recLabel d"
  shows "kept ((l, v) # ls) ds = (l, v) # kept ls ds" "dropped ((l, v) # ls) ds = dropped ls ds"
    and "with_op op p ((l, v) # ls) ds = with_op op p ls ds" "mismatched ((l, v) # ls) ds = mismatched ls ds"
  using assms by (auto simp: merge_sets list_ex_iff intro!: filter_cong)

text \<open>The first record is below every leaf.\<close>

lemma record_first:
  assumes "\<forall>e\<in>set ls. dl < fst e"
  shows "kept ls ((op, dl, dv) # ds) = kept ls ds" "dropped ls ((op, dl, dv) # ds) = dropped ls ds"
    and "with_op op' p ls ((op, dl, dv) # ds) =
      (if op = op' \<and> \<not> p then (op, dl, dv) # with_op op' p ls ds else with_op op' p ls ds)"
    and "mismatched ls ((op, dl, dv) # ds) = mismatched ls ds"
  using assms by (auto simp: merge_sets list_ex_iff intro!: filter_cong)

text \<open>The first leaf and the first record have the same label.\<close>

lemma both_first:
  assumes "\<forall>d\<in>set ds. l < recLabel d" "\<forall>e\<in>set ls. l < fst e"
  shows "kept ((l, v) # ls) ((op, l, dv) # ds) = (if op = OpRemove then kept ls ds else (l, v) # kept ls ds)"
    and "dropped ((l, v) # ls) ((op, l, dv) # ds) = (if op = OpRemove then (l, v) # dropped ls ds else dropped ls ds)"
    and "with_op op' p ((l, v) # ls) ((op, l, dv) # ds) =
      (if op = op' \<and> p then (op, l, dv) # with_op op' p ls ds else with_op op' p ls ds)"
    and "mismatched ((l, v) # ls) ((op, l, dv) # ds) =
      (if op = OpRemove \<and> compare_bytes v dv \<noteq> 0 then (l, v) # mismatched ls ds else mismatched ls ds)"
  using assms by (auto simp: merge_sets list_ex_iff intro!: filter_cong)

lemma merge_Nil [simp]:
  "kept ls [] = ls" "dropped ls [] = []" "with_op op p ls [] = []" "mismatched ls [] = []"
  "kept [] ds = []" "dropped [] ds = []" "mismatched [] ds = []"
  by (simp_all add: merge_sets)

lemma with_op_Nil: "with_op op p [] ds = (if p then [] else filter (\<lambda>d. fst d = op) ds)"
  by (auto simp: merge_sets)

definition removal :: "bytes \<times> bytes \<Rightarrow> Removal" where
  "removal e = \<lparr>rmLabel = fst e, rmValue = snd e\<rparr>"

definition stats_of :: "DiffStats \<Rightarrow> leaves \<Rightarrow> diff_rec list \<Rightarrow> DiffStats" where
  "stats_of st ls ds =
     \<lparr>Added = Added st + length (with_op OpAdd False ls ds),
      Removed = Removed st + length (dropped ls ds),
      Overwritten = Overwritten st + length (with_op OpAdd True ls ds),
      PhantomRemovals = PhantomRemovals st + length (with_op OpRemove False ls ds),
      ValueMismatches = ValueMismatches st + length (mismatched ls ds),
      Removals = Removals st @ map removal (dropped ls ds),
      PhantomRemoved = PhantomRemoved st @ map (removal \<circ> snd) (with_op OpRemove False ls ds)\<rparr>"

lemma diff_tail_stats: "diff_tail out st s ds = Inr (st', s') \<Longrightarrow> st' = stats_of st [] ds"
  by (induction out st s ds rule: diff_tail.induct)
    (auto simp: stats_of_def with_op_Nil note_phantom_def removal_def split: if_splits sum.splits)

lemma sorted_leaves_Cons:
  "sorted_leaves ((l, v) # ls) \<longleftrightarrow> length l = 32 \<and> sorted_leaves ls \<and> (\<forall>e\<in>set ls. l < fst e)"
  by (auto simp: sorted_leaves_def)

lemma sorted_recs_Cons:
  "sorted_recs ((op, l, v) # ds) \<longleftrightarrow> length l = 32 \<and> sorted_recs ds \<and> (\<forall>d\<in>set ds. l < recLabel d)"
  by (auto simp: sorted_recs_def)

lemma sorted_leaves_Nil [simp]: "sorted_leaves []"
  by (simp add: sorted_leaves_def)

text \<open>The three ways two heads compare, with the side that is below everything else.\<close>

lemma heads_cases:
  assumes "sorted_leaves ((l, v) # ls)" "sorted_recs ((op, dl, dv) # ds)"
  obtains (leaf) "compare_bytes l dl = - 1" "\<forall>d\<in>set ((op, dl, dv) # ds). l < recLabel d"
    | (both) "compare_bytes l dl = 0" "dl = l" "\<forall>d\<in>set ds. l < recLabel d" "\<forall>e\<in>set ls. l < fst e"
    | (rec) "compare_bytes l dl = 1" "\<forall>e\<in>set ((l, v) # ls). dl < fst e"
proof -
  have l: "length l = length dl" using assms by (simp add: sorted_leaves_Cons sorted_recs_Cons)
  consider "l < dl" | "l = dl" | "dl < l" by fastforce
  then show thesis
  proof cases
    case 1
    moreover have "\<forall>d\<in>set ds. dl < recLabel d" using assms(2) by (simp add: sorted_recs_Cons)
    ultimately have "\<forall>d\<in>set ((op, dl, dv) # ds). l < recLabel d" using less_trans by auto
    then show thesis using leaf compare_bytes_cases[OF l] 1 by simp
  next
    case 2
    have "\<forall>d\<in>set ds. l < recLabel d" "\<forall>e\<in>set ls. l < fst e"
      using assms 2 by (simp_all add: sorted_recs_Cons sorted_leaves_Cons)
    moreover have "compare_bytes l dl = 0" using compare_bytes_cases[OF l] 2 by simp
    ultimately show thesis using both 2 by blast
  next
    case 3
    moreover have "\<forall>e\<in>set ls. l < fst e" using assms(1) by (simp add: sorted_leaves_Cons)
    ultimately have "\<forall>e\<in>set ((l, v) # ls). dl < fst e" using less_trans by auto
    moreover have "compare_bytes l dl = 1" using compare_bytes_cases[OF l] 3 less_asym by auto
    ultimately show thesis using rec by blast
  qed
qed

lemma merge_loop_stats:
  "sorted_leaves ls \<Longrightarrow> sorted_recs ds \<Longrightarrow> merge_loop out st s ls ds = Inr (st', s') \<Longrightarrow> st' = stats_of st ls ds"
proof (induction out st s ls ds rule: merge_loop.induct)
  case (1 out st s l v ls op dl dv ds)
  note sorted = 1(6,7) and run = 1(8)
  have tails: "sorted_leaves ls" "sorted_recs ds" using sorted by (simp_all add: sorted_leaves_Cons sorted_recs_Cons)
  from sorted show ?case
  proof (cases rule: heads_cases)
    case leaf
    then obtain s1 where "merge_loop out st s1 ls ((op, dl, dv) # ds) = Inr (st', s')" "out s l v = Inr s1"
      using run by (auto split: sum.splits)
    then have "st' = stats_of st ls ((op, dl, dv) # ds)" using 1(1) leaf tails sorted(2) by blast
    then show ?thesis using leaf_first[OF leaf(2)] by (simp add: stats_of_def)
  next
    case both
    show ?thesis
    proof (cases "op = OpRemove")
      case True
      then have "st' = stats_of (note_removal l v dv st) ls ds" using 1(2) both tails run by simp
      then show ?thesis using True both_first[OF both(3,4)] both(2)
        by (auto simp: stats_of_def note_removal_def removal_def Let_def)
    next
      case False
      then obtain s1 where a: "op = OpAdd" "out s l v = Inr s1"
        "merge_loop out (st\<lparr>Overwritten := Overwritten st + 1\<rparr>) s1 ls ds = Inr (st', s')"
        using run both by (auto split: sum.splits if_splits)
      then have "st' = stats_of (st\<lparr>Overwritten := Overwritten st + 1\<rparr>) ls ds" using 1(3) both False tails by simp
      then show ?thesis using a both_first[OF both(3,4)] both(2) by (simp add: stats_of_def)
    qed
  next
    case rec
    show ?thesis
    proof (cases "op = OpAdd")
      case True
      then obtain s1 where a: "out s dl dv = Inr s1"
        "merge_loop out (st\<lparr>Added := Added st + 1\<rparr>) s1 ((l, v) # ls) ds = Inr (st', s')"
        using run rec by (auto split: sum.splits)
      then have "st' = stats_of (st\<lparr>Added := Added st + 1\<rparr>) ((l, v) # ls) ds"
        using 1(4) rec True tails sorted(1) by simp
      then show ?thesis using True record_first[OF rec(2)] by (simp add: stats_of_def)
    next
      case False
      then have op: "op = OpRemove" using run rec by (auto split: if_splits)
      then have "st' = stats_of (note_phantom dl dv st) ((l, v) # ls) ds"
        using 1(5) rec tails run sorted(1) by simp
      then show ?thesis using op record_first[OF rec(2)] by (simp add: stats_of_def note_phantom_def removal_def)
    qed
  qed
next
  case (2 out st s ls)
  then show ?case by (simp add: stats_of_def split: sum.splits)
next
  case (3 out st s d ds)
  then show ?case using diff_tail_stats[of out st s "d # ds"] by (cases d) simp
qed


subsection \<open>The merged tree\<close>

definition append_leaf :: "('e, leaves) writer" where
  "append_leaf s l v = Inr (s @ [(l, v)])"

lemma tree_tail_append [simp]: "tree_tail append_leaf s ls = Inr (s @ ls)"
  by (induction ls arbitrary: s) (auto simp: append_leaf_def)

lemma diff_tail_append:
  "diff_tail append_leaf st s ds = Inr (stats_of st [] ds, s @ map snd (with_op OpAdd False [] ds))"
  by (induction ds arbitrary: st s)
    (auto simp: stats_of_def append_leaf_def with_op_Nil note_phantom_def removal_def)

definition is_merge :: "leaves \<Rightarrow> diff_rec list \<Rightarrow> leaves \<Rightarrow> bool" where
  "is_merge ls ds o' \<longleftrightarrow> sorted_leaves o' \<and> set o' = set (kept ls ds) \<union> snd ` set (with_op OpAdd False ls ds)"

lemma set_merge_sets: "set (kept ls ds) \<subseteq> set ls" "set (with_op op p ls ds) \<subseteq> set ds"
  by (auto simp: merge_sets)

lemma is_merge_Cons:
  assumes "is_merge ls ds o'" "length l = 32" "\<forall>e\<in>set ls. l < fst e" "\<forall>d\<in>set ds. l < recLabel d"
  shows "sorted_leaves ((l, v) # o')"
proof -
  have "l < fst e" if "e \<in> set o'" for e
  proof -
    have "e \<in> set ls \<or> (\<exists>d\<in>set ds. e = snd d)"
      using assms(1) that set_merge_sets(1)[of ls ds] set_merge_sets(2)[of OpAdd False ls ds] by (auto simp: is_merge_def)
    then show ?thesis using assms(3,4) by auto
  qed
  then show ?thesis using assms(1,2) by (simp add: sorted_leaves_Cons is_merge_def)
qed

lemma sorted_recs_leaves: "sorted_recs ds \<Longrightarrow> sorted_leaves (map snd (with_op op p ls ds))"
  by (auto simp: sorted_recs_def sorted_leaves_def with_op_def sorted_wrt_map sorted_wrt_filter)

lemma merge_loop_output:
  "sorted_leaves ls \<Longrightarrow> sorted_recs ds \<Longrightarrow> merge_loop append_leaf st s ls ds = Inr (st', s') \<Longrightarrow>
    \<exists>o'. s' = s @ o' \<and> is_merge ls ds o'"
proof (induction "append_leaf :: ('e, leaves) writer" st s ls ds rule: merge_loop.induct)
  case (1 st s l v ls op dl dv ds)
  note sorted = 1(6,7) and run = 1(8)
  have tails: "sorted_leaves ls" "sorted_recs ds" "length l = 32" "length dl = 32"
    using sorted by (simp_all add: sorted_leaves_Cons sorted_recs_Cons)
  have lt: "\<forall>e\<in>set ls. l < fst e" "\<forall>d\<in>set ds. dl < recLabel d"
    using sorted by (simp_all add: sorted_leaves_Cons sorted_recs_Cons)
  from sorted show ?case
  proof (cases rule: heads_cases)
    case leaf
    then obtain o' where o': "s' = (s @ [(l, v)]) @ o'" "is_merge ls ((op, dl, dv) # ds) o'"
      using 1(1)[of "s @ [(l, v)]"] run tails sorted(2) by (auto simp: append_leaf_def)
    have "is_merge ((l, v) # ls) ((op, dl, dv) # ds) ((l, v) # o')"
      using is_merge_Cons[OF o'(2) tails(3) lt(1) leaf(2)] o'(2) by (simp add: is_merge_def leaf_first[OF leaf(2)])
    then show ?thesis using o'(1) by auto
  next
    case both
    show ?thesis
    proof (cases "op = OpRemove")
      case True
      then obtain o' where "s' = s @ o'" "is_merge ls ds o'" using 1(2) both(1) tails run by auto
      then show ?thesis using both_first[OF both(3,4)] both(2) True by (auto simp: is_merge_def)
    next
      case False
      then have op: "op = OpAdd" using run both(1) by (auto split: if_splits)
      then obtain o' where o': "s' = (s @ [(l, v)]) @ o'" "is_merge ls ds o'"
        using 1(3)[of "s @ [(l, v)]"] both(1) run tails by (auto simp: append_leaf_def)
      have "is_merge ((l, v) # ls) ((op, dl, dv) # ds) ((l, v) # o')"
        using is_merge_Cons[OF o'(2) tails(3) both(4,3)] o'(2) op both(2)
        by (simp add: is_merge_def both_first[OF both(3,4)])
      then show ?thesis using o'(1) by auto
    qed
  next
    case rec
    note first = record_first[OF rec(2)]
    show ?thesis
    proof (cases "op = OpAdd")
      case True
      then obtain o' where o': "s' = (s @ [(dl, dv)]) @ o'" "is_merge ((l, v) # ls) ds o'"
        using 1(4)[of "s @ [(dl, dv)]"] rec(1) run tails sorted(1) by (auto simp: append_leaf_def)
      have "is_merge ((l, v) # ls) ((op, dl, dv) # ds) ((dl, dv) # o')"
        using is_merge_Cons[OF o'(2) tails(4) rec(2) lt(2)] o'(2) True by (simp add: is_merge_def first)
      then show ?thesis using o'(1) by auto
    next
      case False
      then have "op = OpRemove" using run rec(1) by (auto split: if_splits)
      moreover obtain o' where "s' = s @ o'" "is_merge ((l, v) # ls) ds o'"
        using 1(5) rec(1) run tails sorted(1) calculation by auto
      ultimately show ?thesis by (auto simp: is_merge_def first)
    qed
  qed
next
  case (2 st s ls)
  then show ?case by (auto simp: is_merge_def)
next
  case (3 st s d ds)
  then have "s' = s @ map snd (with_op OpAdd False [] (d # ds))" by (simp add: diff_tail_append)
  then show ?case using sorted_recs_leaves[OF 3(2), of OpAdd False "[]"] by (auto simp: is_merge_def)
qed

lemma diff_unsorted_None:
  "\<forall>d\<in>set ds. length (recLabel d) = 32 \<Longrightarrow> diff_unsorted i ds = None \<longleftrightarrow> sorted_recs ds"
proof (induction i ds rule: diff_unsorted.induct)
  case (1 i a b ds)
  then have "compare_bytes (recLabel a) (recLabel b) \<ge> 0 \<longleftrightarrow> \<not> recLabel a < recLabel b"
    using compare_bytes_cases[of "recLabel a" "recLabel b"] by auto
  then show ?case using 1 by (simp add: sorted_recs_def sorted_wrt2[OF transp_on_less] del: sorted_wrt.simps(2))
qed (simp_all add: sorted_recs_def)

lemma diff_recs_length:
  assumes "length diff mod diffEntrySize = 0" "d \<in> set (diff_recs diff)"
  shows "length (recLabel d) = 32" "length (snd (snd d)) = 36"
proof -
  obtain i where i: "i < length diff div diffEntrySize" "d = (dOp diff i, dLabel diff i, dValue diff i)"
    using assms(2) by (auto simp: diff_recs_def)
  have sz: "diffEntrySize = 69" by (simp add: diffEntrySize_def proton_sizes)
  have "length diff = length diff div 69 * 69" using assms(1) div_mult_mod_eq[of "length diff" 69] unfolding sz by linarith
  moreover have "(i + 1) * 69 \<le> length diff div 69 * 69" using i(1) unfolding sz by (intro mult_le_mono1) simp
  ultimately have "(i + 1) * 69 \<le> length diff" by simp
  then show "length (recLabel d) = 32" "length (snd (snd d)) = 36"
    unfolding i(2) by (simp_all add: dLabel_def dValue_def diffEntrySize_def proton_sizes)
qed

lemma ApplyDiff_ok:
  assumes "sorted_leaves tree" "(ApplyDiff append_leaf [] tree diff :: 'e diff_error + DiffStats \<times> leaves) = Inr (stats, merged)"
  shows "sorted_recs (diff_recs diff)" "is_merge tree (diff_recs diff) merged" "stats = stats_of no_stats tree (diff_recs diff)"
proof -
  have m: "length diff mod diffEntrySize = 0" "diff_unsorted 1 (diff_recs diff) = None"
    and run: "(merge_loop append_leaf no_stats [] tree (diff_recs diff) :: 'e diff_error + DiffStats \<times> leaves) = Inr (stats, merged)"
    using assms(2) by (auto simp: ApplyDiff_def split: if_splits option.splits)
  show s: "sorted_recs (diff_recs diff)" using diff_unsorted_None diff_recs_length(1)[OF m(1)] m(2) by blast
  show "is_merge tree (diff_recs diff) merged" using merge_loop_output[OF assms(1) s run] by simp
  show "stats = stats_of no_stats tree (diff_recs diff)" by (rule merge_loop_stats[OF assms(1) s run])
qed

text \<open>Two entries of a sorted tree with one label are one entry.\<close>

lemma sorted_leaves_inj: "sorted_leaves ls \<Longrightarrow> e \<in> set ls \<Longrightarrow> e' \<in> set ls \<Longrightarrow> fst e = fst e' \<Longrightarrow> e = e'"
  using sorted_leaves_distinct by (metis distinct_map inj_onD)

lemma merge_entries:
  assumes "is_merge ls ds o'" "sorted_leaves ls"
  shows "e \<in> set ls \<Longrightarrow> e \<in> set o' \<longleftrightarrow> \<not> has_op OpRemove ds (fst e)"
    and "set o' - set ls = snd ` set (with_op OpAdd False ls ds)"
proof -
  have new: "in_tree ls (fst e) = False" if "e \<in> snd ` set (with_op OpAdd False ls ds)" for e
    using that by (auto simp: with_op_def)
  have old: "in_tree ls (fst e)" if "e \<in> set ls" for e using that by (auto simp: in_tree_def list_ex_iff)
  show "e \<in> set ls \<Longrightarrow> e \<in> set o' \<longleftrightarrow> \<not> has_op OpRemove ds (fst e)"
    using assms(1) new[of e] old[of e] unfolding is_merge_def kept_def by auto
  show "set o' - set ls = snd ` set (with_op OpAdd False ls ds)"
    using assms(1) new old set_merge_sets(1)[of ls ds] unfolding is_merge_def by blast
qed

lemma applied_diff:
  assumes "sorted_leaves tree" "(ApplyDiff append_leaf [] tree diff :: 'e diff_error + DiffStats \<times> leaves) = Inr (stats, merged)"
  shows "sorted_leaves merged" "Removals stats = map removal (filter (\<lambda>e. e \<notin> set merged) tree)"
    "Removed stats = length (Removals stats)" "Added stats = card (set merged - set tree)"
    "\<And>l v v'. (l, v) \<in> set tree \<Longrightarrow> (l, v') \<in> set merged \<Longrightarrow> v' = v"
    "length merged + Removed stats = length tree + Added stats"
proof -
  let ?ds = "diff_recs diff"
  note ok = ApplyDiff_ok[OF assms]
  note st = ok(3)[unfolded stats_of_def no_stats_def, simplified]
  note entries = merge_entries[OF ok(2) assms(1)]
  show sm: "sorted_leaves merged" using ok(2) by (simp add: is_merge_def)
  have dr: "dropped tree ?ds = filter (\<lambda>e. e \<notin> set merged) tree"
    unfolding dropped_def by (rule filter_cong) (use entries(1) in auto)
  show "Removals stats = map removal (filter (\<lambda>e. e \<notin> set merged) tree)" by (simp add: st dr)
  show r: "Removed stats = length (Removals stats)" by (simp add: st)
  have "distinct (map snd (with_op OpAdd False tree ?ds))"
    using sorted_leaves_distinct[OF sorted_recs_leaves[OF ok(1)]] distinct_map by blast
  then have "card (snd ` set (with_op OpAdd False tree ?ds)) = length (with_op OpAdd False tree ?ds)"
    by (metis distinct_card length_map list.set_map)
  then show a: "Added stats = card (set merged - set tree)" by (simp add: st entries(2))
  show "v' = v" if "(l, v) \<in> set tree" "(l, v') \<in> set merged" for l v v'
  proof (rule ccontr)
    assume "v' \<noteq> v"
    then have "(l, v') \<notin> set tree" using sorted_leaves_inj[OF assms(1) that(1)] by fastforce
    then have "(l, v') \<in> snd ` set (with_op OpAdd False tree ?ds)" using entries(2) that(2) by blast
    then have "\<not> in_tree tree l" by (auto simp: with_op_def)
    then show False using that(1) by (auto simp: in_tree_def list_ex_iff)
  qed
  have d: "distinct tree" "distinct merged" using sorted_leaves_distinct[OF assms(1)] sorted_leaves_distinct[OF sm] distinct_map by blast+
  have "length merged = card (set merged \<inter> set tree) + card (set merged - set tree)"
    using card_Int_Diff[of "set merged" "set tree"] distinct_card[OF d(2)] by simp
  moreover have "length (filter (\<lambda>e. e \<in> set merged) tree) = card (set merged \<inter> set tree)"
    using distinct_card[OF distinct_filter[OF d(1)], of "\<lambda>e. e \<in> set merged"] by (simp add: Int_def conj_commute)
  moreover have "length tree = length (filter (\<lambda>e. e \<in> set merged) tree) + length (filter (\<lambda>e. e \<notin> set merged) tree)"
    by (rule sum_length_filter_compl[symmetric])
  ultimately show "length merged + Removed stats = length tree + Added stats"
    unfolding a r by (simp add: st dr)
qed

subsection \<open>The judgement\<close>

definition datable :: "Removal \<Rightarrow> bool" where
  "datable rm \<longleftrightarrow> length (rmValue rm) = 36 \<and> length (rmLabel rm) = 32"

definition entered_at :: "Removal \<Rightarrow> int" where
  "entered_at rm = int (be_nat (drop 32 (rmValue rm)))"

definition verdict :: "int \<Rightarrow> Removal \<times> bool \<Rightarrow> RemovalVerdict" where
  "verdict start = (\<lambda>(rm, ph).
     \<lparr>vLabel = rmLabel rm, vMinEpochID = entered_at rm, vRevision = int (be_nat (drop 28 (rmLabel rm))),
      vExplained = (start > 0 \<and> entered_at rm < start), vPhantom = ph\<rparr>)"

lemma judge_datable:
  "judge start rep (rm, ph) =
    (if datable rm then
       (let rep = (if rOldestRemoved rep = 0 \<or> entered_at rm < rOldestRemoved rep then rep\<lparr>rOldestRemoved := entered_at rm\<rparr> else rep);
            rep = (if entered_at rm > rNewestRemoved rep then rep\<lparr>rNewestRemoved := entered_at rm\<rparr> else rep)
        in if start > 0 \<and> entered_at rm < start then rep\<lparr>rExplained := rExplained rep + 1\<rparr>
           else rep\<lparr>rUnexplained := rUnexplained rep @ [verdict start (rm, ph)]\<rparr>)
     else rep\<lparr>rUndatable := rUndatable rep + 1\<rparr>)"
  by (auto simp: judge_def MinEpochID_def Revision_def datable_def entered_at_def verdict_def Let_def proton_sizes)

definition explained :: "int \<Rightarrow> Removal \<times> bool \<Rightarrow> bool" where
  "explained start = (\<lambda>(rm, _). start > 0 \<and> entered_at rm < start)"

lemma judge_fold:
  fixes xs :: "(Removal \<times> bool) list"
  defines "dated \<equiv> filter (\<lambda>x. datable (fst x))"
  shows "rEpochID (foldl (judge start) rep xs) = rEpochID rep"
    and "rStartEpochID (foldl (judge start) rep xs) = rStartEpochID rep"
    and "rExplained (foldl (judge start) rep xs) = rExplained rep + length (filter (explained start) (dated xs))"
    and "rUnexplained (foldl (judge start) rep xs) =
      rUnexplained rep @ map (verdict start) (filter (\<lambda>x. \<not> explained start x) (dated xs))"
    and "rUndatable (foldl (judge start) rep xs) = rUndatable rep + length (filter (\<lambda>x. \<not> datable (fst x)) xs)"
  unfolding dated_def
  by (induction xs arbitrary: rep; force simp: judge_datable explained_def Let_def)+

text \<open>Every removal of an epoch, the phantom ones marked.\<close>

definition all_removals :: "DiffStats \<Rightarrow> (Removal \<times> bool) list" where
  "all_removals st = map (\<lambda>rm. (rm, False)) (Removals st) @ map (\<lambda>rm. (rm, True)) (PhantomRemoved st)"

lemma JudgeRemovals_fields:
  fixes st e start srt
  defines "rep \<equiv> JudgeRemovals srt st e start"
    and "dated \<equiv> filter (\<lambda>x. datable (fst x)) (all_removals st)"
  shows "rEpochID rep = e" "rStartEpochID rep = start"
    and "rExplained rep = length (filter (explained start) dated)"
    and "rUnexplained rep = srt (map (verdict start) (filter (\<lambda>x. \<not> explained start x) dated))"
    and "rUndatable rep = length (filter (\<lambda>x. \<not> datable (fst x)) (all_removals st))"
  unfolding rep_def dated_def JudgeRemovals_def Let_def
  by (simp_all add: judge_fold all_removals_def)

lemma sorts_length: "sorts_unexplained srt \<Longrightarrow> length (srt vs) = length vs"
  unfolding sorts_unexplained_def by (metis size_mset)

lemma Clean_iff:
  assumes "sorts_unexplained srt"
  shows "Clean (JudgeRemovals srt st e start) \<longleftrightarrow>
    start > 0 \<and> (\<forall>rm\<in>set (Removals st) \<union> set (PhantomRemoved st). datable rm \<and> entered_at rm < start)"
proof -
  have "Clean (JudgeRemovals srt st e start) \<longleftrightarrow>
    start > 0 \<and> (\<forall>x\<in>set (all_removals st). datable (fst x) \<and> explained start x)"
    unfolding Clean_def Judged_def JudgeRemovals_fields sorts_length[OF assms]
    by (auto simp: filter_empty_conv)
  then show ?thesis unfolding all_removals_def explained_def set_append set_map ball_Un ball_simps(9) by auto
qed

text \<open>Every removal is counted once, and the unexplained ones are reported oldest first.\<close>

lemma report_counts:
  fixes st :: DiffStats and e start :: int
  assumes "sorts_unexplained srt"
  defines "rep \<equiv> JudgeRemovals srt st e start"
  shows "rExplained rep + length (rUnexplained rep) + rUndatable rep = length (Removals st) + length (PhantomRemoved st)"
    and "sorted (map vMinEpochID (rUnexplained rep))"
proof -
  have "length (filter P xs) + length (filter (\<lambda>x. \<not> P x) xs) = length xs" for P and xs :: "(Removal \<times> bool) list"
    by (rule sum_length_filter_compl)
  from this[of "\<lambda>x. datable (fst x)" "all_removals st"] this[of "explained start" "filter (\<lambda>x. datable (fst x)) (all_removals st)"]
  show "rExplained rep + length (rUnexplained rep) + rUndatable rep = length (Removals st) + length (PhantomRemoved st)"
    unfolding rep_def JudgeRemovals_fields sorts_length[OF assms(1)] by (simp add: all_removals_def)
  show "sorted (map vMinEpochID (rUnexplained rep))"
    using assms(1) unfolding rep_def JudgeRemovals_fields by (simp add: sorts_unexplained_def)
qed

text \<open>
  The range reported is the true one when nothing removed is dated epoch 0: a zero stands for
  no removal seen yet, so a removal dated 0 is overwritten by the next.
\<close>

definition dates :: "DiffStats \<Rightarrow> int list" where
  "dates st = map entered_at (filter datable (Removals st @ PhantomRemoved st))"

lemma judge_newest:
  "rNewestRemoved (foldl (judge start) rep xs) = foldl max (rNewestRemoved rep) (map entered_at (filter datable (map fst xs)))"
  by (induction xs arbitrary: rep) (auto simp: judge_datable Let_def max_def)

definition older :: "int \<Rightarrow> int \<Rightarrow> int" where
  "older a m = (if a = 0 \<or> m < a then m else a)"

lemma judge_oldest:
  "rOldestRemoved (foldl (judge start) rep xs) = foldl older (rOldestRemoved rep) (map entered_at (filter datable (map fst xs)))"
  by (induction xs arbitrary: rep) (auto simp: judge_datable Let_def older_def)

lemma report_range:
  "rNewestRemoved (JudgeRemovals srt st e start) = foldl max 0 (dates st)"
  "rOldestRemoved (JudgeRemovals srt st e start) = foldl older 0 (dates st)"
  by (simp_all add: JudgeRemovals_def Let_def judge_newest judge_oldest dates_def comp_def)

lemma foldl_max: "foldl max (a :: int) ms = Max (insert a (set ms))"
proof (induction ms arbitrary: a)
  case (Cons m ms)
  then show ?case by (cases "ms = []") (simp_all add: max.assoc)
qed simp

lemma foldl_older: "0 < a \<Longrightarrow> \<forall>m\<in>set ms. 0 < m \<Longrightarrow> foldl older a ms = Min (insert a (set ms))"
proof (induction ms arbitrary: a)
  case (Cons m ms)
  then have "older a m = min a m" "0 < min a m" by (auto simp: older_def)
  then show ?case using Cons by (cases "ms = []") (auto simp: insert_commute min.assoc)
qed simp

lemma report_oldest:
  assumes "dates st \<noteq> []" "\<forall>m\<in>set (dates st). 0 < m"
  shows "rOldestRemoved (JudgeRemovals srt st e start) = Min (set (dates st))"
  unfolding report_range using assms
  by (cases "dates st") (simp_all add: older_def foldl_older)

lemma oldest_zero_overwritten:
  "dates st = [0, m] \<Longrightarrow> rOldestRemoved (JudgeRemovals srt st e start) = m"
  unfolding report_range by (simp add: older_def)

subsection \<open>Groups\<close>

lemma contiguous_run_iff: "contiguous_run (a # rs) \<longleftrightarrow> a # rs = map (\<lambda>i. a + int i) [0..<Suc (length rs)]"
proof (induction rs arbitrary: a)
  case (Cons b rs)
  have s: "map (\<lambda>i. a + int i) [0..<Suc (Suc (length rs))] = a # map (\<lambda>i. (a + 1) + int i) [0..<Suc (length rs)]"
    by (subst upt_conv_Cons) (simp_all add: map_Suc_upt[symmetric] comp_def algebra_simps del: upt_Suc map_Suc_upt)
  have "contiguous_run (a # b # rs) \<longleftrightarrow> b = a + 1 \<and> b # rs = map (\<lambda>i. b + int i) [0..<Suc (length rs)]"
    unfolding contiguous_run.simps Cons.IH by auto
  moreover have "b # rs = map (\<lambda>i. (a + 1) + int i) [0..<Suc (length rs)] \<Longrightarrow> b = a + 1"
    by (subst (asm) upt_conv_Cons) simp_all
  ultimately show ?case unfolding length_Cons s by auto
qed simp

lemma prefixed_removals:
  "prefixed rms = map (\<lambda>rm. (EncodeToString (take 28 (rmLabel rm)), int (be_nat (drop 28 (rmLabel rm)))))
     (filter (\<lambda>rm. length (rmLabel rm) = 32) rms)"
  by (induction rms) (auto simp: Revision_def proton_sizes)

lemma filter_sum:
  assumes "finite A" "fst ` set ps \<subseteq> A"
  shows "(\<Sum>p\<in>A. length (filter (\<lambda>e. fst e = p) ps)) = length ps"
  using assms
proof (induction ps)
  case (Cons e ps)
  have "(\<Sum>p\<in>A. length (filter (\<lambda>x. fst x = p) (e # ps))) =
    (\<Sum>p\<in>A. length (filter (\<lambda>x. fst x = p) ps) + (if fst e = p then 1 else 0))"
    by (rule sum.cong) simp_all
  also have "\<dots> = length ps + 1" using Cons by (simp add: sum.distrib)
  finally show ?case by simp
qed simp

lemma label_removals_fields [simp]:
  "lrPrefix (label_removals p xs) = p" "lrRevisions (label_removals p xs) = sort xs"
  "lrContiguous (label_removals p xs) = contiguous_run (sort xs)"
  "lrFromOne (label_removals p xs) \<longleftrightarrow> sort xs ! 0 = 1"
  by (simp_all add: label_removals_def Let_def)

lemma sort_eq_Nil [simp]: "sort xs = [] \<longleftrightarrow> xs = []"
  by (metis mset_sort mset_zero_iff)

lemma groups_exact:
  fixes st :: DiffStats
  defines "gs \<equiv> GroupRemovalsByLabel (Some st)" and "ps \<equiv> prefixed (Removals st)"
  shows "sorted_wrt (<) (map lrPrefix gs)" "set (map lrPrefix gs) = fst ` set ps"
    and "\<And>g. g \<in> set gs \<Longrightarrow> sorted (lrRevisions g) \<and> lrRevisions g \<noteq> [] \<and>
      mset (lrRevisions g) = mset (map snd (filter (\<lambda>e. fst e = lrPrefix g) ps))"
    and "\<And>g. g \<in> set gs \<Longrightarrow> lrContiguous g \<longleftrightarrow> lrRevisions g = map (\<lambda>i. hd (lrRevisions g) + int i) [0..<length (lrRevisions g)]"
    and "\<And>g. g \<in> set gs \<Longrightarrow> lrFromOne g \<longleftrightarrow> hd (lrRevisions g) = 1"
    and "sum_list (map (\<lambda>g. length (lrRevisions g)) gs) = length (filter (\<lambda>rm. length (rmLabel rm) = 32) (Removals st))"
proof -
  have gs: "gs = map (\<lambda>p. label_removals p (map snd (filter (\<lambda>e. fst e = p) ps))) (sorted_list_of_set (fst ` set ps))"
    by (simp add: gs_def ps_def GroupRemovalsByLabel_def Let_def)
  have pre: "map lrPrefix gs = sorted_list_of_set (fst ` set ps)"
    by (simp add: gs comp_def)
  show "sorted_wrt (<) (map lrPrefix gs)" "set (map lrPrefix gs) = fst ` set ps"
    unfolding pre using strict_sorted_list_of_set by auto
  have g: "\<exists>p\<in>fst ` set ps. g = label_removals p (map snd (filter (\<lambda>e. fst e = p) ps))" if "g \<in> set gs" for g
    using that by (auto simp: gs)
  show a: "sorted (lrRevisions g) \<and> lrRevisions g \<noteq> [] \<and>
      mset (lrRevisions g) = mset (map snd (filter (\<lambda>e. fst e = lrPrefix g) ps))" if "g \<in> set gs" for g
  proof -
    note m = that
    obtain e where e: "e \<in> set ps" "g = label_removals (fst e) (map snd (filter (\<lambda>x. fst x = fst e) ps))"
      using g[OF m] by blast
    then have "filter (\<lambda>x. fst x = fst e) ps \<noteq> []" by (auto simp: filter_empty_conv)
    then show ?thesis unfolding e(2) label_removals_fields by (simp only: sorted_sort mset_sort sort_eq_Nil map_is_Nil_conv) simp
  qed
  show "lrContiguous g \<longleftrightarrow> lrRevisions g = map (\<lambda>i. hd (lrRevisions g) + int i) [0..<length (lrRevisions g)]" if "g \<in> set gs" for g
  proof -
    note m = that
    have "lrContiguous g = contiguous_run (lrRevisions g)" using g[OF m] by auto
    moreover obtain r rs where "lrRevisions g = r # rs" using a[OF m] by (cases "lrRevisions g") auto
    ultimately show ?thesis using contiguous_run_iff[of r rs] by (simp del: upt_Suc)
  qed
  show "lrFromOne g \<longleftrightarrow> hd (lrRevisions g) = 1" if "g \<in> set gs" for g
  proof -
    have "lrFromOne g \<longleftrightarrow> lrRevisions g ! 0 = 1" using g[OF that] by auto
    then show ?thesis using a[OF that] by (simp add: hd_conv_nth)
  qed
  have "sum_list (map (\<lambda>g. length (lrRevisions g)) gs) = (\<Sum>p\<in>fst ` set ps. length (filter (\<lambda>e. fst e = p) ps))"
    by (simp add: gs comp_def sum_list_distinct_conv_sum_set)
  also have "\<dots> = length ps" by (rule filter_sum) simp_all
  finally show "sum_list (map (\<lambda>g. length (lrRevisions g)) gs) = length (filter (\<lambda>rm. length (rmLabel rm) = 32) (Removals st))"
    by (simp add: ps_def prefixed_removals)
qed

subsection \<open>A dump and its leaves\<close>

definition dump :: "leaves \<Rightarrow> bytes" where
  "dump ls = concat (map (\<lambda>(l, v). l @ v) ls)"

definition dump_leaves :: "leaves \<Rightarrow> bool" where
  "dump_leaves ls \<longleftrightarrow> list_all (\<lambda>(l, v). length l = 32 \<and> length v = 36) ls"

lemma length_dump: "dump_leaves ls \<Longrightarrow> length (dump ls) = 68 * length ls"
  by (induction ls) (auto simp: dump_def dump_leaves_def)

lemma go_slice_shift: "length p = k \<Longrightarrow> go_slice (k + i) (k + j) (p @ s) = go_slice i j s"
  by (simp add: go_slice_def)

lemma SliceLeaves_step:
  assumes "length l = 32" "length v = 36"
  shows "SliceLeaves (l @ v @ s) = (l, v) # SliceLeaves s"
proof -
  have p: "length (l @ v) = 68" using assms by simp
  have n: "length (l @ v @ s) div entrySize = Suc (length s div 68)" using assms by (simp add: proton_sizes)
  have h: "go_slice (Suc i * entrySize) (Suc i * entrySize + labelSize) (l @ v @ s) =
      go_slice (i * entrySize) (i * entrySize + labelSize) s \<and>
    go_slice (Suc i * entrySize + labelSize) ((Suc i + 1) * entrySize) (l @ v @ s) =
      go_slice (i * entrySize + labelSize) ((i + 1) * entrySize) s" for i
    using go_slice_shift[OF p, of "i * 68" "i * 68 + 32" s] go_slice_shift[OF p, of "i * 68 + 32" "i * 68 + 68" s]
    by (simp add: proton_sizes add.commute)
  show ?thesis unfolding SliceLeaves_def n
    by (subst upt_conv_Cons, simp, simp only: list.map map_Suc_upt[symmetric] map_map comp_def h)
      (use assms in \<open>simp add: go_slice_def proton_sizes\<close>)
qed

lemma SliceLeaves_dump: "dump_leaves ls \<Longrightarrow> SliceLeaves (dump ls) = ls"
proof (induction ls)
  case (Cons e ls)
  then show ?case using SliceLeaves_step[of "fst e" "snd e" "dump ls"] by (cases e) (simp add: dump_def dump_leaves_def)
qed (simp add: dump_def SliceLeaves_def)

lemma SliceLeaves_sizes: "dump_leaves (SliceLeaves s)"
proof -
  have "(i + 1) * 68 \<le> length s" if "i < length s div 68" for i
  proof -
    have "(i + 1) * 68 \<le> length s div 68 * 68" using that by (intro mult_le_mono1) simp
    then show ?thesis using div_times_less_eq_dividend[of "length s" 68] by linarith
  qed
  then show ?thesis by (force simp: dump_leaves_def list_all_iff SliceLeaves_def proton_sizes)
qed

text \<open>
C14. A diff that is applied leaves a sorted tree; the removals it lists are exactly the
  leaves that are gone, in order and with the value the tree had, the additions it counts
  are the leaves that are new, no value under a kept label changes, and when it raises no
  suspicion nothing is gone.
\<close>

theorem ApplyDiff_exact:
  assumes "sorted_leaves tree" "(ApplyDiff append_leaf [] tree diff :: unit diff_error + _) = Inr (stats, merged)"
  shows "sorted_leaves merged \<and>
    Removals stats = map removal (filter (\<lambda>e. e \<notin> set merged) tree) \<and>
    Removed stats = length (Removals stats) \<and> Added stats = card (set merged - set tree) \<and>
    (\<forall>l v v'. (l, v) \<in> set tree \<longrightarrow> (l, v') \<in> set merged \<longrightarrow> v' = v) \<and>
    (\<not> Suspicious stats \<longrightarrow> set tree \<subseteq> set merged)"
proof -
  note ap = applied_diff[OF assms]
  have "set tree \<subseteq> set merged" if "\<not> Suspicious stats"
    using that ap(2,3) by (auto simp: Suspicious_def filter_empty_conv)
  then show ?thesis using ap by blast
qed

definition wit_diff :: bytes where
  "wit_diff = (2 # h32 1 @ (replicate 32 5 @ [0, 0, 0, 9])) @ (1 # h32 3 @ replicate 36 7)"

lemma wit_applied: "(ApplyDiff append_leaf [] wit_leaves wit_diff :: unit diff_error + _) =
  Inr (\<lparr>Added = 1, Removed = 1, Overwritten = 0, PhantomRemovals = 0, ValueMismatches = 0,
    Removals = [\<lparr>rmLabel = h32 1, rmValue = (replicate 32 5 @ [0, 0, 0, 9])\<rparr>], PhantomRemoved = []\<rparr>,
    [(h32 2, replicate 32 6 @ [0, 0, 0, 9]), (h32 3, replicate 36 7)])"
  by code_simp

lemma entered_wit: "entered_at \<lparr>rmLabel = h32 1, rmValue = (replicate 32 5 @ [0, 0, 0, 9])\<rparr> = 9"
  by (simp add: entered_at_def be_nat_def)

text \<open>
C39. A removal report is clean exactly when there is a window and every removal, phantom
  ones included, is well formed and dated before it; every removal is counted once, and the
  unexplained ones come oldest first.
\<close>

theorem clean_report_means:
  fixes st :: DiffStats and e start :: int
  assumes "sorts_unexplained srt"
  shows "(Clean (JudgeRemovals srt st e start) \<longleftrightarrow>
      start > 0 \<and> (\<forall>rm\<in>set (Removals st) \<union> set (PhantomRemoved st). datable rm \<and> entered_at rm < start)) \<and>
    rExplained (JudgeRemovals srt st e start) + length (rUnexplained (JudgeRemovals srt st e start)) +
      rUndatable (JudgeRemovals srt st e start) = length (Removals st) + length (PhantomRemoved st) \<and>
    sorted (map vMinEpochID (rUnexplained (JudgeRemovals srt st e start)))"
  using Clean_iff[OF assms] report_counts[OF assms] by blast

lemma sorts_sort_key: "sorts_unexplained (sort_key vMinEpochID)"
  by (simp add: sorts_unexplained_def)


theorem ApplyDiff_exact_witness:
  "sorted_leaves [(h32 2, replicate 32 6 @ [0, 0, 0, 9]), (h32 3, replicate 36 7)] \<and>
    Removals \<lparr>Added = 1, Removed = 1, Overwritten = 0, PhantomRemovals = 0, ValueMismatches = 0,
      Removals = [\<lparr>rmLabel = h32 1, rmValue = replicate 32 5 @ [0, 0, 0, 9]\<rparr>], PhantomRemoved = []\<rparr> =
    map removal (filter (\<lambda>e. e \<notin> set [(h32 2, replicate 32 6 @ [0, 0, 0, 9]), (h32 3, replicate 36 7)]) wit_leaves)"
  using ApplyDiff_exact[OF wit_leaves_ok(3) wit_applied] by blast

theorem clean_report_means_witness:
  "Clean (JudgeRemovals (sort_key vMinEpochID)
     (no_stats\<lparr>Removals := [\<lparr>rmLabel = h32 1, rmValue = replicate 32 5 @ [0, 0, 0, 9]\<rparr>]\<rparr>) 100 10)"
  using clean_report_means[OF sorts_sort_key,
      of "no_stats\<lparr>Removals := [\<lparr>rmLabel = h32 1, rmValue = replicate 32 5 @ [0, 0, 0, 9]\<rparr>]\<rparr>" 100 10]
  by (simp add: no_stats_def datable_def entered_wit)

text \<open>
C40. A written tree is read back as its leaves, and whatever bytes are read give labels of
  32 and values of 36 bytes.
\<close>

theorem dump_roundtrip:
  "dump_leaves (SliceLeaves s) \<and> (dump_leaves ls \<longrightarrow> SliceLeaves (dump ls) = ls)"
  using SliceLeaves_sizes SliceLeaves_dump by blast

theorem dump_roundtrip_witness: "SliceLeaves (dump wit_leaves) = wit_leaves"
proof -
  have "dump_leaves wit_leaves" by (simp add: dump_leaves_def wit_leaves_def)
  then show ?thesis using dump_roundtrip by blast
qed

end
