(* ===== verification/Proton_Step.thy ===== *)
theory Proton_Step
  imports Proton_Diff
begin

text \<open>
  The replay of Proton's directory, one epoch at a time: \<open>Step\<close>, \<open>Bootstrap\<close> and \<open>Base\<close> of
  \<open>internal/source/proton/incremental.go\<close> and \<open>runProtonStep\<close> of \<open>cmd/kt-witness/main.go\<close>.

  The retained directory holds files named after an epoch; a call is the list of what it does
  to them, so that an interruption is a prefix of that list.  What the file system and the
  network answer are inputs.  The lock, progress reports, metrics and logging are left out.
\<close>

subsection \<open>The retained directory\<close>

datatype tree_file = Tree int | PartialTree int | MismatchTree int

type_synonym tree_dir = "(tree_file \<times> bytes) list"

datatype effect = Put tree_file bytes | Rename tree_file tree_file | Remove tree_file

fun do_effect :: "effect \<Rightarrow> tree_dir \<Rightarrow> tree_dir" where
  "do_effect (Put f b) d = (f, b) # filter (\<lambda>e. fst e \<noteq> f) d"
| "do_effect (Rename f g) d =
     (case map_of d f of
        None \<Rightarrow> d
      | Some b \<Rightarrow> (g, b) # filter (\<lambda>e. fst e \<noteq> f \<and> fst e \<noteq> g) d)"
| "do_effect (Remove f) d = filter (\<lambda>e. fst e \<noteq> f) d"

definition do_effects :: "effect list \<Rightarrow> tree_dir \<Rightarrow> tree_dir" where
  "do_effects es d = fold do_effect es d"

definition protonRecordLength :: nat where "protonRecordLength = 68"
definition defaultShardDepth :: int where "defaultShardDepth = 10"
definition defaultMinFree :: nat where "defaultMinFree = 40 * 2 ^ 30"

definition whole_records :: "nat \<Rightarrow> bool" where
  "whole_records n \<longleftrightarrow> n \<noteq> 0 \<and> n mod protonRecordLength = 0"

text \<open>\<open>Base\<close>: the highest epoch with a tree of whole records, 0 for none.\<close>

fun retained_epoch :: "tree_file \<times> bytes \<Rightarrow> int option" where
  "retained_epoch (Tree e, b) = (if whole_records (length b) then Some e else None)"
| "retained_epoch _ = None"

definition Base :: "tree_dir \<Rightarrow> int" where
  "Base d = fold (\<lambda>f best. case retained_epoch f of None \<Rightarrow> best | Some e \<Rightarrow> if e > best then e else best) d 0"

definition mapFile :: "tree_dir \<Rightarrow> tree_file \<Rightarrow> bytes option" where
  "mapFile d f = (case map_of d f of None \<Rightarrow> None | Some b \<Rightarrow> if whole_records (length b) then Some b else None)"

subsection \<open>One step\<close>

record EpochMeta =
  TreeHash :: string
  StartEpochID :: int

record Auditor =
  ShardDepth :: int
  MinFreeBytes :: nat

datatype fetch_error = NotYetPublished nat | HTTPStatus nat | TransportError

text \<open>\<open>fetch\<close>: the status and body of an answer.\<close>

definition fetch :: "(nat \<times> bytes option) option \<Rightarrow> fetch_error + bytes" where
  "fetch resp =
     (case resp of
        None \<Rightarrow> Inl TransportError
      | Some (status, body) \<Rightarrow>
          if status \<noteq> 200 then
            (if status = 403 \<or> status = 404 then Inl (NotYetPublished status) else Inl (HTTPStatus status))
          else (case body of None \<Rightarrow> Inl TransportError | Some b \<Rightarrow> Inr (take (2 ^ 30) b)))"

datatype step_error =
    MkdirFailed | BelowFloor nat nat | NoRetainedTree int | BaseNotWhole nat | FetchFailed fetch_error
  | MapFailed | CreateFailed | ApplyFailed "unit diff_error" | FlushFailed | CloseFailed
  | RebuildFailed tree_error | RootMismatch int int string string | RenameFailed | DumpNotWhole nat | CopyFailed

record AuditResult =
  arFrom :: int
  arTo :: int
  arLeaves :: nat
  arStats :: DiffStats
  arRemovals :: RemovalReport
  arExpectedRoot :: string
  arComputedRoot :: string
  arMatch :: bool

text \<open>What the system answers during a call; \<open>room\<close> is the number of leaves that can be written.\<close>

record sys =
  mkdirOk :: bool
  freeBytes :: "nat option"
  mapBaseOk :: bool
  mapMergedOk :: bool
  createOk :: bool
  room :: "nat option"
  flushOk :: bool
  closeOk :: bool
  renameOk :: bool

definition write_leaf :: "(unit, leaves \<times> nat option) writer" where
  "write_leaf s l v =
     (case snd s of
        None \<Rightarrow> Inr (fst s @ [(l, v)], None)
      | Some 0 \<Rightarrow> Inl ()
      | Some (Suc n) \<Rightarrow> Inr (fst s @ [(l, v)], Some n))"

definition defaults :: "Auditor \<Rightarrow> Auditor" where
  "defaults a =
     (let a = (if ShardDepth a = 0 then a\<lparr>ShardDepth := defaultShardDepth\<rparr> else a)
      in if MinFreeBytes a = 0 then a\<lparr>MinFreeBytes := defaultMinFree\<rparr> else a)"

definition below_floor :: "sys \<Rightarrow> Auditor \<Rightarrow> nat option" where
  "below_floor io a = (case freeBytes io of None \<Rightarrow> None | Some n \<Rightarrow> if n < MinFreeBytes a then Some n else None)"

text \<open>
  From the merged leaves on: map what was written, rebuild, compare, judge, and put the tree
  in place or aside.
\<close>

definition finish_step ::
  "(bytes \<Rightarrow> bytes) \<Rightarrow> (RemovalVerdict list \<Rightarrow> RemovalVerdict list) \<Rightarrow> sys \<Rightarrow> Auditor \<Rightarrow> int \<Rightarrow> int \<Rightarrow> EpochMeta \<Rightarrow>
    DiffStats \<Rightarrow> bytes \<Rightarrow> effect list \<times> AuditResult option \<times> step_error option" where
  "finish_step sha srt io a from till meta stats merged =
     (if \<not> mapMergedOk io \<or> \<not> whole_records (length merged) then ([Remove (PartialTree till)], None, Some MapFailed)
      else case TreeRootParallel sha (SliceLeaves merged) (ShardDepth a) of
             Inl e \<Rightarrow> ([Remove (PartialTree till)], None, Some (RebuildFailed e))
           | Inr root \<Rightarrow>
               (let res = \<lparr>arFrom = from, arTo = till, arLeaves = length merged div protonRecordLength,
                           arStats = stats, arRemovals = JudgeRemovals srt stats till (StartEpochID meta),
                           arExpectedRoot = TreeHash meta, arComputedRoot = EncodeToString root,
                           arMatch = (EncodeToString root = TreeHash meta)\<rparr>
                in if \<not> arMatch res then
                     ((if renameOk io then [Rename (PartialTree till) (MismatchTree till)] else []), Some res,
                      Some (RootMismatch from till (arComputedRoot res) (arExpectedRoot res)))
                   else if \<not> renameOk io then ([], Some res, Some RenameFailed)
                   else ([Rename (PartialTree till) (Tree till), Remove (Tree from)], Some res, None)))"

definition Step ::
  "(bytes \<Rightarrow> bytes) \<Rightarrow> (RemovalVerdict list \<Rightarrow> RemovalVerdict list) \<Rightarrow> sys \<Rightarrow> (nat \<times> bytes option) option \<Rightarrow> Auditor \<Rightarrow>
    tree_dir \<Rightarrow> int \<Rightarrow> int \<Rightarrow> EpochMeta \<Rightarrow> effect list \<times> AuditResult option \<times> step_error option" where
  "Step sha srt io resp a0 d from till meta =
     (let a = defaults a0; stop = (\<lambda>es e. (es, None, Some e))
      in if \<not> mkdirOk io then stop [] MkdirFailed
         else case below_floor io a of
           Some n \<Rightarrow> stop [] (BelowFloor n (MinFreeBytes a))
         | None \<Rightarrow>
        (case map_of d (Tree from) of
           None \<Rightarrow> stop [] (NoRetainedTree from)
         | Some b \<Rightarrow>
        (if length b mod protonRecordLength \<noteq> 0 then stop [] (BaseNotWhole (length b))
         else case fetch resp of
           Inl e \<Rightarrow> stop [] (FetchFailed e)
         | Inr diff \<Rightarrow>
        (case (if mapBaseOk io then mapFile d (Tree from) else None) of
           None \<Rightarrow> stop [] MapFailed
         | Some baseData \<Rightarrow>
        (if \<not> createOk io then stop [] CreateFailed
         else case ApplyDiff write_leaf ([], room io) (SliceLeaves baseData) diff of
           Inl e \<Rightarrow> stop [Put (PartialTree till) [], Remove (PartialTree till)] (ApplyFailed e)
         | Inr (stats, (ls, _)) \<Rightarrow>
             if \<not> flushOk io then stop [Put (PartialTree till) [], Remove (PartialTree till)] FlushFailed
             else if \<not> closeOk io then stop [Put (PartialTree till) [], Remove (PartialTree till)] CloseFailed
             else (let (es, r) = finish_step sha srt io a from till meta stats (dump ls)
                   in ([Put (PartialTree till) [], Put (PartialTree till) (dump ls)] @ es, r)))))))"

text \<open>\<open>Bootstrap\<close> downloads a whole dump; \<open>received\<close> is what arrived and whether the copy ended well.\<close>

definition Bootstrap :: "sys \<Rightarrow> (nat \<times> bytes \<times> bool) option \<Rightarrow> Auditor \<Rightarrow> int \<Rightarrow> effect list \<times> step_error option" where
  "Bootstrap io received a epoch =
     (if \<not> mkdirOk io then ([], Some MkdirFailed)
      else case below_floor io a of
        Some n \<Rightarrow> ([], Some (BelowFloor n (MinFreeBytes a)))
      | None \<Rightarrow>
     (case received of
        None \<Rightarrow> ([], Some (FetchFailed TransportError))
      | Some (status, body, copied) \<Rightarrow>
     (if status \<noteq> 200 then ([], Some (FetchFailed (HTTPStatus status)))
      else if \<not> createOk io then ([], Some CreateFailed)
      else (let put = [Put (PartialTree epoch) [], Put (PartialTree epoch) body]; gone = put @ [Remove (PartialTree epoch)]
            in if \<not> copied then (gone, Some CopyFailed)
               else if \<not> closeOk io then (gone, Some CloseFailed)
               else if \<not> whole_records (length body) then (gone, Some (DumpNotWhole (length body)))
               else if \<not> renameOk io then (put, Some RenameFailed)
               else (put @ [Rename (PartialTree epoch) (Tree epoch)], None)))))"

subsection \<open>The replay loop\<close>

definition earliestProtonEpoch :: "AuditStore \<Rightarrow> string \<Rightarrow> int option" where
  "earliestProtonEpoch db origin =
     (case histories db origin of
        None \<Rightarrow> None
      | Some h \<Rightarrow> if hiFrom h > 0 then Some (hiFrom h) else None)"

definition rebuild_audit :: "string \<Rightarrow> int \<Rightarrow> int \<Rightarrow> Audit" where
  "rebuild_audit origin epoch now =
     \<lparr>auOrigin = origin, auEpoch = epoch, auSampled = True, auRate = 4607182418800017408, auBeaconRound = 0,
      auBeaconSig = [], auBeaconRandom = [], auStrategy = ''rebuild'', auVerified = True, auAttempts = 1,
      auRetryAfter = None, auKind = [], auError = [], auDurationMS = 0, auBytes = 0, auDecidedAt = now\<rparr>"

text \<open>
  One pass: \<open>tip\<close> is the size of the witnessed record, \<open>None\<close> when there is none; \<open>metas\<close>
  answers \<open>FetchEpochMeta\<close>.  The result is what is done to the files, the store, and whether
  the pass did work.
\<close>

record pass_input =
  inSys :: sys
  inDump :: "(nat \<times> bytes \<times> bool) option"
  inDiff :: "(nat \<times> bytes option) option"
  inMeta :: "int \<Rightarrow> EpochMeta option"
  inTip :: "int option"
  inNow :: int

definition runProtonStep ::
  "(bytes \<Rightarrow> bytes) \<Rightarrow> (RemovalVerdict list \<Rightarrow> RemovalVerdict list) \<Rightarrow> Auditor \<Rightarrow> string \<Rightarrow> bool \<Rightarrow> pass_input \<Rightarrow>
    tree_dir \<Rightarrow> AuditStore \<Rightarrow> effect list \<times> AuditStore \<times> bool" where
  "runProtonStep sha srt a origin history inp d db =
     (let base = Base d
      in case inTip inp of
           None \<Rightarrow> ([], db, False)
         | Some tip \<Rightarrow>
        (if base = 0 then
           (let start = (if history then (case earliestProtonEpoch db origin of Some e \<Rightarrow> e | None \<Rightarrow> tip) else tip)
            in case Bootstrap (inSys inp) (inDump inp) a start of
                 (es, Some _) \<Rightarrow> (es, db, False)
               | (es, None) \<Rightarrow> (es, db, True))
         else if base \<ge> tip then ([], db, False)
         else case inMeta inp (base + 1) of
                None \<Rightarrow> ([], db, False)
              | Some meta \<Rightarrow>
             (case Step sha srt (inSys inp) (inDiff inp) a d base (base + 1) meta of
                (es, Some res, None) \<Rightarrow>
                  (es, (if arMatch res then RecordAudit (rebuild_audit origin (arTo res) (inNow inp)) db else db), True)
              | (es, _, _) \<Rightarrow> (es, db, False))))"

subsection \<open>What the writer got\<close>

lemma tree_tail_write: "tree_tail write_leaf s ls = Inr s' \<Longrightarrow> fst s' = fst s @ ls"
proof (induction ls arbitrary: s)
  case (Cons e ls)
  then show ?case by (cases e) (auto simp: write_leaf_def split: option.splits nat.splits sum.splits)
qed simp

lemma diff_tail_write:
  "diff_tail write_leaf st s ds = Inr (st', s') \<Longrightarrow> diff_tail append_leaf st (fst s) ds = Inr (st', fst s')"
proof (induction ds arbitrary: st s)
  case (Cons d ds)
  obtain op l v where d: "d = (op, l, v)" by (cases d)
  have w: "\<exists>n. write_leaf s l v = Inr (fst s @ [(l, v)], n)" if "write_leaf s l v = Inr s1" for s1
    using that by (auto simp: write_leaf_def split: option.splits nat.splits)
  show ?case using Cons w unfolding d
    by (auto simp: append_leaf_def split: if_splits sum.splits)
qed simp

lemma write_leaf_ok: "write_leaf s l v = Inr s1 \<Longrightarrow> append_leaf (fst s) l v = Inr (fst s1)"
  by (auto simp: write_leaf_def append_leaf_def split: option.splits nat.splits)

lemma merge_loop_write:
  "merge_loop write_leaf st s ls ds = Inr (st', s') \<Longrightarrow>
    (merge_loop append_leaf st (fst s) ls ds :: unit diff_error + _) = Inr (st', fst s')"
proof (induction "write_leaf" st s ls ds rule: merge_loop.induct)
  case (1 st s l v ls op dl dv ds)
  note IH = 1(1-5) and run = 1(6)
  consider "compare_bytes l dl = - 1" | "compare_bytes l dl = 0" | "compare_bytes l dl \<noteq> - 1" "compare_bytes l dl \<noteq> 0" by blast
  then show ?case
  proof cases
    case 1
    then obtain s1 where "write_leaf s l v = Inr s1" using run by (auto split: sum.splits)
    then show ?thesis using 1 IH(1)[OF 1] write_leaf_ok[of s l v s1] run by (simp add: append_leaf_def)
  next
    case 2
    show ?thesis
    proof (cases "op = OpAdd")
      case True
      then obtain s1 where "write_leaf s l v = Inr s1" using run 2 by (auto split: sum.splits)
      then show ?thesis using 2 True IH(3)[of s1] write_leaf_ok[of s l v s1] run by (simp add: append_leaf_def)
    next
      case False
      then show ?thesis using 2 IH(2) run by (auto split: if_splits)
    qed
  next
    case 3
    show ?thesis
    proof (cases "op = OpAdd")
      case True
      then obtain s1 where "write_leaf s dl dv = Inr s1" using run 3 by (auto split: sum.splits)
      then show ?thesis using 3 True IH(4)[OF 3 True] write_leaf_ok[of s dl dv s1] run by (simp add: append_leaf_def)
    next
      case False
      then show ?thesis using 3 IH(5) run by (auto split: if_splits)
    qed
  qed
next
  case (2 st s ls)
  then show ?case using tree_tail_write[of s ls] by (auto split: sum.splits)
next
  case (3 st s d ds)
  then show ?case using diff_tail_write[of st s "d # ds"] by simp
qed

lemma ApplyDiff_write:
  "ApplyDiff write_leaf ([], n) tree diff = Inr (stats, s) \<Longrightarrow>
    (ApplyDiff append_leaf [] tree diff :: unit diff_error + _) = Inr (stats, fst s)"
  using merge_loop_write[of no_stats "([], n)" tree "diff_recs diff" stats s]
  by (auto simp: ApplyDiff_def split: if_splits option.splits)

lemma hex_digit_inj:
  assumes "m < 16" "n < 16" "hex_digit m = hex_digit n"
  shows "m = n"
proof -
  have c: "(of_char (hex_digit k) :: nat) = (if k < 10 then 48 + k else 87 + k)" if "k < 16" for k
    using that by (simp add: hex_digit_def)
  have "(if m < 10 then 48 + m else 87 + m) = (if n < 10 then 48 + n else 87 + n)"
    unfolding c[OF assms(1), symmetric] c[OF assms(2), symmetric] assms(3) ..
  then show ?thesis by (cases "m < 10"; cases "n < 10") simp_all
qed

lemma EncodeToString_inj: "EncodeToString a = EncodeToString b \<longleftrightarrow> a = b"
proof (induction a arbitrary: b)
  case Nil
  show ?case by (cases b) (auto simp: EncodeToString_def)
next
  case (Cons x a)
  show ?case
  proof (cases b)
    case (Cons y b')
    have lt: "unat z div 16 < 16" for z :: byte using unsigned_less[of z, where 'a = nat] by simp
    have "x = y" if "hex_digit (unat x div 16) = hex_digit (unat y div 16)" "hex_digit (unat x mod 16) = hex_digit (unat y mod 16)"
    proof -
      have "unat x div 16 = unat y div 16" "unat x mod 16 = unat y mod 16"
        using hex_digit_inj[OF lt lt that(1)] hex_digit_inj[OF _ _ that(2)] by simp_all
      then have "unat x = unat y" by (metis div_mult_mod_eq)
      then show ?thesis by (rule word_unat_eq_iff[THEN iffD2])
    qed
    then show ?thesis using Cons.IH[of b'] unfolding Cons by (auto simp: EncodeToString_def)
  qed (simp add: EncodeToString_def)
qed

subsection \<open>Effects\<close>

lemma map_of_filter_key: "map_of (filter (\<lambda>e. fst e \<noteq> f) d) = (map_of d)(f := None)"
  by (induction d) auto

lemma map_of_effect [simp]:
  "map_of (do_effect (Put f b) d) = (map_of d)(f \<mapsto> b)"
  "map_of (do_effect (Remove f) d) = (map_of d)(f := None)"
  "f \<noteq> g \<Longrightarrow> map_of (do_effect (Rename f g) d) =
    (case map_of d f of None \<Rightarrow> map_of d | Some b \<Rightarrow> (map_of d)(f := None, g \<mapsto> b))"
proof -
  show "map_of (do_effect (Put f b) d) = (map_of d)(f \<mapsto> b)" by (simp add: map_of_filter_key)
  show "map_of (do_effect (Remove f) d) = (map_of d)(f := None)" by (simp add: map_of_filter_key)
  have "filter (\<lambda>e. fst e \<noteq> f \<and> fst e \<noteq> g) d = filter (\<lambda>e. fst e \<noteq> f) (filter (\<lambda>e. fst e \<noteq> g) d)"
    by (simp add: conj_commute)
  then show "f \<noteq> g \<Longrightarrow> map_of (do_effect (Rename f g) d) =
    (case map_of d f of None \<Rightarrow> map_of d | Some b \<Rightarrow> (map_of d)(f := None, g \<mapsto> b))"
    by (auto simp: map_of_filter_key fun_eq_iff split: option.splits simp del: filter_filter)
qed

lemma do_effects_simps [simp]:
  "do_effects [] d = d" "do_effects (e # es) d = do_effects es (do_effect e d)"
  by (simp_all add: do_effects_def)

lemma merge_loop_subset:
  "merge_loop append_leaf st s ls ds = Inr (st', s') \<Longrightarrow> set s' \<subseteq> set s \<union> set ls \<union> snd ` set ds"
proof (induction "append_leaf :: ('e, leaves) writer" st s ls ds rule: merge_loop.induct)
  case (1 st s l v ls op dl dv ds)
  then show ?case by (auto simp: append_leaf_def split: if_splits)
next
  case (3 st s d ds)
  then have "s' = s @ map snd (with_op OpAdd False [] (d # ds))" by (simp add: diff_tail_append)
  then have "set s' = set s \<union> snd ` set (with_op OpAdd False [] (d # ds))" by simp
  then show ?case using image_mono[OF set_merge_sets(2)[of OpAdd False "[]" "d # ds"], of snd] by blast
qed auto

lemma merged_dump_leaves:
  assumes "(ApplyDiff append_leaf [] (SliceLeaves b) diff :: 'e diff_error + _) = Inr (stats, ls)"
  shows "dump_leaves ls"
proof -
  have m: "length diff mod diffEntrySize = 0"
    and run: "(merge_loop append_leaf no_stats [] (SliceLeaves b) (diff_recs diff) :: 'e diff_error + _) = Inr (stats, ls)"
    using assms by (auto simp: ApplyDiff_def split: if_splits option.splits)
  have "set ls \<subseteq> set (SliceLeaves b) \<union> snd ` set (diff_recs diff)" using merge_loop_subset[OF run] by simp
  moreover have "length (fst e) = 32 \<and> length (snd e) = 36" if "e \<in> set (SliceLeaves b)" for e
    using SliceLeaves_sizes[of b] that by (auto simp: dump_leaves_def list_all_iff)
  moreover have "length (fst e) = 32 \<and> length (snd e) = 36" if "e \<in> snd ` set (diff_recs diff)" for e
    using that diff_recs_length[OF m] by blast
  ultimately have "\<forall>e\<in>set ls. length (fst e) = 32 \<and> length (snd e) = 36" by blast
  then show ?thesis by (simp add: dump_leaves_def list_all_iff case_prod_unfold)
qed

text \<open>What a step that reports success has checked, and all it does to the files.\<close>

definition step_files :: "int \<Rightarrow> int \<Rightarrow> bytes \<Rightarrow> effect list" where
  "step_files from till m =
     [Put (PartialTree till) [], Put (PartialTree till) m, Rename (PartialTree till) (Tree till), Remove (Tree from)]"

lemma Step_ok:
  assumes "Step sha srt io resp a d from till meta = (es, Some res, None)"
  obtains b diff ls root where "mapFile d (Tree from) = Some b"
    "(ApplyDiff append_leaf [] (SliceLeaves b) diff :: unit diff_error + _) = Inr (arStats res, ls)" "dump_leaves ls"
    "TreeRootParallel sha ls (ShardDepth (defaults a)) = Inr root" "EncodeToString root = TreeHash meta"
    "arRemovals res = JudgeRemovals srt (arStats res) till (StartEpochID meta)"
    "whole_records (length (dump ls))" "arMatch res" "arTo res = till" "es = step_files from till (dump ls)"
proof -
  obtain b where b: "mapFile d (Tree from) = Some b"
    using assms unfolding Step_def Let_def by (auto split: if_splits option.splits sum.splits)
  obtain diff stats s es' where ap: "ApplyDiff write_leaf ([], room io) (SliceLeaves b) diff = Inr (stats, s)"
    and fin: "finish_step sha srt io (defaults a) from till meta stats (dump (fst s)) = (es', Some res, None)"
    and es: "es = [Put (PartialTree till) [], Put (PartialTree till) (dump (fst s))] @ es'"
    using assms b unfolding Step_def Let_def
    by (auto split: if_splits option.splits sum.splits prod.splits)
  note ap' = ApplyDiff_write[OF ap]
  have dl: "dump_leaves (fst s)" by (rule merged_dump_leaves[OF ap'])
  show thesis
    using fin es that[OF b, of diff "fst s"] ap' dl
    unfolding finish_step_def Let_def SliceLeaves_dump[OF dl]
    by (auto split: if_splits sum.splits simp: step_files_def)
qed


subsection \<open>A matching step carries the signed directory forward\<close>

definition rebuilt_to :: "(bytes \<Rightarrow> bytes) \<Rightarrow> string \<Rightarrow> bytes \<Rightarrow> bool" where
  "rebuilt_to sha hash m \<longleftrightarrow> whole_records (length m) \<and>
     (\<exists>d root. TreeRootParallel sha (SliceLeaves m) d = Inr root \<and> EncodeToString root = hash)"

lemma dump_leaves_labels: "dump_leaves ls \<Longrightarrow> \<forall>e\<in>set ls. length (fst e) = 32"
  by (auto simp: dump_leaves_def list_all_iff)

text \<open>The only directory with a given signed hash is the one rebuilt to it.\<close>

lemma rebuilt_unique:
  assumes "\<And>m. length (sha m) = 32" "rebuilt_to sha hash m"
    and "sorted_leaves D" "EncodeToString (smt sha 256 D) = hash"
    and "inj_on sha (smt_pre sha 256 D \<union> smt_pre sha 256 (SliceLeaves m))"
    and "emptyNode \<notin> sha ` (smt_pre sha 256 D \<union> smt_pre sha 256 (SliceLeaves m))"
  shows "D = SliceLeaves m"
proof -
  obtain d root where r: "TreeRootParallel sha (SliceLeaves m) d = Inr root" "EncodeToString root = hash"
    using assms(2) by (auto simp: rebuilt_to_def)
  have z: "no_zero_hash sha (SliceLeaves m)" using assms(6) by (force simp: no_zero_hash_def)
  note ok = TreeRootParallel_ok[OF assms(1) dump_leaves_labels[OF SliceLeaves_sizes] z r(1)]
  have "EncodeToString (smt sha 256 D) = EncodeToString (smt sha 256 (SliceLeaves m))" using r(2) ok(2) assms(4) by simp
  then have "smt sha 256 D = smt sha 256 (SliceLeaves m)" by (simp only: EncodeToString_inj)
  have z': "\<forall>m'\<in>smt_pre sha 256 D \<union> smt_pre sha 256 (SliceLeaves m). sha m' \<noteq> emptyNode"
    using assms(6) by (metis imageI)
  show ?thesis
    by (rule smt_inj[OF assms(1) _ assms(3) ok(1) _ assms(5) z' \<open>smt sha 256 D = _\<close>]) simp_all
qed

lemma Step_rebuilt:
  assumes "Step sha srt io resp a d from till meta = (es, Some res, None)" "from \<noteq> till"
    and "mapFile (do_effects es d) (Tree till) = Some m"
  shows "rebuilt_to sha (TreeHash meta) m"
proof -
  obtain ls root where st: "dump_leaves ls" "TreeRootParallel sha ls (ShardDepth (defaults a)) = Inr root"
    "EncodeToString root = TreeHash meta" "whole_records (length (dump ls))" "es = step_files from till (dump ls)"
    using Step_ok[OF assms(1)] by metis
  have "m = dump ls" using assms(2,3) st(4)
    by (simp add: mapFile_def st(5) step_files_def split: option.splits if_splits)
  then show ?thesis using st(1-4) SliceLeaves_dump[OF st(1)] by (auto simp: rebuilt_to_def)
qed

lemma Step_extends:
  assumes "\<And>m. length (sha m) = 32" "sorts_unexplained srt"
    and "Step sha srt io resp a d from till meta = (es, Some res, None)" "from \<noteq> till"
    and "mapFile d (Tree from) = Some b" "rebuilt_to sha hash b"
    and "mapFile (do_effects es d) (Tree till) = Some m"
    and "sorted_leaves D" "EncodeToString (smt sha 256 D) = hash"
    and "sorted_leaves D'" "EncodeToString (smt sha 256 D') = TreeHash meta"
    and "inj_on sha P" "emptyNode \<notin> sha ` P"
    and "P = smt_pre sha 256 D \<union> smt_pre sha 256 (SliceLeaves b) \<union> smt_pre sha 256 D' \<union> smt_pre sha 256 (SliceLeaves m)"
  shows "(\<forall>l v v'. (l, v) \<in> set D \<longrightarrow> (l, v') \<in> set D' \<longrightarrow> v' = v) \<and>
    Removals (arStats res) = map removal (filter (\<lambda>e. e \<notin> set D') D) \<and>
    Added (arStats res) = card (set D' - set D) \<and>
    (Clean (arRemovals res) \<longrightarrow> (\<forall>e\<in>set D - set D'. int (be_nat (drop 32 (snd e))) < StartEpochID meta))"
proof -
  obtain diff ls root where st: "(ApplyDiff append_leaf [] (SliceLeaves b) diff :: unit diff_error + _) = Inr (arStats res, ls)"
    "dump_leaves ls" "TreeRootParallel sha ls (ShardDepth (defaults a)) = Inr root" "EncodeToString root = TreeHash meta"
    "arRemovals res = JudgeRemovals srt (arStats res) till (StartEpochID meta)" "whole_records (length (dump ls))"
    "es = step_files from till (dump ls)"
    using Step_ok[OF assms(3)] assms(5) by (metis option.inject)
  have m: "m = dump ls" using assms(4,7) st(6)
    by (simp add: mapFile_def st(7) step_files_def split: option.splits if_splits)
  have sl: "SliceLeaves m = ls" using SliceLeaves_dump[OF st(2)] by (simp add: m)
  have "rebuilt_to sha (TreeHash meta) m" using st(3,4,6) sl by (auto simp: rebuilt_to_def m)
  then have D': "D' = ls"
    using rebuilt_unique[OF assms(1) _ assms(10,11), of m] inj_on_subset[OF assms(12)] assms(13,14) sl by (metis Un_upper2 Un_assoc image_mono subsetD)
  have D: "D = SliceLeaves b"
    by (rule rebuilt_unique[OF assms(1,6,8,9)]) (use assms(12-14) in \<open>auto intro: inj_on_subset\<close>)
  note ap = applied_diff[OF assms(8)[unfolded D] st(1)]
  have "int (be_nat (drop 32 (snd e))) < StartEpochID meta" if "Clean (arRemovals res)" "e \<in> set D - set D'" for e
  proof -
    have "removal e \<in> set (Removals (arStats res))" using that(2) ap(2) D D' by auto
    then have "entered_at (removal e) < StartEpochID meta"
      using that(1) Clean_iff[OF assms(2)] st(5) by auto
    then show ?thesis by (simp add: entered_at_def removal_def)
  qed
  then show ?thesis using ap(2,4,5) D D' by blast
qed

subsection \<open>Interruptions\<close>

text \<open>What a call does before a tree is put in place touches only the two working files.\<close>

definition only_working :: "int \<Rightarrow> effect list \<Rightarrow> bool" where
  "only_working t es \<longleftrightarrow> list_all (\<lambda>e. case e of
     Put f _ \<Rightarrow> f = PartialTree t | Remove f \<Rightarrow> f = PartialTree t
   | Rename f g \<Rightarrow> f = PartialTree t \<and> g = MismatchTree t) es"

lemma only_working_trees: "only_working t es \<Longrightarrow> map_of (do_effects es d) (Tree e) = map_of d (Tree e)"
proof (induction es arbitrary: d)
  case (Cons x es)
  then have "map_of (do_effect x d) (Tree e) = map_of d (Tree e)"
    by (auto simp: only_working_def simp del: do_effect.simps split: effect.splits option.splits)
  then show ?case using Cons by (simp add: only_working_def)
qed simp

lemma only_working_take: "only_working t es \<Longrightarrow> only_working t (take k es)"
  by (auto simp: only_working_def list_all_iff dest!: in_set_takeD)

lemma Step_shapes:
  assumes "Step sha srt io resp a d from till meta = (es, r)"
  shows "only_working till es \<or>
    (\<exists>m. es = step_files from till m \<and> rebuilt_to sha (TreeHash meta) m)"
proof (cases "\<exists>stats s diff b. ApplyDiff write_leaf ([], room io) (SliceLeaves b) diff = Inr (stats, s) \<and>
    es = [Put (PartialTree till) [], Put (PartialTree till) (dump (fst s))] @
      fst (finish_step sha srt io (defaults a) from till meta stats (dump (fst s)))")
  case False
  then show ?thesis using assms unfolding Step_def Let_def
    by (auto simp: only_working_def split: if_splits option.splits sum.splits prod.splits) fastforce+
next
  case True
  then obtain stats s diff b where ap: "ApplyDiff write_leaf ([], room io) (SliceLeaves b) diff = Inr (stats, s)"
    and es: "es = [Put (PartialTree till) [], Put (PartialTree till) (dump (fst s))] @
      fst (finish_step sha srt io (defaults a) from till meta stats (dump (fst s)))" by blast
  show ?thesis using es unfolding finish_step_def Let_def rebuilt_to_def
    by (auto simp: only_working_def step_files_def split: if_splits sum.splits)
qed

lemma step_files_prefix:
  assumes "from \<noteq> till" "map_of d (Tree from) = Some b"
  defines "d' \<equiv> \<lambda>k m. do_effects (take k (step_files from till m)) d"
  shows "(map_of (d' k m) (Tree from) = Some b \<or> map_of (d' k m) (Tree till) = Some m) \<and>
    (\<forall>e. e \<noteq> from \<longrightarrow> map_of (d' k m) (Tree e) = map_of d (Tree e) \<or> e = till \<and> map_of (d' k m) (Tree till) = Some m)"
proof -
  consider "k = 0" | "k = 1" | "k = 2" | "k = 3" | "4 \<le> k" by linarith
  then show ?thesis
    by cases (use assms(1,2) in \<open>simp_all add: d'_def step_files_def numeral_eq_Suc del: do_effect.simps\<close>)
qed

lemma Step_interrupted:
  assumes "Step sha srt io resp a d from till meta = (es, r)" "from \<noteq> till" "map_of d (Tree from) = Some b"
  shows "(map_of (do_effects (take k es) d) (Tree from) = Some b \<or>
      (\<exists>m. map_of (do_effects (take k es) d) (Tree till) = Some m \<and> rebuilt_to sha (TreeHash meta) m)) \<and>
    (\<forall>e. e \<noteq> from \<longrightarrow> map_of (do_effects (take k es) d) (Tree e) = map_of d (Tree e) \<or>
      e = till \<and> (\<exists>m. map_of (do_effects (take k es) d) (Tree till) = Some m \<and> rebuilt_to sha (TreeHash meta) m))"
  using Step_shapes[OF assms(1)]
proof
  assume "only_working till es"
  then show ?thesis using only_working_trees[OF only_working_take] assms(3) by simp
next
  assume "\<exists>m. es = step_files from till m \<and> rebuilt_to sha (TreeHash meta) m"
  then obtain m where m: "es = step_files from till m" "rebuilt_to sha (TreeHash meta) m" by blast
  show ?thesis using step_files_prefix[OF assms(2,3), of k m] m by blast
qed

subsection \<open>The replay\<close>

definition served :: "pass_input \<Rightarrow> (int \<times> string) set" where
  "served inp = {(e, TreeHash meta) |e meta. inMeta inp e = Some meta}"

definition arrived :: "pass_input \<Rightarrow> bytes set" where
  "arrived inp = (case inDump inp of None \<Rightarrow> {} | Some (_, body, _) \<Rightarrow> {body})"

text \<open>
  Passes one after another, each either completed or cut off after some of its effects and
  before its audit is recorded.  \<open>S\<close> is every hash Proton served so far, \<open>B\<close> every dump.
\<close>

inductive replay ::
  "(bytes \<Rightarrow> bytes) \<Rightarrow> (RemovalVerdict list \<Rightarrow> RemovalVerdict list) \<Rightarrow> Auditor \<Rightarrow> string \<Rightarrow> bool \<Rightarrow>
    tree_dir \<Rightarrow> AuditStore \<Rightarrow> (int \<times> string) set \<Rightarrow> bytes set \<Rightarrow> bool"
  for sha srt a origin history where
  start: "audits db origin = [] \<Longrightarrow> replay sha srt a origin history [] db {} {}"
| pass: "replay sha srt a origin history d db S B \<Longrightarrow>
    runProtonStep sha srt a origin history inp d db = (es, db', w) \<Longrightarrow>
    replay sha srt a origin history (do_effects es d) db' (S \<union> served inp) (B \<union> arrived inp)"
| cut: "replay sha srt a origin history d db S B \<Longrightarrow>
    runProtonStep sha srt a origin history inp d db = (es, db', w) \<Longrightarrow>
    replay sha srt a origin history (do_effects (take k es) d) db (S \<union> served inp) (B \<union> arrived inp)"

definition accounted :: "(bytes \<Rightarrow> bytes) \<Rightarrow> (int \<times> string) set \<Rightarrow> bytes set \<Rightarrow> int \<Rightarrow> bytes \<Rightarrow> bool" where
  "accounted sha S B e m \<longleftrightarrow> m \<in> B \<or> (\<exists>h. (e, h) \<in> S \<and> rebuilt_to sha h m)"

definition audited :: "(bytes \<Rightarrow> bytes) \<Rightarrow> (int \<times> string) set \<Rightarrow> bytes set \<Rightarrow> int \<Rightarrow> bool" where
  "audited sha S B e \<longleftrightarrow>
     (\<exists>b m h diff stats. accounted sha S B (e - 1) b \<and> (e, h) \<in> S \<and> rebuilt_to sha h m \<and>
       (ApplyDiff append_leaf [] (SliceLeaves b) diff :: unit diff_error + _) = Inr (stats, SliceLeaves m))"

lemma accounted_mono: "accounted sha S B e m \<Longrightarrow> S \<subseteq> S' \<Longrightarrow> B \<subseteq> B' \<Longrightarrow> accounted sha S' B' e m"
  unfolding accounted_def by blast

lemma audited_mono: "audited sha S B e \<Longrightarrow> S \<subseteq> S' \<Longrightarrow> B \<subseteq> B' \<Longrightarrow> audited sha S' B' e"
  unfolding audited_def using accounted_mono by blast

lemma Bootstrap_shapes:
  assumes "Bootstrap io received a e = (es, r)"
  shows "only_working e es \<or> (\<exists>status body copied. received = Some (status, body, copied) \<and>
    es = [Put (PartialTree e) [], Put (PartialTree e) body, Rename (PartialTree e) (Tree e)])"
  using assms unfolding Bootstrap_def Let_def
  by (auto simp: only_working_def split: if_splits option.splits prod.splits)

lemma Bootstrap_trees:
  assumes "Bootstrap io received a e = (es, r)" "map_of (do_effects (take k es) d) (Tree t) = Some m"
  shows "map_of d (Tree t) = Some m \<or> (\<exists>status copied. received = Some (status, m, copied))"
  using Bootstrap_shapes[OF assms(1)]
proof
  assume "only_working e es"
  then show ?thesis using only_working_trees[OF only_working_take] assms(2) by simp
next
  assume "\<exists>status body copied. received = Some (status, body, copied) \<and>
    es = [Put (PartialTree e) [], Put (PartialTree e) body, Rename (PartialTree e) (Tree e)]"
  then obtain status body copied where r: "received = Some (status, body, copied)"
    "es = [Put (PartialTree e) [], Put (PartialTree e) body, Rename (PartialTree e) (Tree e)]" by blast
  consider "k = 0" | "k = 1" | "k = 2" | "3 \<le> k" by linarith
  then show ?thesis
    by cases (use assms(2) r in \<open>auto simp: numeral_eq_Suc simp del: do_effect.simps split: if_splits\<close>)
qed

lemma Step_trees:
  assumes "Step sha srt io resp a d from till meta = (es, r)" "map_of (do_effects (take k es) d) (Tree t) = Some m"
  shows "map_of d (Tree t) = Some m \<or> t = till \<and> rebuilt_to sha (TreeHash meta) m"
  using Step_shapes[OF assms(1)]
proof
  assume "only_working till es"
  then show ?thesis using only_working_trees[OF only_working_take] assms(2) by simp
next
  assume "\<exists>m. es = step_files from till m \<and> rebuilt_to sha (TreeHash meta) m"
  then obtain b where b: "es = step_files from till b" "rebuilt_to sha (TreeHash meta) b" by blast
  consider "k = 0" | "k = 1" | "k = 2" | "k = 3" | "4 \<le> k" by linarith
  then show ?thesis
    by cases (use assms(2) b in \<open>auto simp: step_files_def numeral_eq_Suc simp del: do_effect.simps split: if_splits\<close>)
qed

lemma RecordAudit_set:
  "x \<in> set (audits (RecordAudit au db) (auOrigin au)) \<Longrightarrow> x = (auEpoch au, au) \<or> x \<in> set (audits db (auOrigin au))"
  unfolding audits_RecordAudit Let_def by (auto split: if_splits dest!: in_set_dropD kput_set)

text \<open>A pass leaves only trees it was given or has rebuilt, and records only what it rebuilt.\<close>

lemma pass_trees:
  assumes "runProtonStep sha srt a origin history inp d db = (es, db', w)"
    and "map_of (do_effects (take k es) d) (Tree e) = Some m"
  shows "map_of d (Tree e) = Some m \<or> accounted sha (served inp) (arrived inp) e m"
proof -
  consider (none) "es = []"
    | (boot) start r where "Bootstrap (inSys inp) (inDump inp) a start = (es, r)"
    | (step) meta r where "inMeta inp (Base d + 1) = Some meta"
        "Step sha srt (inSys inp) (inDiff inp) a d (Base d) (Base d + 1) meta = (es, r)"
    using assms(1) unfolding runProtonStep_def Let_def
    by (auto split: option.splits if_splits prod.splits)
  then show ?thesis
  proof cases
    case none
    then show ?thesis using assms(2) by simp
  next
    case boot
    then show ?thesis using Bootstrap_trees[OF boot assms(2)] by (auto simp: accounted_def arrived_def)
  next
    case step
    have "(Base d + 1, TreeHash meta) \<in> served inp" using step(1) by (auto simp: served_def)
    then show ?thesis using Step_trees[OF step(2) assms(2)] by (auto simp: accounted_def)
  qed
qed

lemma pass_records:
  assumes "runProtonStep sha srt a origin history inp d db = (es, db', w)"
  shows "db' = db \<or> (\<exists>meta res. inMeta inp (Base d + 1) = Some meta \<and>
    Step sha srt (inSys inp) (inDiff inp) a d (Base d) (Base d + 1) meta = (es, Some res, None) \<and>
    db' = RecordAudit (rebuild_audit origin (Base d + 1) (inNow inp)) db)"
proof (cases "db' = db")
  case False
  then obtain meta res where m: "inMeta inp (Base d + 1) = Some meta"
    and st: "Step sha srt (inSys inp) (inDiff inp) a d (Base d) (Base d + 1) meta = (es, Some res, None)"
    and r: "db' = RecordAudit (rebuild_audit origin (arTo res) (inNow inp)) db"
    using assms unfolding runProtonStep_def Let_def
    by (auto split: option.splits if_splits prod.splits)
  have "arTo res = Base d + 1" by (rule Step_ok[OF st])
  then show ?thesis using m st r by auto
qed simp

lemma mapFile_SomeD: "mapFile d f = Some b \<Longrightarrow> map_of d f = Some b"
  by (auto simp: mapFile_def split: option.splits if_splits)

lemma pass_audited:
  assumes "runProtonStep sha srt a origin history inp d db = (es, db', w)"
    and "\<And>e m. map_of d (Tree e) = Some m \<Longrightarrow> accounted sha S B e m"
    and "x \<in> set (audits db' origin)" "x \<notin> set (audits db origin)"
  shows "audited sha (S \<union> served inp) (B \<union> arrived inp) (fst x)"
proof -
  let ?e = "Base d + 1"
  obtain meta res where m: "inMeta inp ?e = Some meta"
    "Step sha srt (inSys inp) (inDiff inp) a d (Base d) ?e meta = (es, Some res, None)"
    "db' = RecordAudit (rebuild_audit origin ?e (inNow inp)) db"
    using pass_records[OF assms(1)] assms(3,4) by blast
  have e: "fst x = ?e"
    using RecordAudit_set[of x "rebuild_audit origin ?e (inNow inp)" db] assms(3,4) m(3)
    by (auto simp: rebuild_audit_def)
  obtain b diff ls root where st: "mapFile d (Tree (Base d)) = Some b"
    "(ApplyDiff append_leaf [] (SliceLeaves b) diff :: unit diff_error + _) = Inr (arStats res, ls)" "dump_leaves ls"
    "TreeRootParallel sha ls (ShardDepth (defaults a)) = Inr root" "EncodeToString root = TreeHash meta"
    "whole_records (length (dump ls))"
    by (rule Step_ok[OF m(2)])
  have "accounted sha (S \<union> served inp) (B \<union> arrived inp) (?e - 1) b"
    using accounted_mono[OF assms(2)[OF mapFile_SomeD[OF st(1)]]] by simp
  moreover have "rebuilt_to sha (TreeHash meta) (dump ls)"
    using st(4-6) SliceLeaves_dump[OF st(3)] by (auto simp: rebuilt_to_def)
  moreover have "(?e, TreeHash meta) \<in> S \<union> served inp" using m(1) by (auto simp: served_def)
  ultimately show ?thesis
    unfolding audited_def e using st(2) SliceLeaves_dump[OF st(3)] by metis
qed

lemma replay_invariant:
  assumes "replay sha srt a origin history d db S B"
  shows "(\<forall>e m. map_of d (Tree e) = Some m \<longrightarrow> accounted sha S B e m) \<and>
    (\<forall>x\<in>set (audits db origin). audited sha S B (fst x))"
  using assms
proof (induction rule: replay.induct)
  case (start db)
  then show ?case by simp
next
  case (pass d db S B inp es db' w)
  have S: "S \<subseteq> S \<union> served inp" "served inp \<subseteq> S \<union> served inp" "B \<subseteq> B \<union> arrived inp" "arrived inp \<subseteq> B \<union> arrived inp" by auto
  have "accounted sha (S \<union> served inp) (B \<union> arrived inp) e m" if "map_of (do_effects es d) (Tree e) = Some m" for e m
    using pass_trees[OF pass.hyps(2), of "length es" e m] that pass.IH S accounted_mono by (metis take_all order_refl)
  moreover have "audited sha (S \<union> served inp) (B \<union> arrived inp) (fst x)" if "x \<in> set (audits db' origin)" for x
    using pass_audited[OF pass.hyps(2) _ that] pass.IH audited_mono[OF _ S(1,3)] by blast
  ultimately show ?case by blast
next
  case (cut d db S B inp es db' w k)
  have S: "S \<subseteq> S \<union> served inp" "served inp \<subseteq> S \<union> served inp" "B \<subseteq> B \<union> arrived inp" "arrived inp \<subseteq> B \<union> arrived inp" by auto
  have "accounted sha (S \<union> served inp) (B \<union> arrived inp) e m" if "map_of (do_effects (take k es) d) (Tree e) = Some m" for e m
    using pass_trees[OF cut.hyps(2) that] cut.IH S accounted_mono by metis
  then show ?case using cut.IH audited_mono[OF _ S(1,3)] by blast
qed

subsection \<open>The theorems\<close>

definition step_pre :: "(bytes \<Rightarrow> bytes) \<Rightarrow> leaves \<Rightarrow> bytes \<Rightarrow> leaves \<Rightarrow> bytes \<Rightarrow> bytes set" where
  "step_pre sha D b D' m =
     smt_pre sha 256 D \<union> smt_pre sha 256 (SliceLeaves b) \<union> smt_pre sha 256 D' \<union> smt_pre sha 256 (SliceLeaves m)"

text \<open>
C9. From the second matching step in a row on, a step that matches carries the directory
  the operator signed for one epoch into the one it signed for the next: when the tree it
  starts from is the one that an earlier matching step put in place, then whatever sorted
  directories stand behind the two signed hashes, no entry changed its value, the removals
  listed are exactly the entries that left, in order, the additions counted are the entries
  that came, and on a clean report every entry that left was dated before the retention
  window, unless SHA-256 collides or hashes to zeros on a preimage of the four trees. The
  first step after Bootstrap is outside the claim: its base is a download that nothing has
  rebuilt.
\<close>

theorem matching_step_extends:
  assumes "\<And>x. length (sha x) = 32" "sorts_unexplained srt"
    and "Step sha srt io0 resp0 a0 d0 before from meta0 = (es0, Some res0, None)" "before \<noteq> from"
    and "map_of d (Tree from) = map_of (do_effects es0 d0) (Tree from)"
    and "Step sha srt io resp a d from till meta = (es, Some res, None)" "from \<noteq> till"
    and "mapFile d (Tree from) = Some b" "mapFile (do_effects es d) (Tree till) = Some m"
    and "sorted_leaves D" "EncodeToString (smt sha 256 D) = TreeHash meta0"
    and "sorted_leaves D'" "EncodeToString (smt sha 256 D') = TreeHash meta"
  shows "((\<forall>l v v'. (l, v) \<in> set D \<longrightarrow> (l, v') \<in> set D' \<longrightarrow> v' = v) \<and>
      Removals (arStats res) = map removal (filter (\<lambda>e. e \<notin> set D') D) \<and>
      Added (arStats res) = card (set D' - set D) \<and>
      (Clean (arRemovals res) \<longrightarrow> (\<forall>e\<in>set D - set D'. int (be_nat (drop 32 (snd e))) < StartEpochID meta))) \<or>
    emptyNode \<in> sha ` step_pre sha D b D' m \<or> collides sha (step_pre sha D b D' m)"
proof (cases "inj_on sha (step_pre sha D b D' m) \<and> emptyNode \<notin> sha ` step_pre sha D b D' m")
  case True
  have "mapFile (do_effects es0 d0) (Tree from) = Some b" using assms(5,8) by (simp add: mapFile_def)
  then have "rebuilt_to sha (TreeHash meta0) b" by (rule Step_rebuilt[OF assms(3,4)])
  then show ?thesis using Step_extends[OF assms(1,2,6-8) _ assms(9-13) _ _ step_pre_def] True by blast
qed (auto simp: collides_def)

text \<open>
C11. Wherever a step is cut off, the retained tree it started from is still there or its
  successor is, rebuilt to the hash the operator signed, and no other tree has changed.
\<close>

theorem interrupted_step_safe:
  assumes "Step sha srt io resp a d from till meta = (es, r)" "from \<noteq> till" "map_of d (Tree from) = Some b"
  shows "(map_of (do_effects (take k es) d) (Tree from) = Some b \<or>
      (\<exists>m. map_of (do_effects (take k es) d) (Tree till) = Some m \<and> rebuilt_to sha (TreeHash meta) m)) \<and>
    (\<forall>e. e \<noteq> from \<longrightarrow> map_of (do_effects (take k es) d) (Tree e) = map_of d (Tree e) \<or>
      e = till \<and> (\<exists>m. map_of (do_effects (take k es) d) (Tree till) = Some m \<and> rebuilt_to sha (TreeHash meta) m))"
  by (rule Step_interrupted[OF assms])

text \<open>
C10. In any run of the replay, with passes cut off anywhere, every tree in the directory
  is a dump that was downloaded or was rebuilt to a hash served for its epoch, and an epoch
  is recorded as audited only if it was rebuilt to a hash served for it from the diff
  applied to such a tree of the epoch before.
\<close>

theorem replay_accounted:
  assumes "replay sha srt a origin history d db S B"
  shows "(\<forall>e m. map_of d (Tree e) = Some m \<longrightarrow> accounted sha S B e m) \<and>
    (\<forall>x\<in>set (audits db origin). audited sha S B (fst x))"
  by (rule replay_invariant[OF assms])

subsection \<open>Instances\<close>

definition wit_sys :: sys where
  "wit_sys = \<lparr>mkdirOk = True, freeBytes = None, mapBaseOk = True, mapMergedOk = True, createOk = True, room = None,
     flushOk = True, closeOk = True, renameOk = True\<rparr>"

definition wit_auditor :: Auditor where
  "wit_auditor = \<lparr>ShardDepth = 3, MinFreeBytes = 1\<rparr>"

definition wit_after :: leaves where
  "wit_after = [(h32 2, replicate 32 6 @ [0, 0, 0, 9]), (h32 3, replicate 36 7)]"

definition wit_hash :: "leaves \<Rightarrow> string" where
  "wit_hash ls = EncodeToString (smt one_sha 256 ls)"

definition wit_meta :: EpochMeta where
  "wit_meta = \<lparr>TreeHash = wit_hash wit_after, StartEpochID = 10\<rparr>"

definition wit_stats :: DiffStats where
  "wit_stats = \<lparr>Added = 1, Removed = 1, Overwritten = 0, PhantomRemovals = 0, ValueMismatches = 0,
     Removals = [\<lparr>rmLabel = h32 1, rmValue = replicate 32 5 @ [0, 0, 0, 9]\<rparr>], PhantomRemoved = []\<rparr>"

definition wit_result :: AuditResult where
  "wit_result = \<lparr>arFrom = 4, arTo = 5, arLeaves = 2, arStats = wit_stats,
     arRemovals = JudgeRemovals (sort_key vMinEpochID) wit_stats 5 10,
     arExpectedRoot = wit_hash wit_after, arComputedRoot = wit_hash wit_after, arMatch = True\<rparr>"

lemma wit_dumps: "dump_leaves wit_leaves" "dump_leaves wit_after" "sorted_leaves wit_after"
proof -
  show "dump_leaves wit_leaves" by (simp add: dump_leaves_def wit_leaves_def)
  show "dump_leaves wit_after" by (simp add: dump_leaves_def wit_after_def)
  have "checkSorted wit_after = None" by code_simp
  then show "sorted_leaves wit_after" by (subst (asm) checkSorted_iff) (simp_all add: wit_after_def)
qed

definition wit_last :: leaves where
  "wit_last = [(h32 3, replicate 36 7), (h32 4, replicate 36 8)]"

definition wit_diff2 :: bytes where
  "wit_diff2 = (2 # h32 2 @ (replicate 32 6 @ [0, 0, 0, 9])) @ (1 # h32 4 @ replicate 36 8)"

definition wit_stats2 :: DiffStats where
  "wit_stats2 = \<lparr>Added = 1, Removed = 1, Overwritten = 0, PhantomRemovals = 0, ValueMismatches = 0,
     Removals = [\<lparr>rmLabel = h32 2, rmValue = replicate 32 6 @ [0, 0, 0, 9]\<rparr>], PhantomRemoved = []\<rparr>"

definition wit_meta2 :: EpochMeta where
  "wit_meta2 = \<lparr>TreeHash = wit_hash wit_last, StartEpochID = 10\<rparr>"

definition wit_result2 :: AuditResult where
  "wit_result2 = \<lparr>arFrom = 5, arTo = 6, arLeaves = 2, arStats = wit_stats2,
     arRemovals = JudgeRemovals (sort_key vMinEpochID) wit_stats2 6 10,
     arExpectedRoot = wit_hash wit_last, arComputedRoot = wit_hash wit_last, arMatch = True\<rparr>"

lemma wit_last_ok: "dump_leaves wit_last" "checkSorted wit_last = None" "sorted_leaves wit_last"
proof -
  show "dump_leaves wit_last" by (simp add: dump_leaves_def wit_last_def)
  show c: "checkSorted wit_last = None" by code_simp
  then show "sorted_leaves wit_last" by (subst (asm) checkSorted_iff) (simp_all add: wit_last_def)
qed

lemma whole_dump: "dump_leaves ls \<Longrightarrow> ls \<noteq> [] \<Longrightarrow> whole_records (length (dump ls))"
  using length_dump[of ls] by (simp add: whole_records_def protonRecordLength_def)

lemma wit_whole: "whole_records (length (dump wit_leaves))" "whole_records (length (dump wit_after))"
  by (intro whole_dump wit_dumps; simp add: wit_leaves_def wit_after_def)+

lemma wit_written: "ApplyDiff write_leaf ([], None) wit_leaves wit_diff = Inr (wit_stats, wit_after, None)"
  by code_simp

lemma wit_sys_io [simp]:
  "mkdirOk wit_sys" "freeBytes wit_sys = None" "mapBaseOk wit_sys" "mapMergedOk wit_sys" "createOk wit_sys" "room wit_sys = None"
  "flushOk wit_sys" "closeOk wit_sys" "renameOk wit_sys"
  by (simp_all add: wit_sys_def)

lemma wit_auditor_io [simp]: "defaults wit_auditor = wit_auditor" "below_floor wit_sys a = None"
  by (simp_all add: wit_auditor_def defaults_def below_floor_def)

lemma one_sha_step:
  assumes "dump_leaves ls" "ls \<noteq> []" "dump_leaves ls'" "ls' \<noteq> []" "checkSorted ls' = None"
    and "map_of d (Tree from) = Some (dump ls)" "length diff < 2 ^ 30"
    and "ApplyDiff write_leaf ([], None) ls diff = Inr (stats, ls', None)"
  shows "Step one_sha (sort_key vMinEpochID) wit_sys (Some (200, Some diff)) wit_auditor d from till
      \<lparr>TreeHash = wit_hash ls', StartEpochID = w\<rparr> =
    (step_files from till (dump ls'),
     Some \<lparr>arFrom = from, arTo = till, arLeaves = length ls', arStats = stats,
       arRemovals = JudgeRemovals (sort_key vMinEpochID) stats till w,
       arExpectedRoot = wit_hash ls', arComputedRoot = wit_hash ls', arMatch = True\<rparr>, None)"
proof -
  have root: "TreeRootParallel one_sha ls' 3 = Inr (smt one_sha 256 ls')"
    using assms(5) by (subst TreeRootParallel_smt) (simp_all add: no_zero_one_sha dump_leaves_labels[OF assms(3)])
  have f: "fetch (Some (200, Some diff)) = Inr diff" using assms(7) by (simp add: fetch_def)
  note w = whole_dump[OF assms(1,2)] whole_dump[OF assms(3,4)]
  have fin: "finish_step one_sha (sort_key vMinEpochID) wit_sys wit_auditor from till
      \<lparr>TreeHash = wit_hash ls', StartEpochID = w\<rparr> stats (dump ls') =
    ([Rename (PartialTree till) (Tree till), Remove (Tree from)],
     Some \<lparr>arFrom = from, arTo = till, arLeaves = length ls', arStats = stats,
       arRemovals = JudgeRemovals (sort_key vMinEpochID) stats till w,
       arExpectedRoot = wit_hash ls', arComputedRoot = wit_hash ls', arMatch = True\<rparr>, None)"
    using w(2) root length_dump[OF assms(3)]
    by (simp add: finish_step_def Let_def SliceLeaves_dump[OF assms(3)] wit_sys_def wit_auditor_def
        wit_hash_def protonRecordLength_def)
  have "mapFile d (Tree from) = Some (dump ls)" "length (dump ls) mod protonRecordLength = 0"
    using w(1) assms(6) by (simp_all add: mapFile_def whole_records_def)
  then show ?thesis
    using f fin assms(6) unfolding Step_def Let_def
    by (simp add: wit_auditor_io wit_sys_io SliceLeaves_dump[OF assms(1)] assms(8) step_files_def)
qed

lemma wit_step:
  "Step one_sha (sort_key vMinEpochID) wit_sys (Some (200, Some wit_diff)) wit_auditor [(Tree 4, dump wit_leaves)] 4 5 wit_meta =
    (step_files 4 5 (dump wit_after), Some wit_result, None)"
proof -
  have "checkSorted wit_after = None" by code_simp
  then show ?thesis
    using one_sha_step[OF wit_dumps(1) _ wit_dumps(2), of "[(Tree 4, dump wit_leaves)]" 4 wit_diff wit_stats 5 10] wit_written
    by (simp add: wit_meta_def wit_result_def) (simp add: wit_leaves_def wit_after_def wit_diff_def)
qed

lemma wit_step2:
  "Step one_sha (sort_key vMinEpochID) wit_sys (Some (200, Some wit_diff2)) wit_auditor [(Tree 5, dump wit_after)] 5 6 wit_meta2 =
    (step_files 5 6 (dump wit_last), Some wit_result2, None)"
proof -
  have "ApplyDiff write_leaf ([], None) wit_after wit_diff2 = Inr (wit_stats2, wit_last, None)" by code_simp
  then show ?thesis
    using one_sha_step[OF wit_dumps(2) _ wit_last_ok(1) _ wit_last_ok(2), of "[(Tree 5, dump wit_after)]" 5 wit_diff2 wit_stats2 6 10]
    by (simp add: wit_meta2_def wit_result2_def) (simp add: wit_after_def wit_last_def wit_diff2_def)
qed

theorem matching_step_extends_witness:
  "((\<forall>l v v'. (l, v) \<in> set wit_after \<longrightarrow> (l, v') \<in> set wit_last \<longrightarrow> v' = v) \<and>
      Removals (arStats wit_result2) = map removal (filter (\<lambda>e. e \<notin> set wit_last) wit_after) \<and>
      Added (arStats wit_result2) = card (set wit_last - set wit_after) \<and>
      (Clean (arRemovals wit_result2) \<longrightarrow>
        (\<forall>e\<in>set wit_after - set wit_last. int (be_nat (drop 32 (snd e))) < StartEpochID wit_meta2))) \<or>
    emptyNode \<in> one_sha ` step_pre one_sha wit_after (dump wit_after) wit_last (dump wit_last) \<or>
    collides one_sha (step_pre one_sha wit_after (dump wit_after) wit_last (dump wit_last))"
proof (rule matching_step_extends[OF _ sorts_sort_key wit_step _ _ wit_step2])
  show "mapFile (do_effects (step_files 5 6 (dump wit_last)) [(Tree 5, dump wit_after)]) (Tree 6) = Some (dump wit_last)"
    using whole_dump[OF wit_last_ok(1)] by (simp add: mapFile_def step_files_def wit_last_def)
  show "map_of [(Tree 5, dump wit_after)] (Tree 5) =
    map_of (do_effects (step_files 4 5 (dump wit_after)) [(Tree 4, dump wit_leaves)]) (Tree 5)"
    by (simp add: step_files_def)
qed (use wit_whole(2) wit_dumps wit_last_ok in \<open>simp_all add: mapFile_def wit_hash_def wit_meta_def wit_meta2_def\<close>)

theorem interrupted_step_safe_witness:
  "map_of (do_effects (take 3 (step_files 4 5 (dump wit_after))) [(Tree 4, dump wit_leaves)]) (Tree 4) = Some (dump wit_leaves) \<or>
    (\<exists>m. map_of (do_effects (take 3 (step_files 4 5 (dump wit_after))) [(Tree 4, dump wit_leaves)]) (Tree 5) = Some m \<and>
      rebuilt_to one_sha (TreeHash wit_meta) m)"
  using interrupted_step_safe[OF wit_step, of "dump wit_leaves" 3] by simp

definition wit_boot :: pass_input where
  "wit_boot = \<lparr>inSys = wit_sys, inDump = Some (200, dump wit_leaves, True), inDiff = None, inMeta = (\<lambda>_. None),
     inTip = Some 4, inNow = 0\<rparr>"

definition wit_next :: pass_input where
  "wit_next = \<lparr>inSys = wit_sys, inDump = None, inDiff = Some (200, Some wit_diff), inMeta = (\<lambda>e. if e = 5 then Some wit_meta else None),
     inTip = Some 9, inNow = 0\<rparr>"

lemma wit_boot_pass:
  "runProtonStep one_sha (sort_key vMinEpochID) wit_auditor ''o'' False wit_boot [] empty_audits =
    ([Put (PartialTree 4) [], Put (PartialTree 4) (dump wit_leaves), Rename (PartialTree 4) (Tree 4)], empty_audits, True)"
  using wit_whole(1)
  by (simp add: runProtonStep_def Base_def wit_boot_def Bootstrap_def Let_def wit_auditor_io wit_sys_io below_floor_def)

lemma wit_next_pass:
  "runProtonStep one_sha (sort_key vMinEpochID) wit_auditor ''o'' False wit_next [(Tree 4, dump wit_leaves)] empty_audits =
    (step_files 4 5 (dump wit_after), RecordAudit (rebuild_audit ''o'' 5 0) empty_audits, True)"
proof -
  have "Base [(Tree 4, dump wit_leaves)] = 4" using wit_whole(1) by (simp add: Base_def)
  then show ?thesis by (simp add: runProtonStep_def wit_next_def wit_step) (simp add: wit_result_def)
qed

theorem replay_accounted_witness:
  "audited one_sha (served wit_boot \<union> served wit_next) (arrived wit_boot \<union> arrived wit_next) 5"
proof -
  have "replay one_sha (sort_key vMinEpochID) wit_auditor ''o'' False [] empty_audits {} {}"
    by (rule replay.start) (simp add: empty_audits_def)
  from replay.pass[OF this wit_boot_pass]
  have "replay one_sha (sort_key vMinEpochID) wit_auditor ''o'' False [(Tree 4, dump wit_leaves)] empty_audits
    (served wit_boot) (arrived wit_boot)" by simp
  from replay_accounted[OF replay.pass[OF this wit_next_pass]]
  have "\<forall>x\<in>set (audits (RecordAudit (rebuild_audit ''o'' 5 0) empty_audits) ''o'').
    audited one_sha (served wit_boot \<union> served wit_next) (arrived wit_boot \<union> arrived wit_next) (fst x)" by blast
  moreover have "audits (RecordAudit (rebuild_audit ''o'' 5 0) empty_audits) ''o'' = [(5, rebuild_audit ''o'' 5 0)]"
    by (simp add: audits_RecordAudit rebuild_audit_def empty_audits_def auditCount_def setAuditCount_def maxAuditsPerOrigin_def Let_def)
  ultimately show ?thesis by simp
qed

subsection \<open>Where the code falls short\<close>

text \<open>An unknown operation stops the merge before a leaf and is passed over after the last one.\<close>

lemma unknown_operation_by_position:
  assumes "op \<noteq> OpAdd" "op \<noteq> OpRemove" "length dl = length l" "dl \<le> l"
  shows "merge_loop out st s ((l, v) # ls) ((op, dl, dv) # ds) = Inl (UnknownOperation op)"
    and "merge_loop out st s [] ((op, dl, dv) # ds) = diff_tail out st s ds"
  using assms compare_bytes_cases[of l dl] by auto

text \<open>
  The dump a replay starts from is put in place without a rebuild, and the removals of the first
  step are dated from it: with any extra leaf in the dump that the diff removes, the step ends
  with the same tree.
\<close>

lemma bootstrap_unchecked:
  assumes "mkdirOk io" "below_floor io a = None" "createOk io" "closeOk io" "renameOk io" "whole_records (length body)"
  shows "map_of (do_effects (fst (Bootstrap io (Some (200, body, True)) a e)) d) (Tree e) = Some body"
  using assms by (simp add: Bootstrap_def Let_def)

lemma merge_of_padded_base:
  assumes "is_merge t ds o'" "is_merge t' ds o''" "set t' = insert (l, v) (set t)"
    and "has_op OpRemove ds l" "\<not> has_op OpAdd ds l"
  shows "o' = o''"
proof -
  have "set (kept t' ds) = set (kept t ds)" using assms(3,4) by (auto simp: kept_def)
  moreover have "with_op OpAdd False t' ds = with_op OpAdd False t ds"
    unfolding with_op_def
  proof (rule filter_cong[OF refl])
    fix d assume "d \<in> set ds"
    then have "fst d = OpAdd \<Longrightarrow> recLabel d \<noteq> l" using assms(5) by (auto simp: has_op_def list_ex_iff)
    then show "(fst d = OpAdd \<and> in_tree t' (recLabel d) = False) = (fst d = OpAdd \<and> in_tree t (recLabel d) = False)"
      using assms(3) by (auto simp: in_tree_def list_ex_iff)
  qed
  ultimately show ?thesis using assms(1,2) sorted_leaves_unique by (simp add: is_merge_def)
qed

text \<open>The floor on free space defaults in \<open>Step\<close> only: without a configured one the first download has none.\<close>

lemma bootstrap_without_floor: "MinFreeBytes a = 0 \<Longrightarrow> below_floor io a = None"
  by (simp add: below_floor_def split: option.split)

end
