(* ===== verification/Spec2Isabelle.thy ===== *)
theory Spec2Isabelle
  imports Signal_Audit Witness_Core Work_Queue Akd_Wire Worker_Results Proton_Step
begin

text \<open>
  \<^bold>\<open>kt-witness\<close> is a witness and auditor of key-transparency logs.  It fetches the signed heads of
  logs, checks that each new head extends the last one it vouched for, cosigns it, and audits the
  directories behind the heads by rebuilding what the operator signed.  This development models
  the parts of the Go code that carry that logic and proves what they promise.

  \<^bold>\<open>The parts and how they interact.\<close>  A \<^emph>\<open>witness round\<close> (\<open>internal/witness\<close>) takes a head from a
  source, checks consistency and other witnesses' heads, and compares-and-sets it in the store
  (\<open>internal/store\<close>).  Signal's source proves consistency with a \<^emph>\<open>log tree\<close> and reads keys from a
  \<^emph>\<open>prefix tree\<close> (\<open>internal/source/signal\<close>); an auditor replays Signal's updates
  (\<open>internal/signalaudit\<close>) over the same two trees.  AKD logs publish one append-only proof per
  epoch (\<open>internal/akdtree\<close>).  The \<^emph>\<open>generator\<close> (\<open>cmd/kt-witness/workgen.go\<close>) walks the published
  history and has proofs downloaded into the \<^emph>\<open>cache\<close> (\<open>internal/audit/prefetch.go\<close>); the \<^emph>\<open>queue\<close>
  (\<open>internal/work\<close>) leases what is cached to workers; the \<^emph>\<open>proof server\<close> (\<open>internal/workrpc\<close>) serves
  the proofs, some of them corrupted on purpose; and \<open>recordWorkerResult\<close>
  (\<open>cmd/kt-witness/work.go\<close>) compares what comes back with the published roots and writes audit
  records or an accusation.  Proton's directory is replayed by the witness itself, one diff at a
  time, over a retained tree (\<open>internal/source/proton\<close>).

  \<^bold>\<open>Theories.\<close>

  \<^item> \<open>KT_Prelude\<close>: bytes, words, big-endian encoders, results as sums, shared lemmas.
  \<^item> \<open>Pbwire\<close>: the two protobuf readers and the appenders (\<open>pbwire.go\<close>).  Lemmas: the strict reader
    reads back what the appenders write; what the lenient one keeps of what the strict one reads.
  \<^item> \<open>Merkle_Tree\<close>: the reference hash of a list of leaves and its frontier; no code.
  \<^item> \<open>Log_Tree\<close>, \<open>Log_Nodes\<close>, \<open>Log_Consistency\<close>: \<open>logtree.go\<close>; its node arithmetic on 64-bit words
    read on blocks of naturals; soundness and completeness of the consistency check.
  \<^item> \<open>Log_Frontier\<close>: \<open>frontier.go\<close>.  The locale \<open>log_accumulator\<close> is what a caller needs of an
    append-only accumulator; the frontier and the root calculator are its two interpretations.
  \<^item> \<open>Prefix_Tree\<close>: \<open>prefixtree.go\<close> against an explicit tree; commitments.
  \<^item> \<open>Signal_Audit\<close>: \<open>update.go\<close> and \<open>state.go\<close>; the replay refines a log of prefix roots and a tree.
  \<^item> \<open>Head_Store\<close>, \<open>Audit_Store\<close>: \<open>store.go\<close>, \<open>peers.go\<close>, \<open>retract.go\<close>, \<open>epochs.go\<close>, \<open>pushlogs.go\<close>,
    \<open>backoff.go\<close>, \<open>construction.go\<close>, one function for each transaction.  The locale \<open>head_store\<close> is
    what a round relies on.  Lemmas: retention, coverage, holes, watermarks.
  \<^item> \<open>Witness_Core\<close>: \<open>witness.go\<close>; a round, and rounds interleaved on one store.
  \<^item> \<open>Work_Queue\<close>: \<open>work.go\<close> and the store-backed source.  \<open>queue_reach\<close> is the reachable queues; the
    locale \<open>work_source\<close> is what \<open>Lease\<close> needs of a source, interpreted by the store here and by
    the cache in \<open>Proof_Cache\<close>.
  \<^item> \<open>Akd_Tree\<close>, \<open>Akd_Wire\<close>: \<open>verify.go\<close>; \<open>decode.go\<close> and \<open>ranges.go\<close>.
  \<^item> \<open>Proof_Cache\<close>: \<open>prefetch.go\<close>; \<open>pf_reach\<close> interleaves its critical sections.
  \<^item> \<open>Work_Generator\<close>: \<open>workgen.go\<close>; exactly when a backward pass returns.
  \<^item> \<open>Proof_Server\<close>: \<open>proofs.go\<close>; who is served what, and where a canary is put.
  \<^item> \<open>Worker_Results\<close>: \<open>recordWorkerResult\<close>, \<open>handleResult\<close>; \<open>work_run\<close> is a run of the work channel
    over the queue, the cache, the proof server and both stores together.
  \<^item> \<open>Proton_Tree\<close>, \<open>Proton_Diff\<close>, \<open>Proton_Step\<close>: \<open>tree.go\<close>, \<open>removals.go\<close>, \<open>incremental.go\<close> and
    \<open>runProtonStep\<close> of \<open>cmd/kt-witness/main.go\<close>; \<open>replay\<close> runs passes that may be cut off anywhere.

  Definitions carry the names of the Go functions and types; a suffix or a different name marks a
  piece of a function (a loop, a critical section) or a clash with the library.

  \<^bold>\<open>Conventions.\<close>  A call that returns an error is a sum, \<open>Inl\<close> the error.  A mutex section is one
  function, and a function that lets the mutex go in between is several, composed in order
  (\<open>lease_begin\<close> and \<open>lease_answer\<close>, \<open>fetch_begin\<close> and \<open>fetch_done\<close>, \<open>population_lookup\<close>, \<open>population_scan\<close>
  and \<open>setAuditCount\<close>); the invariants are proved over their interleavings.  A result from a worker
  is accepted and recorded in one step.  A database transaction is one step.  Clocks, random
  draws, the network and the file system are arguments.

  \<^bold>\<open>Parameters.\<close>  SHA-256, HMAC, BLAKE3, signature checks and sorting are functions from outside.
  Soundness theorems hold for every hash function and name the collision that the opposite would
  need, among the preimages that were in fact hashed (\<open>collides\<close>).  Where the code takes a hash
  of zeros for an empty node, the theorem says so.

  \<^bold>\<open>Bounds.\<close>  Log trees have at most \<open>2 ^ 63\<close> leaves, the most that 64-bit node numbers can name.
  The lenient reader is compared on messages shorter than \<open>2 ^ 63\<close> bytes, as every Go slice is.
  Proton's tree has 256 levels and shard depths from 1 to 16, the range the code accepts.  Loops
  are structural or have a termination proof.  The one that need not end, the backward pass of
  the generator, is a partial function whose \<open>None\<close> is a call that does not return; no fuel is used.

  \<^bold>\<open>Where the code falls short\<close> the theory has a lemma that shows it, beside the lemmas on the same
  function: for example a result credited to another log (\<open>credit_for_another_log\<close>), the first count
  of records too high (\<open>first_count_after_reopen_is_high\<close>) or a later one too low
  (\<open>population_query_slips\<close>), a pass that hangs (\<open>caught_up_pass_hangs\<close>), a base that nothing has
  rebuilt (\<open>bootstrap_unchecked\<close>, \<open>merge_of_padded_base\<close>).

  \<^bold>\<open>Not modelled:\<close> the fetchers of the other sources (AKD, Apple, C2SP, Sigsum, Keytrans, Proton's
  metadata), which are HTTP and parsing around the parts above; VRF, Ed25519 and PKCS 11, whose
  arithmetic is in libraries; the sampling auditor, the log lists, the push endpoint and log
  renaming; the governor, which is floating point; generated protobuf code; the status site,
  metrics, host probes and command-line tools, which report and wire.  Failures of the database
  and of JSON on records the store itself wrote are left out throughout.
\<close>

end
